(* ===== verification/Prelude.thy ===== *)
theory Prelude
  imports Main "HOL-Library.Word"
begin

text \<open>
  What every component of the development shares: the results of fallible code and their
  propagation, byte strings and slices of them, little-endian integers, and the checked
  arithmetic the code uses on unsigned 64-bit values.

  Conventions. A persisted or hashed integer is a word of its width. A length, an offset or a
  count held in memory is a natural number, and every place where the code checks it against a
  width checks it here. The address space is the 64-bit one: \<open>usize\<close> is a 64-bit value.
\<close>

unbundle bit_operations_syntax

section \<open>Fallible code\<close>

text \<open>
  \<open>bind_res m f\<close> is Rust's \<open>?\<close>: it stops at the first error and otherwise passes the
  value on.
\<close>

fun bind_res :: "('e + 'a) \<Rightarrow> ('a \<Rightarrow> 'e + 'b) \<Rightarrow> 'e + 'b" where
  "bind_res (Inl e) f = Inl e"
| "bind_res (Inr x) f = f x"

text \<open>\<open>require c e\<close> is the guard \<open>if !c { bail!(e) }\<close>.\<close>

definition require :: "bool \<Rightarrow> 'e \<Rightarrow> 'e + unit" where
  "require c e = (if c then Inr () else Inl e)"

text \<open>\<open>ok_or\<close> is \<open>Option::ok_or_else\<close>, and \<open>map_err\<close> is \<open>Result::map_err\<close>.\<close>

fun ok_or :: "'e \<Rightarrow> 'a option \<Rightarrow> 'e + 'a" where
  "ok_or e None = Inl e"
| "ok_or e (Some x) = Inr x"

fun map_err :: "('e \<Rightarrow> 'f) \<Rightarrow> 'e + 'a \<Rightarrow> 'f + 'a" where
  "map_err g (Inl e) = Inl (g e)"
| "map_err g (Inr x) = Inr x"

fun is_ok :: "'e + 'a \<Rightarrow> bool" where
  "is_ok (Inl e) = False"
| "is_ok (Inr x) = True"

lemma bind_res_cong [fundef_cong]:
  "m = m' \<Longrightarrow> (\<And>x. m' = Inr x \<Longrightarrow> f x = f' x) \<Longrightarrow> bind_res m f = bind_res m' f'"
  by (cases m') auto

lemma bind_res_Inr_iff: "bind_res m f = Inr y \<longleftrightarrow> (\<exists>x. m = Inr x \<and> f x = Inr y)"
  by (cases m) auto

lemma bind_res_Inr_eq: "Inr y = bind_res m f \<longleftrightarrow> (\<exists>x. m = Inr x \<and> f x = Inr y)"
  by (cases m) auto

lemma bind_res_Inl_iff:
  "bind_res m f = Inl e \<longleftrightarrow> m = Inl e \<or> (\<exists>x. m = Inr x \<and> f x = Inl e)"
  by (cases m) auto

lemma bind_res_split:
  "P (bind_res m f) \<longleftrightarrow> (\<forall>e. m = Inl e \<longrightarrow> P (Inl e)) \<and> (\<forall>x. m = Inr x \<longrightarrow> P (f x))"
  by (cases m) auto

lemma bind_res_split_asm:
  "P (bind_res m f) \<longleftrightarrow> \<not> ((\<exists>e. m = Inl e \<and> \<not> P (Inl e)) \<or> (\<exists>x. m = Inr x \<and> \<not> P (f x)))"
  by (cases m) auto

lemmas bind_res_splits = bind_res_split bind_res_split_asm

lemma bind_res_assoc: "bind_res (bind_res m f) g = bind_res m (\<lambda>x. bind_res (f x) g)"
  by (cases m) auto

lemma bind_res_if: "bind_res (if c then a else b) f = (if c then bind_res a f else bind_res b f)"
  by simp

lemma require_Inr_iff [simp]: "require c e = Inr u \<longleftrightarrow> c"
  by (simp add: require_def)

lemma require_Inl_iff [simp]: "require c e = Inl e' \<longleftrightarrow> \<not> c \<and> e' = e"
  by (auto simp: require_def)

lemma require_True [simp]: "require True e = Inr ()"
  by (simp add: require_def)

lemma require_False [simp]: "require False e = Inl e"
  by (simp add: require_def)

lemma ok_or_Inr_iff [simp]: "ok_or e m = Inr x \<longleftrightarrow> m = Some x"
  by (cases m) auto

lemma map_err_Inr_iff [simp]: "map_err g m = Inr x \<longleftrightarrow> m = Inr x"
  by (cases m) auto

lemma map_err_Inl_iff: "map_err g m = Inl e \<longleftrightarrow> (\<exists>e'. m = Inl e' \<and> e = g e')"
  by (cases m) auto

lemma is_ok_iff: "is_ok m \<longleftrightarrow> (\<exists>x. m = Inr x)"
  by (cases m) auto

named_theorems res_simps \<open>elimination of binds, guards and options from a successful result\<close>

lemmas [res_simps] = bind_res_Inr_iff bind_res_Inr_eq require_Inr_iff ok_or_Inr_iff map_err_Inr_iff

section \<open>Bytes and slices\<close>

type_synonym byte = "8 word"
type_synonym bytes = "byte list"
type_synonym u32 = "32 word"
type_synonym u64 = "64 word"

definition usize_max :: nat where "usize_max = 2 ^ 64 - 1"
definition u32_max :: nat where "u32_max = 2 ^ 32 - 1"
definition u64_max :: nat where "u64_max = 2 ^ 64 - 1"

text \<open>\<open>slice b i j\<close> is \<open>&b[i..j]\<close>; every use is guarded by \<open>i \<le> j \<le> b.len()\<close>.\<close>

definition slice :: "'a list \<Rightarrow> nat \<Rightarrow> nat \<Rightarrow> 'a list" where
  "slice b i j = take (j - i) (drop i b)"

text \<open>\<open>get_at b i\<close> is \<open>b.get(i)\<close>.\<close>

definition get_at :: "'a list \<Rightarrow> nat \<Rightarrow> 'a option" where
  "get_at b i = (if i < length b then Some (b ! i) else None)"

text \<open>\<open>get_range b i j\<close> is \<open>b.get(i..j)\<close>.\<close>

definition get_range :: "'a list \<Rightarrow> nat \<Rightarrow> nat \<Rightarrow> 'a list option" where
  "get_range b i j = (if i \<le> j \<and> j \<le> length b then Some (slice b i j) else None)"

text \<open>The bytes of an ASCII literal such as \<open>b"TDBFLD01"\<close>.\<close>

definition ascii :: "string \<Rightarrow> bytes" where
  "ascii s = map (\<lambda>c. word_of_nat (of_char c)) s"

lemma length_slice [simp]: "i \<le> j \<Longrightarrow> j \<le> length b \<Longrightarrow> length (slice b i j) = j - i"
  by (simp add: slice_def)

lemma slice_empty [simp]: "slice b i i = []"
  by (simp add: slice_def)

lemma slice_full [simp]: "slice b 0 (length b) = b"
  by (simp add: slice_def)

lemma slice_sub: "j \<le> n \<Longrightarrow> slice (slice b a (a + n)) i j = slice b (a + i) (a + j)"
  by (simp add: slice_def drop_take min_absorb1 add.commute)

lemma take_slice: "j \<le> n \<Longrightarrow> take j (slice b a (a + n)) = slice b a (a + j)"
  by (simp add: slice_def min_absorb1)

lemma slice_append_mid:
  "i = length pre \<Longrightarrow> j = length pre + length xs \<Longrightarrow> slice (pre @ xs @ post) i j = xs"
  by (simp add: slice_def)

lemma slice_append:
  "i \<le> j \<Longrightarrow> j \<le> k \<Longrightarrow> slice b i j @ slice b j k = slice b i k"
proof -
  assume "i \<le> j" "j \<le> k"
  then obtain m n where "j = i + m" "k = i + m + n"
    by (metis le_Suc_ex)
  then show ?thesis by (simp add: slice_def take_add add.commute)
qed

lemma get_at_Some_iff: "get_at b i = Some x \<longleftrightarrow> i < length b \<and> x = b ! i"
  by (auto simp: get_at_def)

lemma get_at_append: "i = length pre \<Longrightarrow> get_at (pre @ x # post) i = Some x"
  by (simp add: get_at_def)

lemma get_range_Some_iff:
  "get_range b i j = Some xs \<longleftrightarrow> i \<le> j \<and> j \<le> length b \<and> xs = slice b i j"
  by (auto simp: get_range_def)

section \<open>Little-endian integers\<close>

text \<open>
  \<open>le_bytes n v\<close> are the \<open>n\<close> low bytes of \<open>v\<close>, least significant first
  (\<open>to_le_bytes\<close>), and \<open>le_nat\<close> reads such a string back (\<open>from_le_bytes\<close>).
\<close>

fun le_bytes :: "nat \<Rightarrow> nat \<Rightarrow> bytes" where
  "le_bytes 0 v = []"
| "le_bytes (Suc n) v = word_of_nat v # le_bytes n (v div 256)"

fun le_nat :: "bytes \<Rightarrow> nat" where
  "le_nat [] = 0"
| "le_nat (b # bs) = unat b + 256 * le_nat bs"

definition le32 :: "u32 \<Rightarrow> bytes" where "le32 w = le_bytes 4 (unat w)"
definition le64 :: "u64 \<Rightarrow> bytes" where "le64 w = le_bytes 8 (unat w)"
definition u32_of_le :: "bytes \<Rightarrow> u32" where "u32_of_le bs = word_of_nat (le_nat bs)"
definition u64_of_le :: "bytes \<Rightarrow> u64" where "u64_of_le bs = word_of_nat (le_nat bs)"

lemma unat_less: "unat (w :: 'a::len word) < 2 ^ LENGTH('a)"
  by (rule unsigned_less)

lemma length_le_bytes [simp]: "length (le_bytes n v) = n"
  by (induction n arbitrary: v) auto

lemma length_le32 [simp]: "length (le32 w) = 4"
  by (simp add: le32_def)

lemma length_le64 [simp]: "length (le64 w) = 8"
  by (simp add: le64_def)

lemma le_nat_le_bytes: "le_nat (le_bytes n v) = v mod 256 ^ n"
  by (induction n arbitrary: v) (simp_all add: unat_of_nat mod_mult2_eq add.commute)

lemma le_nat_bound: "le_nat bs < 256 ^ length bs"
proof (induction bs)
  case Nil
  then show ?case by simp
next
  case (Cons b bs)
  have "unat b < 256" using unat_less [of b] by simp
  with Cons show ?case by simp
qed

lemma le_bytes_le_nat: "le_bytes (length bs) (le_nat bs) = bs"
proof (induction bs)
  case Nil
  then show ?case by simp
next
  case (Cons b bs)
  have "unat b < 256" using unat_less [of b] by simp
  then have "(unat b + 256 * le_nat bs) div 256 = le_nat bs" by simp
  moreover have "(word_of_nat (unat b + 256 * le_nat bs) :: byte) = b"
  proof -
    have z: "256 = (0 :: byte)" by simp
    have "(word_of_nat (unat b + 256 * le_nat bs) :: byte) = b + 256 * word_of_nat (le_nat bs)"
      by simp
    also have "\<dots> = b" by (subst z) simp
    finally show ?thesis .
  qed
  ultimately show ?case using Cons by simp
qed

lemma u32_of_le_le32 [simp]: "u32_of_le (le32 w) = w"
proof -
  have "unat w < 2 ^ 32" using unat_less [of w] by simp
  then show ?thesis by (simp add: u32_of_le_def le32_def le_nat_le_bytes)
qed

lemma u64_of_le_le64 [simp]: "u64_of_le (le64 w) = w"
proof -
  have "unat w < 2 ^ 64" using unat_less [of w] by simp
  then show ?thesis by (simp add: u64_of_le_def le64_def le_nat_le_bytes)
qed

lemma le32_u32_of_le: "length bs = 4 \<Longrightarrow> le32 (u32_of_le bs) = bs"
proof -
  assume len: "length bs = 4"
  then have "le_nat bs < 2 ^ 32" using le_nat_bound [of bs] by simp
  then have "unat (word_of_nat (le_nat bs) :: u32) = le_nat bs" by (simp add: unat_of_nat)
  then show ?thesis using le_bytes_le_nat [of bs] len by (simp add: le32_def u32_of_le_def)
qed

lemma le64_u64_of_le: "length bs = 8 \<Longrightarrow> le64 (u64_of_le bs) = bs"
proof -
  assume len: "length bs = 8"
  then have "le_nat bs < 2 ^ 64" using le_nat_bound [of bs] by simp
  then have "unat (word_of_nat (le_nat bs) :: u64) = le_nat bs" by (simp add: unat_of_nat)
  then show ?thesis using le_bytes_le_nat [of bs] len by (simp add: le64_def u64_of_le_def)
qed

lemma le32_inject [simp]: "le32 a = le32 b \<longleftrightarrow> a = b"
  by (metis u32_of_le_le32)

lemma le64_inject [simp]: "le64 a = le64 b \<longleftrightarrow> a = b"
  by (metis u64_of_le_le64)

section \<open>Checked arithmetic\<close>

text \<open>\<open>u64::checked_add\<close> and \<open>u64::checked_mul\<close> on values held as naturals.\<close>

definition checked_add :: "nat \<Rightarrow> nat \<Rightarrow> nat option" where
  "checked_add a b = (if a + b \<le> u64_max then Some (a + b) else None)"

definition checked_mul :: "nat \<Rightarrow> nat \<Rightarrow> nat option" where
  "checked_mul a b = (if a * b \<le> u64_max then Some (a * b) else None)"

text \<open>\<open>u64::saturating_add\<close>, \<open>u64::saturating_mul\<close>, and the plain \<open>+\<close>, which wraps in a
  release build.\<close>

definition sat_add :: "nat \<Rightarrow> nat \<Rightarrow> nat" where
  "sat_add a b = min (a + b) u64_max"

definition sat_mul :: "nat \<Rightarrow> nat \<Rightarrow> nat" where
  "sat_mul a b = min (a * b) u64_max"

definition wrap_add :: "nat \<Rightarrow> nat \<Rightarrow> nat" where
  "wrap_add a b = (a + b) mod 2 ^ 64"

lemma wrap_add_fits: "a + b \<le> u64_max \<Longrightarrow> wrap_add a b = a + b"
  by (simp add: wrap_add_def u64_max_def)

text \<open>\<open>u64::div_ceil\<close>.\<close>

definition div_ceil :: "nat \<Rightarrow> nat \<Rightarrow> nat" where
  "div_ceil a b = (if a mod b = 0 then a div b else Suc (a div b))"

lemma checked_add_Some_iff: "checked_add a b = Some c \<longleftrightarrow> c = a + b \<and> a + b \<le> u64_max"
  by (auto simp: checked_add_def)

lemma checked_mul_Some_iff: "checked_mul a b = Some c \<longleftrightarrow> c = a * b \<and> a * b \<le> u64_max"
  by (auto simp: checked_mul_def)

lemma unat_u32_le_max: "unat (w :: u32) \<le> u32_max"
  using unat_less [of w] by (simp add: u32_max_def)

lemma unat_u64_le_max: "unat (w :: u64) \<le> u64_max"
  using unat_less [of w] by (simp add: u64_max_def)

lemma unat_byte_less: "unat (b :: byte) < 256"
  using unat_less [of b] by simp

section \<open>Lengths that fit their field\<close>

definition short :: "'a list \<Rightarrow> bool" where
  "short xs \<longleftrightarrow> length xs \<le> u64_max"

lemma unat_short [simp]: "short xs \<Longrightarrow> unat (word_of_nat (length xs) :: u64) = length xs"
  by (simp add: short_def unat_of_nat u64_max_def)

section \<open>Evaluation\<close>

lemma replicate_numeral: "replicate (numeral k) x = x # replicate (pred_numeral k) x"
  by (simp add: numeral_eq_Suc)

end
