(* ===== verification/Limits.thy ===== *)
theory Limits
  imports Prelude
begin

text \<open>
  Runtime admission of stored frames and object collections (\<open>src/src/read_limits.rs\<close>), and
  the errors of the layers above it. A \<open>ReadLimits\<close> value is a policy: it is validated once
  and then each length or count read from disk is compared with it before anything of that size
  is allocated.
\<close>

section \<open>Policy and refusals\<close>

datatype read_admission_error =
    InvalidLimits string
  | StoredFrameTooLarge string nat nat
  | DecodedFrameTooLarge string nat nat
  | ObjectCountTooLarge string nat nat

record read_limits =
  max_stored_frame_bytes :: nat
  max_decoded_frame_bytes :: nat
  max_directory_entries :: nat
  max_wal_frames :: nat
  max_fold_blocks :: nat

definition default_max_stored_frame_bytes :: nat where
  "default_max_stored_frame_bytes = 512 * 2 ^ 20"

definition default_max_decoded_frame_bytes :: nat where
  "default_max_decoded_frame_bytes = 512 * 2 ^ 20"

definition default_max_directory_entries :: nat where
  "default_max_directory_entries = 100000"

definition default_max_wal_frames :: nat where
  "default_max_wal_frames = 100000"

definition default_max_fold_blocks :: nat where
  "default_max_fold_blocks = 1000000"

definition default_limits :: read_limits where
  "default_limits =
     \<lparr> max_stored_frame_bytes = default_max_stored_frame_bytes,
       max_decoded_frame_bytes = default_max_decoded_frame_bytes,
       max_directory_entries = default_max_directory_entries,
       max_wal_frames = default_max_wal_frames,
       max_fold_blocks = default_max_fold_blocks \<rparr>"

definition validate_limits :: "read_limits \<Rightarrow> read_admission_error + read_limits" where
  "validate_limits l =
    (if max_stored_frame_bytes l = 0 then
       Inl (InvalidLimits ''max_stored_frame_bytes must be greater than zero'')
     else if max_decoded_frame_bytes l = 0 then
       Inl (InvalidLimits ''max_decoded_frame_bytes must be greater than zero'')
     else if max_directory_entries l = 0 then
       Inl (InvalidLimits ''max_directory_entries must be greater than zero'')
     else if max_wal_frames l = 0 then
       Inl (InvalidLimits ''max_wal_frames must be greater than zero'')
     else if max_fold_blocks l = 0 then
       Inl (InvalidLimits ''max_fold_blocks must be greater than zero'')
     else if max_stored_frame_bytes l > usize_max then
       Inl (InvalidLimits ''max_stored_frame_bytes exceeds the address space'')
     else if max_decoded_frame_bytes l > usize_max then
       Inl (InvalidLimits ''max_decoded_frame_bytes exceeds the address space'')
     else if max_directory_entries l > usize_max then
       Inl (InvalidLimits ''max_directory_entries exceeds the address space'')
     else if max_wal_frames l > usize_max then
       Inl (InvalidLimits ''max_wal_frames exceeds the address space'')
     else if max_fold_blocks l > usize_max \<or> max_fold_blocks l > u32_max then
       Inl (InvalidLimits ''max_fold_blocks exceeds the block-id space'')
     else Inr l)"

section \<open>Admission\<close>

definition admit_stored :: "read_limits \<Rightarrow> string \<Rightarrow> nat \<Rightarrow> read_admission_error + unit" where
  "admit_stored l frame actual =
    (if actual > max_stored_frame_bytes l
     then Inl (StoredFrameTooLarge frame actual (max_stored_frame_bytes l)) else Inr ())"

definition admit_decoded :: "read_limits \<Rightarrow> string \<Rightarrow> nat \<Rightarrow> read_admission_error + unit" where
  "admit_decoded l frame actual =
    (if actual > max_decoded_frame_bytes l
     then Inl (DecodedFrameTooLarge frame actual (max_decoded_frame_bytes l)) else Inr ())"

definition admit :: "read_limits \<Rightarrow> string \<Rightarrow> nat \<Rightarrow> nat \<Rightarrow> read_admission_error + unit" where
  "admit l frame stored decoded =
     bind_res (admit_stored l frame stored) (\<lambda>_. admit_decoded l frame decoded)"

definition admit_objects :: "string \<Rightarrow> nat \<Rightarrow> nat \<Rightarrow> read_admission_error + unit" where
  "admit_objects collection actual allowed =
    (if actual > allowed then Inl (ObjectCountTooLarge collection actual allowed) else Inr ())"

definition admit_directory_entries ::
  "read_limits \<Rightarrow> string \<Rightarrow> nat \<Rightarrow> read_admission_error + unit" where
  "admit_directory_entries l directory actual =
     admit_objects directory actual (max_directory_entries l)"

definition admit_wal_frames :: "read_limits \<Rightarrow> nat \<Rightarrow> read_admission_error + unit" where
  "admit_wal_frames l actual = admit_objects ''WAL frames'' actual (max_wal_frames l)"

definition admit_fold_blocks :: "read_limits \<Rightarrow> nat \<Rightarrow> read_admission_error + unit" where
  "admit_fold_blocks l actual = admit_objects ''fold blocks'' actual (max_fold_blocks l)"

lemma admit_stored_ok [simp]:
  "admit_stored l f n = Inr u \<longleftrightarrow> n \<le> max_stored_frame_bytes l"
  by (simp add: admit_stored_def)

lemma admit_decoded_ok [simp]:
  "admit_decoded l f n = Inr u \<longleftrightarrow> n \<le> max_decoded_frame_bytes l"
  by (simp add: admit_decoded_def)

lemma admit_ok [simp]:
  "admit l f s d = Inr u \<longleftrightarrow> s \<le> max_stored_frame_bytes l \<and> d \<le> max_decoded_frame_bytes l"
  by (simp add: admit_def bind_res_Inr_iff)

lemma admit_objects_ok [simp]: "admit_objects c n m = Inr u \<longleftrightarrow> n \<le> m"
  by (simp add: admit_objects_def)

lemma admit_directory_entries_ok [simp]:
  "admit_directory_entries l d n = Inr u \<longleftrightarrow> n \<le> max_directory_entries l"
  by (simp add: admit_directory_entries_def)

lemma admit_wal_frames_ok [simp]: "admit_wal_frames l n = Inr u \<longleftrightarrow> n \<le> max_wal_frames l"
  by (simp add: admit_wal_frames_def)

lemma admit_fold_blocks_ok [simp]: "admit_fold_blocks l n = Inr u \<longleftrightarrow> n \<le> max_fold_blocks l"
  by (simp add: admit_fold_blocks_def)

text \<open>The bounds a validated policy satisfies.\<close>

definition limits_ok :: "read_limits \<Rightarrow> bool" where
  "limits_ok l \<longleftrightarrow>
     0 < max_stored_frame_bytes l \<and> max_stored_frame_bytes l \<le> usize_max \<and>
     0 < max_decoded_frame_bytes l \<and> max_decoded_frame_bytes l \<le> usize_max \<and>
     0 < max_directory_entries l \<and> max_directory_entries l \<le> usize_max \<and>
     0 < max_wal_frames l \<and> max_wal_frames l \<le> usize_max \<and>
     0 < max_fold_blocks l \<and> max_fold_blocks l \<le> u32_max"

lemma validate_limits_Inr_iff: "validate_limits l = Inr l' \<longleftrightarrow> limits_ok l \<and> l' = l"
  by (auto simp: validate_limits_def limits_ok_def usize_max_def u32_max_def)

lemma validate_limits_ok [simp]: "limits_ok l \<Longrightarrow> validate_limits l = Inr l"
  by (simp add: validate_limits_Inr_iff)

lemma limits_ok_default [simp]: "limits_ok default_limits"
  by (simp add: limits_ok_def default_limits_def usize_max_def u32_max_def
      default_max_stored_frame_bytes_def default_max_decoded_frame_bytes_def
      default_max_directory_entries_def default_max_wal_frames_def default_max_fold_blocks_def)

section \<open>Errors of the layers above\<close>

text \<open>
  The code returns \<open>anyhow\<close> errors. What a caller can tell apart is a message raised by
  \<open>bail!\<close>, a typed admission refusal, a failed read of the underlying file and a cooperative
  interruption. \<open>Panic\<close> is a Rust panic, such as an index out of bounds.
\<close>

datatype failure =
    Bail string
  | Admission read_admission_error
  | ReadFault string
  | Interrupted string
  | Panic string

type_synonym 'a outcome = "failure + 'a"

abbreviation admitted :: "(read_admission_error + 'a) \<Rightarrow> 'a outcome" where
  "admitted m \<equiv> map_err Admission m"

section \<open>Properties\<close>

text \<open>A validated policy is usable and admission is exactly comparison with it: validation returns
  the policy unchanged when every dimension is positive and representable, the defaults pass, and
  a frame is admitted exactly when its stored and its decoded length are both within the policy.\<close>

theorem limits_admit_exactly:
  "(validate_limits l = Inr l' \<longleftrightarrow> l' = l \<and>
      0 < max_stored_frame_bytes l \<and> max_stored_frame_bytes l \<le> usize_max \<and>
      0 < max_decoded_frame_bytes l \<and> max_decoded_frame_bytes l \<le> usize_max \<and>
      0 < max_directory_entries l \<and> max_directory_entries l \<le> usize_max \<and>
      0 < max_wal_frames l \<and> max_wal_frames l \<le> usize_max \<and>
      0 < max_fold_blocks l \<and> max_fold_blocks l \<le> u32_max) \<and>
   is_ok (validate_limits default_limits) \<and>
   (admit l f stored decoded = Inr () \<longleftrightarrow>
      stored \<le> max_stored_frame_bytes l \<and> decoded \<le> max_decoded_frame_bytes l)"
proof (intro conjI)
  show "is_ok (validate_limits default_limits)"
    by (simp add: is_ok_iff validate_limits_Inr_iff)
qed (auto simp: validate_limits_Inr_iff limits_ok_def usize_max_def u32_max_def)

end
