(* ===== verification/ReadAt.thy ===== *)
theory ReadAt
  imports Limits
begin

text \<open>
  Positioned reads (\<open>src/src/readat.rs\<close>). A reader answers \<open>read_exact_at\<close>: it takes an offset
  and a length and yields exactly that many bytes or fails. \<open>mem_read b\<close> is the reader of a file
  that holds the bytes \<open>b\<close>; \<open>slice_read\<close> is a bounded extent of another reader, and
  \<open>extents_read\<close> stitches scattered extents into one logical range.
\<close>

type_synonym reader = "nat \<Rightarrow> nat \<Rightarrow> bytes outcome"

definition eof :: failure where "eof = ReadFault ''unexpected eof''"

definition mem_read :: "bytes \<Rightarrow> reader" where
  "mem_read b off n = (if off > length b \<or> n > length b - off then Inl eof else Inr (slice b off (off + n)))"

lemma mem_read_Inr_iff: "mem_read b off n = Inr x \<longleftrightarrow> off + n \<le> length b \<and> x = slice b off (off + n)"
  by (auto simp: mem_read_def)

section \<open>A bounded extent\<close>

definition slice_read :: "reader \<Rightarrow> nat \<Rightarrow> nat \<Rightarrow> reader" where
  "slice_read inner soff slen off n =
    (if off > slen \<or> n > slen - off then Inl eof else inner (wrap_add soff off) n)"

section \<open>Scattered extents\<close>

record extents =
  ext_runs :: "(nat \<times> nat \<times> nat) list"
  ext_len :: nat

fun extents_loop :: "nat \<Rightarrow> (nat \<times> nat) list \<Rightarrow> (nat \<times> nat \<times> nat) list \<times> nat" where
  "extents_loop logical [] = ([], logical)"
| "extents_loop logical ((off, len) # es) =
    (if len = 0 then extents_loop logical es
     else let (runs, total) = extents_loop (wrap_add logical len) es in ((logical, off, len) # runs, total))"

definition extents_new :: "(nat \<times> nat) list \<Rightarrow> extents" where
  "extents_new es = (let (runs, total) = extents_loop 0 es in \<lparr> ext_runs = runs, ext_len = total \<rparr>)"

text \<open>The loop that fills the buffer; running off the table of runs is an index panic.\<close>

fun ext_fill :: "reader \<Rightarrow> (nat \<times> nat \<times> nat) list \<Rightarrow> nat \<Rightarrow> nat \<Rightarrow> bytes outcome" where
  "ext_fill inner [] at need = (if need = 0 then Inr [] else Inl (Panic ''index out of bounds''))"
| "ext_fill inner ((start, phys, len) # rs) at need =
    (if need = 0 then Inr []
     else let within = at - start; n = min (len - within) need
          in bind_res (inner (wrap_add phys within) n) (\<lambda>b.
             bind_res (ext_fill inner rs (at + n) (need - n)) (\<lambda>rest. Inr (b @ rest))))"

text \<open>\<open>partition_point\<close> on a table whose starts ascend.\<close>

definition partition_point :: "('a \<Rightarrow> bool) \<Rightarrow> 'a list \<Rightarrow> nat" where
  "partition_point p xs = length (takeWhile p xs)"

definition extents_read :: "reader \<Rightarrow> extents \<Rightarrow> reader" where
  "extents_read inner e off n =
    (if off > ext_len e \<or> n > ext_len e - off then Inl eof
     else if n = 0 then Inr []
     else if length (ext_runs e) = 1 then inner (wrap_add (fst (snd (ext_runs e ! 0))) off) n
     else ext_fill inner
       (drop (partition_point (\<lambda>r. fst r \<le> off) (ext_runs e) - 1) (ext_runs e)) off n)"

text \<open>\<open>physical_ranges\<close>: where a logical window lies, without reading it.\<close>

fun physical_loop :: "nat \<Rightarrow> nat \<Rightarrow> nat \<Rightarrow> (nat \<times> nat) list \<Rightarrow> (nat \<times> nat) list" where
  "physical_loop off end logical [] = []"
| "physical_loop off end logical ((phys, len) # es) =
    (let run_end = sat_add logical len;
         rest = physical_loop off end run_end es
     in if len > 0 \<and> run_end > off \<and> logical < end
        then (wrap_add phys (max off logical - logical), min end run_end - max off logical) # rest
        else rest)"

definition physical_ranges :: "(nat \<times> nat) list \<Rightarrow> nat \<Rightarrow> nat \<Rightarrow> (nat \<times> nat) list" where
  "physical_ranges es off len = physical_loop off (sat_add off len) 0 es"

section \<open>The logical bytes of a member\<close>

definition ext_bytes :: "bytes \<Rightarrow> (nat \<times> nat) list \<Rightarrow> bytes" where
  "ext_bytes data es = concat (map (\<lambda>(off, len). slice data off (off + len)) es)"

text \<open>Extents that lie inside a file whose offsets are 64-bit, and whose total is one too.\<close>

definition ext_total :: "(nat \<times> nat) list \<Rightarrow> nat" where
  "ext_total es = sum_list (map snd es)"

definition extents_within :: "bytes \<Rightarrow> (nat \<times> nat) list \<Rightarrow> bool" where
  "extents_within data es \<longleftrightarrow> length data \<le> u64_max \<and> ext_total es \<le> u64_max \<and>
     list_all (\<lambda>(off, len). off + len \<le> length data) es"

lemma length_ext_bytes: "list_all (\<lambda>(off, len). off + len \<le> length data) es \<Longrightarrow>
    length (ext_bytes data es) = ext_total es"
  by (induction es) (auto simp: ext_bytes_def ext_total_def)

lemma mem_read_ok: "off + n \<le> length b \<Longrightarrow> mem_read b off n = Inr (slice b off (off + n))"
  by (simp add: mem_read_def)

lemma slice_slice: "i + n \<le> l \<Longrightarrow> slice (slice b o' (o' + l)) i (i + n) = slice b (o' + i) (o' + i + n)"
  by (simp add: slice_def take_drop drop_drop add.commute min_absorb1 min_absorb2)

lemma slice_read_mem:
  assumes "soff + slen \<le> length b" and "length b \<le> u64_max"
  shows "slice_read (mem_read b) soff slen = mem_read (slice b soff (soff + slen))"
proof (intro ext)
  fix off n
  have len: "length (slice b soff (soff + slen)) = slen" using assms(1) by simp
  show "slice_read (mem_read b) soff slen off n = mem_read (slice b soff (soff + slen)) off n"
  proof (cases "off > slen \<or> n > slen - off")
    case True
    then show ?thesis by (simp add: slice_read_def mem_read_def len)
  next
    case False
    then have "off + n \<le> slen" by linarith
    then show ?thesis
      using assms by (simp add: slice_read_def mem_read_ok wrap_add_fits slice_slice len)
  qed
qed

section \<open>Reading through the extents\<close>

lemma extents_loop_Cons:
  assumes "logical + ext_total ((off, len) # es) \<le> u64_max"
  shows "extents_loop logical ((off, len) # es) =
    (if len = 0 then extents_loop logical es
     else ((logical, off, len) # fst (extents_loop (logical + len) es), snd (extents_loop (logical + len) es)))"
proof -
  have "wrap_add logical len = logical + len"
    using assms by (intro wrap_add_fits) (simp add: ext_total_def)
  then show ?thesis by (simp add: case_prod_beta)
qed

lemma ext_total_Cons [simp]: "ext_total ((off, len) # es) = len + ext_total es"
  by (simp add: ext_total_def)

lemma ext_bytes_Cons [simp]: "ext_bytes data ((off, len) # es) = slice data off (off + len) @ ext_bytes data es"
  by (simp add: ext_bytes_def)

lemma extents_loop_total:
  "logical + ext_total es \<le> u64_max \<Longrightarrow> snd (extents_loop logical es) = logical + ext_total es"
proof (induction es arbitrary: logical)
  case (Cons e es)
  obtain off len where e: "e = (off, len)" by (cases e)
  show ?case
    using Cons.IH [of "logical + len"] Cons.IH [of logical] Cons.prems
    unfolding e extents_loop_Cons [OF Cons.prems [unfolded e]] by auto
qed (simp add: ext_total_def)

lemma extents_loop_starts:
  "logical + ext_total es \<le> u64_max \<Longrightarrow> r \<in> set (fst (extents_loop logical es)) \<Longrightarrow> logical \<le> fst r"
proof (induction es arbitrary: logical)
  case (Cons e es)
  obtain off len where e: "e = (off, len)" by (cases e)
  show ?case
    using Cons.IH [of "logical + len"] Cons.IH [of logical] Cons.prems
    unfolding e extents_loop_Cons [OF Cons.prems(1) [unfolded e]] by (auto split: if_splits)
qed simp

lemma extents_loop_first:
  "logical + ext_total es \<le> u64_max \<Longrightarrow> fst (extents_loop logical es) = r # rs \<Longrightarrow> fst r = logical"
proof (induction es)
  case (Cons e es)
  obtain a b where e: "e = (a, b)" by (cases e)
  show ?case
    using Cons unfolding e extents_loop_Cons [OF Cons.prems(1) [unfolded e]] by (auto split: if_splits)
qed simp

lemma ext_fill_start:
  assumes "length data \<le> u64_max"
  shows "logical + ext_total es \<le> u64_max \<Longrightarrow> list_all (\<lambda>(off, len). off + len \<le> length data) es \<Longrightarrow>
    n \<le> ext_total es \<Longrightarrow>
    ext_fill (mem_read data) (fst (extents_loop logical es)) logical n = Inr (take n (ext_bytes data es))"
proof (induction es arbitrary: logical n)
  case Nil
  then show ?case by (simp add: ext_total_def)
next
  case (Cons e es)
  obtain off len where e: "e = (off, len)" by (cases e)
  note step = extents_loop_Cons [OF Cons.prems(1) [unfolded e]]
  have o: "off + len \<le> length data" using Cons.prems(2) by (simp add: e)
  show ?case
  proof (cases "len = 0 \<or> n = 0")
    case True
    then show ?thesis
      using Cons.IH [of logical n] Cons.prems unfolding e step by (cases "len = 0") auto
  next
    case False
    have w: "wrap_add off 0 = off" using o assms by (simp add: wrap_add_fits)
    have r: "mem_read data off (min len n) = Inr (slice data off (off + min len n))"
      using o by (intro mem_read_ok) simp
    have tk: "slice data off (off + min len n) = take n (slice data off (off + len))"
      by (simp add: slice_def min.commute)
    have rest: "ext_fill (mem_read data) (fst (extents_loop (logical + len) es)) (logical + min len n) (n - min len n)
        = Inr (take (n - len) (ext_bytes data es))"
    proof (cases "n \<le> len")
      case True
      then have "n - min len n = 0" by simp
      then show ?thesis using True by (cases "fst (extents_loop (logical + len) es)") auto
    next
      case False
      then show ?thesis using Cons.IH [of "logical + len" "n - len"] Cons.prems by (auto simp: e min_def)
    qed
    show ?thesis using False o unfolding e step by (simp add: Let_def w r rest tk)
  qed
qed

lemma ext_fill_mid:
  assumes "length data \<le> u64_max"
  shows "logical + ext_total es \<le> u64_max \<Longrightarrow> list_all (\<lambda>(off, len). off + len \<le> length data) es \<Longrightarrow>
    logical \<le> off \<Longrightarrow> off - logical + n \<le> ext_total es \<Longrightarrow> 0 < n \<Longrightarrow>
    ext_fill (mem_read data)
      (drop (partition_point (\<lambda>r. fst r \<le> off) (fst (extents_loop logical es)) - 1) (fst (extents_loop logical es))) off n
    = Inr (take n (drop (off - logical) (ext_bytes data es)))"
proof (induction es arbitrary: logical)
  case Nil
  then show ?case by (simp add: ext_total_def)
next
  case (Cons e es)
  obtain phys len where e: "e = (phys, len)" by (cases e)
  note step = extents_loop_Cons [OF Cons.prems(1) [unfolded e]]
  have o: "phys + len \<le> length data" using Cons.prems(2) by (simp add: e)
  let ?runs = "fst (extents_loop (logical + len) es)"
  have total: "(logical + len) + ext_total es \<le> u64_max" using Cons.prems(1) by (simp add: e)
  consider "len = 0" | "0 < len" "off < logical + len" | "0 < len" "logical + len \<le> off" by linarith
  then show ?case
  proof cases
    case 1
    then show ?thesis using Cons.IH [of logical] Cons.prems unfolding e step by auto
  next
    case 2
    have "takeWhile (\<lambda>r. fst r \<le> off) ?runs = []"
      using extents_loop_starts [OF total] 2(2) by (cases ?runs) fastforce+
    then have pp: "partition_point (\<lambda>r. fst r \<le> off) ((logical, phys, len) # ?runs) = 1"
      using Cons.prems(3) by (simp add: partition_point_def)
    let ?w = "off - logical"
    let ?k = "min (len - ?w) n"
    have w: "wrap_add phys ?w = phys + ?w" using o 2 assms by (intro wrap_add_fits) linarith
    have r: "mem_read data (phys + ?w) ?k = Inr (slice data (phys + ?w) (phys + ?w + ?k))"
      by (rule mem_read_ok) (use o 2 in linarith)
    have rest: "ext_fill (mem_read data) ?runs (off + ?k) (n - ?k) = Inr (take (n - ?k) (ext_bytes data es))"
    proof (cases "n \<le> len - ?w")
      case True
      then show ?thesis by (cases ?runs) auto
    next
      case False
      then have k: "off + ?k = logical + len" using 2 Cons.prems(3) by linarith
      have le: "n - ?k \<le> ext_total es" using Cons.prems(3,4) k by (simp add: e)
      have wi: "list_all (\<lambda>(off, len). off + len \<le> length data) es" using Cons.prems(2) by simp
      show ?thesis unfolding k by (rule ext_fill_start [OF assms total wi le])
    qed
    have tk: "take n (drop ?w (slice data phys (phys + len))) = slice data (phys + ?w) (phys + ?w + ?k)"
      by (simp add: slice_def drop_take add.commute min.commute)
    have len_d: "n - (len - ?w) = n - ?k" by simp
    have "length (slice data phys (phys + len)) = len" using o by simp
    then have "take n (drop ?w (ext_bytes data (e # es))) =
        slice data (phys + ?w) (phys + ?w + ?k) @ take (n - ?k) (ext_bytes data es)"
      using 2 tk by (simp add: e len_d)
    then show ?thesis
      using 2 Cons.prems(5) unfolding e step by (simp add: pp Let_def w r rest)
  next
    case 3
    have ne: "partition_point (\<lambda>r. fst r \<le> off) ?runs \<noteq> 0"
    proof -
      have "0 < ext_total es" using Cons.prems(4,5) 3 by (simp add: e)
      then have "?runs \<noteq> []" using total
      proof (induction es)
        case (Cons f fs)
        obtain a b where f: "f = (a, b)" by (cases f)
        show ?case using Cons unfolding f extents_loop_Cons [OF Cons.prems(2) [unfolded f]] by auto
      qed (simp add: ext_total_def)
      then show ?thesis
        using 3 extents_loop_first [OF total] by (cases ?runs) (auto simp: partition_point_def)
    qed
    then have pp: "partition_point (\<lambda>r. fst r \<le> off) ((logical, phys, len) # ?runs) - 1
        = Suc (partition_point (\<lambda>r. fst r \<le> off) ?runs - 1)"
      using Cons.prems(3) by (simp add: partition_point_def)
    have "off - logical = length (slice data phys (phys + len)) + (off - (logical + len))"
      using o 3 by simp
    then have dr: "drop (off - logical) (ext_bytes data (e # es)) = drop (off - (logical + len)) (ext_bytes data es)"
      by (simp add: e)
    have "off - (logical + len) + n \<le> ext_total es" using Cons.prems(3,4) 3 by (simp add: e)
    then have "ext_fill (mem_read data) (drop (partition_point (\<lambda>r. fst r \<le> off) ?runs - 1) ?runs) off n
        = Inr (take n (drop (off - (logical + len)) (ext_bytes data es)))"
      using Cons.IH [of "logical + len"] Cons.prems 3 by (simp add: e)
    then show ?thesis using 3 unfolding dr unfolding e step by (simp add: pp del: One_nat_def)
  qed
qed

lemma extents_read_mem:
  assumes "extents_within data es"
  shows "extents_read (mem_read data) (extents_new es) = mem_read (ext_bytes data es)"
proof (intro ext)
  fix off n
  have w: "length data \<le> u64_max" "0 + ext_total es \<le> u64_max" "list_all (\<lambda>(off, len). off + len \<le> length data) es"
    using assms by (simp_all add: extents_within_def)
  have len: "ext_len (extents_new es) = ext_total es" and runs: "ext_runs (extents_new es) = fst (extents_loop 0 es)"
    using extents_loop_total [OF w(2)] by (simp_all add: extents_new_def case_prod_beta)
  note lb = length_ext_bytes [OF w(3)]
  show "extents_read (mem_read data) (extents_new es) off n = mem_read (ext_bytes data es) off n"
  proof (cases "off > ext_total es \<or> n > ext_total es - off \<or> n = 0")
    case True
    then show ?thesis by (auto simp: extents_read_def mem_read_def len lb)
  next
    case False
    then have b: "off + n \<le> ext_total es" "0 < n" by linarith+
    note fill = ext_fill_mid [OF w, of off n]
    have target: "mem_read (ext_bytes data es) off n = Inr (take n (drop off (ext_bytes data es)))"
      using b by (simp add: mem_read_ok lb) (simp add: slice_def)
    show ?thesis
    proof (cases "length (fst (extents_loop 0 es)) = 1")
      case True
      then obtain start phys len where r: "fst (extents_loop 0 es) = [(start, phys, len)]"
        by (cases "fst (extents_loop 0 es)") auto
      have z: "start = 0" using extents_loop_first [OF w(2) r] by simp
      have "ext_fill (mem_read data) [(start, phys, len)] off n = mem_read (ext_bytes data es) off n"
        using fill b by (simp add: r target partition_point_def)
      then have "mem_read data (wrap_add phys off) n = mem_read (ext_bytes data es) off n"
        using b by (auto simp: z target Let_def bind_res_Inr_iff min_def split: if_splits)
      then show ?thesis
        using True False b by (simp add: extents_read_def len runs r)
    next
      case many: False
      then show ?thesis using fill b False by (auto simp: extents_read_def len runs target)
    qed
  qed
qed

section \<open>Declaring a window\<close>

lemma physical_loop_bytes:
  assumes "length data \<le> u64_max" and "off \<le> end"
  shows "logical + ext_total es \<le> u64_max \<Longrightarrow> list_all (\<lambda>(off, len). off + len \<le> length data) es \<Longrightarrow>
    ext_bytes data (physical_loop off end logical es)
      = take (end - max off logical) (drop (off - logical) (ext_bytes data es)) \<and>
    list_all (\<lambda>(p, l). p + l \<le> length data) (physical_loop off end logical es)"
proof (induction es arbitrary: logical)
  case Nil
  then show ?case by (simp add: ext_bytes_def)
next
  case (Cons e es)
  obtain phys len where e: "e = (phys, len)" by (cases e)
  let ?S = "slice data phys (phys + len)" and ?E = "ext_bytes data es"
  have o: "phys + len \<le> length data" and t: "logical + len + ext_total es \<le> u64_max"
    using Cons.prems by (simp_all add: e)
  have re: "sat_add logical len = logical + len" using t by (simp add: sat_add_def)
  have S: "length ?S = len" using o by simp
  have IH: "ext_bytes data (physical_loop off end (logical + len) es)
      = take (end - max off (logical + len)) (drop (off - (logical + len)) ?E)"
    and IH2: "list_all (\<lambda>(p, l). p + l \<le> length data) (physical_loop off end (logical + len) es)"
    using Cons.IH [OF t] Cons.prems(2) by (simp_all add: e)
  let ?rest = "physical_loop off end (logical + len) es"
  have dec: "take (end - max off logical) (drop (off - logical) (ext_bytes data (e # es)))
      = take (end - max off logical) (drop (off - logical) ?S)
        @ take (end - max off logical - (len - (off - logical))) (drop (off - logical - len) ?E)"
    by (simp add: e S)
  have off': "off - logical - len = off - (logical + len)" by simp
  show ?case
  proof (cases "len > 0 \<and> logical + len > off \<and> logical < end")
    case True
    let ?from = "max off logical" and ?to = "min end (logical + len)"
    have w: "wrap_add phys (?from - logical) = phys + (off - logical)"
      using True o assms(1) by (subst wrap_add_fits) auto
    have k: "?to - ?from = min (end - ?from) (len - (off - logical))" using True assms(2) by auto
    have "slice data (phys + (off - logical)) (phys + (off - logical) + (?to - ?from))
        = take (end - ?from) (drop (off - logical) ?S)"
      unfolding k by (simp add: slice_def drop_take add.commute)
    moreover have "end - ?from - (len - (off - logical)) = end - max off (logical + len)"
      using True by auto
    moreover have "phys + (off - logical) + (?to - ?from) \<le> length data"
      using True o assms(2) by auto
    ultimately show ?thesis
      using True IH IH2 unfolding dec off' by (simp add: e re Let_def w)
  next
    case False
    have pl: "physical_loop off end logical (e # es) = ?rest" using False by (auto simp: e re Let_def)
    have "take (end - max off logical) (drop (off - logical) ?S) = []"
      using False assms(2) S by auto
    moreover have "take (end - max off logical - (len - (off - logical))) (drop (off - (logical + len)) ?E)
        = take (end - max off (logical + len)) (drop (off - (logical + len)) ?E)"
    proof (cases "logical < end")
      case True
      then have "end - max off logical - (len - (off - logical)) = end - max off (logical + len)"
        using False by auto
      then show ?thesis by simp
    qed (use assms(2) in simp)
    ultimately show ?thesis
      using IH IH2 unfolding dec off' pl by simp
  qed
qed

section \<open>Properties\<close>

text \<open>C39. A member scattered over extents reads as one contiguous file: for every offset and length,
  including zero-length reads, reads that cross runs and reads past the end, the stitched reader
  returns exactly what a plain file holding the concatenated extents would return.\<close>

theorem extents_read_as_one_file:
  assumes "extents_within data es"
  shows "extents_read (mem_read data) (extents_new es) off n = mem_read (ext_bytes data es) off n"
  using extents_read_mem [OF assms] by (rule fun_cong [THEN fun_cong])

theorem extents_read_as_one_file_witness:
  "extents_read (mem_read [0, 1, 2, 3, 4, 5, 6, 7]) (extents_new [(1, 2), (7, 0), (5, 3)]) 1 3 = Inr [2, 5, 6]"
proof -
  have "extents_within [0, 1, 2, 3, 4, 5, 6, 7] [(1, 2), (7, 0), (5, 3)]"
    by (simp add: extents_within_def ext_total_def u64_max_def)
  from extents_read_as_one_file [OF this, of 1 3] show ?thesis
    by (simp add: mem_read_def ext_bytes_def slice_def eval_nat_numeral)
qed

text \<open>C40. The ranges a verifier declares for a logical window are the bytes it will read: read in order,
  they are the window's bytes, clamped to the member, and each is a range inside the file.\<close>

theorem declared_ranges_are_the_window:
  assumes "extents_within data es"
  shows "ext_bytes data (physical_ranges es off len) = take len (drop off (ext_bytes data es)) \<and>
    list_all (\<lambda>(p, l). p + l \<le> length data) (physical_ranges es off len)"
proof -
  have w: "length data \<le> u64_max" "0 + ext_total es \<le> u64_max" "list_all (\<lambda>(off, len). off + len \<le> length data) es"
    using assms by (simp_all add: extents_within_def)
  have L: "length (ext_bytes data es) \<le> u64_max" using length_ext_bytes [OF w(3)] w(2) by simp
  show ?thesis
  proof (cases "off \<le> u64_max")
    case True
    then have "off \<le> sat_add off len" by (simp add: sat_add_def)
    note p = physical_loop_bytes [OF w(1) this w(2,3)]
    have "take (sat_add off len - off) (drop off (ext_bytes data es)) = take len (drop off (ext_bytes data es))"
      using L by (cases "off + len \<le> u64_max") (simp_all add: sat_add_def min_def)
    then show ?thesis using p by (simp add: physical_ranges_def)
  next
    case False
    have "physical_loop off (sat_add off len) k es = []" for k
      using False by (induction es arbitrary: k) (auto simp: sat_add_def Let_def)
    then show ?thesis using L False by (simp add: physical_ranges_def ext_bytes_def)
  qed
qed

theorem declared_ranges_are_the_window_witness:
  "physical_ranges [(1, 2), (7, 0), (5, 3)] 1 3 = [(2, 1), (5, 2)] \<and>
   ext_bytes [0, 1, 2, 3, 4, 5, 6, 7] (physical_ranges [(1, 2), (7, 0), (5, 3)] 1 3) = [2, 5, 6]"
proof -
  have "extents_within [0, 1, 2, 3, 4, 5, 6, 7] [(1, 2), (7, 0), (5, 3)]"
    by (simp add: extents_within_def ext_total_def u64_max_def)
  from declared_ranges_are_the_window [OF this, of 1 3]
  have "ext_bytes [0, 1, 2, 3, 4, 5, 6, 7] (physical_ranges [(1, 2), (7, 0), (5, 3)] 1 3) = [2, 5, 6]"
    by (simp add: ext_bytes_def slice_def eval_nat_numeral)
  moreover have "physical_ranges [(1, 2), (7, 0), (5, 3)] 1 3 = [(2, 1), (5, 2)]"
    by (simp add: physical_ranges_def sat_add_def wrap_add_def u64_max_def Let_def)
  ultimately show ?thesis by simp
qed

end
