(* ===== verification/Varint.thy ===== *)
theory Varint
  imports Limits
begin

text \<open>
  Variable-length integers (\<open>put_varint\<close> and \<open>get_varint\<close> of
  \<open>src/src/part/idcol.rs\<close>): seven payload bits per byte, least significant first, the high
  bit set on every byte but the last. Every count and length of the part, WAL and container
  formats is written this way. The reader admits exactly one encoding of each 64-bit value.
\<close>

function put_varint :: "u64 \<Rightarrow> bytes" where
  "put_varint v =
    (if 0x80 \<le> v then (ucast v OR 0x80) # put_varint (drop_bit 7 v) else [ucast v])"
  by pat_completeness auto

lemma unat_drop_bit7: "unat (drop_bit 7 (v :: u64)) = unat v div 128"
  by (simp only: unat_drop_bit_eq drop_bit_eq_div) (simp add: unat_div)

termination put_varint
proof (relation "measure unat")
  fix v :: u64
  assume "0x80 \<le> v"
  then have "128 \<le> unat v" by (simp add: word_le_nat_alt)
  then show "(drop_bit 7 v, v) \<in> measure unat" by (simp add: unat_drop_bit7)
qed simp

declare put_varint.simps [simp del]

text \<open>One pass of the reader's loop; the index runs over \<open>0..10\<close>.\<close>

function get_varint_loop :: "bytes \<Rightarrow> nat \<Rightarrow> nat \<Rightarrow> u64 \<Rightarrow> (u64 \<times> nat) outcome" where
  "get_varint_loop b at index v =
    (if index \<ge> 10 then Inl (Bail ''varint overflow'')
     else bind_res (ok_or (Bail ''varint truncated'') (get_at b at)) (\<lambda>byte.
       if index = 9 \<and> byte AND 0xfe \<noteq> 0 then Inl (Bail ''varint overflow'')
       else let payload = byte AND 0x7f;
                v' = v OR push_bit (index * 7) (ucast payload)
            in if byte AND 0x80 = 0 then
                 (if index > 0 \<and> payload = 0 then Inl (Bail ''varint is not minimally encoded'')
                  else Inr (v', at + 1))
               else get_varint_loop b (at + 1) (index + 1) v'))"
  by pat_completeness auto

termination get_varint_loop
  by (relation "measure (\<lambda>(b, at, index, v). 10 - index)") auto

declare get_varint_loop.simps [simp del]

definition get_varint :: "bytes \<Rightarrow> nat \<Rightarrow> (u64 \<times> nat) outcome" where
  "get_varint b at = get_varint_loop b at 0 0"

section \<open>Bits of one group\<close>

lemma bit_0x7f: "bit (0x7f :: 'a::len word) n \<longleftrightarrow> n < 7 \<and> n < LENGTH('a)"
proof -
  have e: "(0x7f :: 'a word) = mask 7" by (simp add: mask_eq_exp_minus_1)
  show ?thesis by (subst e) (auto simp only: bit_mask_iff possible_bit_word)
qed

lemma bit_0x80: "bit (0x80 :: 'a::len word) n \<longleftrightarrow> n = 7 \<and> n < LENGTH('a)"
proof -
  have e: "(0x80 :: 'a word) = 2 ^ 7" by simp
  show ?thesis by (subst e) (auto simp only: bit_exp_iff possible_bit_word)
qed

lemma bit_0xfe: "bit (0xfe :: 'a::len word) n \<longleftrightarrow> 0 < n \<and> n < 8 \<and> n < LENGTH('a)"
proof -
  have e: "(0xfe :: 'a word) = push_bit 1 (mask 7)"
    by (simp add: mask_eq_exp_minus_1 push_bit_eq_mult)
  show ?thesis
    by (subst e) (auto simp only: bit_push_bit_iff bit_mask_iff possible_bit_word)
qed

lemma bit_int_0x7f: "bit (0x7f :: int) n \<longleftrightarrow> n < 7"
proof -
  have e: "(0x7f :: int) = mask 7" by (simp add: mask_eq_exp_minus_1)
  show ?thesis by (subst e) (simp only: bit_mask_iff possible_bit_int simp_thms)
qed

lemma bit_int_0x80: "bit (0x80 :: int) n \<longleftrightarrow> n = 7"
proof -
  have e: "(0x80 :: int) = 2 ^ 7" by simp
  show ?thesis by (subst e) (auto simp only: bit_exp_iff possible_bit_int simp_thms)
qed

lemma bit_int_0xfe: "bit (0xfe :: int) n \<longleftrightarrow> 0 < n \<and> n < 8"
proof -
  have e: "(0xfe :: int) = push_bit 1 (mask 7)"
    by (simp add: mask_eq_exp_minus_1 push_bit_eq_mult)
  show ?thesis
    by (subst e) (auto simp only: bit_push_bit_iff bit_mask_iff possible_bit_int simp_thms)
qed

lemmas group_bits = bit_0x7f bit_0x80 bit_0xfe bit_int_0x7f bit_int_0x80 bit_int_0xfe
  bit_and_iff bit_or_iff bit_unsigned_iff

lemma u64_bit_le: "bit (v :: u64) n \<Longrightarrow> n < 64"
  by (auto dest: bit_imp_le_length)

lemma u64_ge_nonzero: "0x80 \<le> (w :: u64) \<Longrightarrow> w \<noteq> 0"
  by (auto simp: word_le_nat_alt)

lemma u64_less_bits:
  "n \<le> 64 \<Longrightarrow> unat (v :: u64) < 2 ^ n \<longleftrightarrow> (\<forall>i. bit v i \<longrightarrow> i < n)"
proof -
  assume n: "n \<le> 64"
  have "unat v < 2 ^ n \<longleftrightarrow> take_bit n (unat v) = unat v"
    by (simp add: take_bit_nat_eq_self_iff)
  also have "\<dots> \<longleftrightarrow> take_bit n v = v"
    by (metis unsigned_take_bit_eq word_unat_eq_iff)
  also have "\<dots> \<longleftrightarrow> (\<forall>i. bit v i \<longrightarrow> i < n)"
    by (auto simp: bit_eq_iff bit_take_bit_iff dest: u64_bit_le)
  finally show ?thesis .
qed

lemma group_last:
  assumes "v < (0x80 :: u64)"
  shows "(ucast v :: byte) AND 0x7f = ucast v" and "(ucast v :: byte) AND 0x80 = 0"
    and "ucast (ucast v :: byte) = v"
proof -
  have "unat v < 2 ^ 7" using assms by (simp add: word_less_nat_alt)
  then have b: "bit v i \<Longrightarrow> i < 7" for i using u64_less_bits [of 7 v] by auto
  show "(ucast v :: byte) AND 0x7f = ucast v"
    by (rule bit_word_eqI) (auto simp: group_bits dest: b)
  show "(ucast v :: byte) AND 0x80 = 0"
    by (rule bit_word_eqI) (auto simp: group_bits dest: b)
  show "ucast (ucast v :: byte) = v"
    by (rule bit_word_eqI) (auto simp: group_bits dest: b)
qed

lemma group_more:
  fixes v :: u64
  shows "((ucast v :: byte) OR 0x80) AND 0x80 \<noteq> 0"
    and "ucast (((ucast v :: byte) OR 0x80) AND 0x7f) = take_bit 7 v"
proof -
  have "bit (((ucast v :: byte) OR 0x80) AND 0x80) 7" by (simp add: group_bits)
  then show "((ucast v :: byte) OR 0x80) AND 0x80 \<noteq> 0" by auto
  show "ucast (((ucast v :: byte) OR 0x80) AND 0x7f) = take_bit 7 v"
    by (rule bit_word_eqI) (auto simp: group_bits bit_take_bit_iff)
qed

lemma split_group: "(a OR push_bit k (take_bit 7 v)) OR push_bit (k + 7) (drop_bit 7 v) = a OR push_bit k v"
  for v :: u64
proof (rule bit_word_eqI)
  fix n
  have "n - k < 7 \<or> n - (k + 7) + 7 = n - k" by arith
  then show "bit ((a OR push_bit k (take_bit 7 v)) OR push_bit (k + 7) (drop_bit 7 v)) n
      = bit (a OR push_bit k v) n"
    by (auto simp: group_bits bit_push_bit_iff bit_take_bit_iff bit_drop_bit_eq add.commute [of 7])
qed

lemma last_fits: "unat (v :: u64) < 2 ^ (64 - 7 * 9) \<Longrightarrow> (ucast v :: byte) AND 0xfe = 0"
proof -
  assume "unat v < 2 ^ (64 - 7 * 9)"
  then have b: "bit v i \<Longrightarrow> i < 1" for i using u64_less_bits [of 1 v] by auto
  show ?thesis by (rule bit_word_eqI) (auto simp: group_bits dest: b)
qed


section \<open>Reading back what was written\<close>

lemma get_varint_loop_last:
  assumes "get_at b at = Some byte" "i \<le> 9" "i = 9 \<Longrightarrow> byte AND 0xfe = 0"
    and "byte AND 0x80 = 0" "0 < i \<Longrightarrow> byte AND 0x7f \<noteq> 0"
  shows "get_varint_loop b at i acc = Inr (acc OR push_bit (i * 7) (ucast (byte AND 0x7f)), at + 1)"
  using assms by (subst get_varint_loop.simps) (auto simp: Let_def)

lemma get_varint_loop_more:
  assumes "get_at b at = Some byte" "i \<le> 8" "byte AND 0x80 \<noteq> 0"
  shows "get_varint_loop b at i acc =
    get_varint_loop b (at + 1) (i + 1) (acc OR push_bit (i * 7) (ucast (byte AND 0x7f)))"
  using assms by (subst get_varint_loop.simps) (auto simp: Let_def)

lemma get_varint_loop_put:
  "unat v < 2 ^ (64 - 7 * i) \<Longrightarrow> i \<le> 9 \<Longrightarrow> 0 < i \<longrightarrow> v \<noteq> 0 \<Longrightarrow>
   get_varint_loop (pre @ put_varint v @ post) (length pre) i acc =
     Inr (acc OR push_bit (i * 7) v, length pre + length (put_varint v))"
proof (induction v arbitrary: pre i acc rule: put_varint.induct)
  case (1 v)
  show ?case
  proof (cases "0x80 \<le> v")
    case False
    then have small: "v < 0x80" by simp
    note last = group_last [OF small]
    have put: "put_varint v = [ucast v]" using False by (simp add: put_varint.simps)
    have n9: "(ucast v :: byte) AND 0xfe = 0" if "i = 9"
      by (rule last_fits) (use "1.prems"(1) that in simp)
    have n0: "(ucast v :: byte) AND 0x7f \<noteq> 0" if "0 < i"
      unfolding last(1) using "1.prems"(3) that last(3) by (metis unsigned_0)
    have g: "get_at (pre @ put_varint v @ post) (length pre) = Some (ucast v)"
      by (simp only: put append_Cons append_Nil get_at_append)
    note get_varint_loop_last [OF g "1.prems"(2) n9 last(2) n0, of acc]
    then show ?thesis unfolding last(1,3) put by simp
  next
    case True
    let ?v' = "drop_bit 7 v" and ?byte = "ucast v OR 0x80 :: byte"
    let ?pre = "pre @ [?byte]" and ?acc = "acc OR push_bit (i * 7) (take_bit 7 v)"
    have put: "put_varint v = ?byte # put_varint ?v'" using True by (simp add: put_varint.simps)
    have v128: "128 \<le> unat v" using True by (simp add: word_le_nat_alt)
    have i8: "i \<le> 8"
    proof (rule ccontr)
      assume "\<not> i \<le> 8"
      then have "i = 9" using "1.prems"(2) by simp
      then show False using "1.prems"(1) v128 by simp
    qed
    have "(2 :: nat) ^ (64 - 7 * i) = 2 ^ (7 + (64 - 7 * (i + 1)))"
      using i8 by (intro arg_cong [where f = "(^) 2"]) simp
    also have "\<dots> = 2 ^ (64 - 7 * (i + 1)) * 128" by (subst power_add) simp
    finally have e: "2 ^ (64 - 7 * i) = 2 ^ (64 - 7 * (i + 1)) * (128 :: nat)" .
    have fits: "unat ?v' < 2 ^ (64 - 7 * (i + 1))"
      unfolding unat_drop_bit7
      by (rule less_mult_imp_div_less) (use "1.prems"(1) e in \<open>simp only:\<close>)
    have "unat ?v' \<noteq> 0" using v128 unfolding unat_drop_bit7 by simp
    then have nz: "?v' \<noteq> 0" by (metis unat_0)
    have g: "get_at (pre @ put_varint v @ post) (length pre) = Some ?byte"
      by (simp only: put append_Cons get_at_append)
    have "get_varint_loop (pre @ put_varint v @ post) (length pre) i acc =
        get_varint_loop (pre @ put_varint v @ post) (length pre + 1) (i + 1)
          (acc OR push_bit (i * 7) (ucast (?byte AND 0x7f)))"
      by (rule get_varint_loop_more [OF g i8 group_more(1)])
    also have "\<dots> = get_varint_loop (?pre @ put_varint ?v' @ post) (length ?pre) (i + 1) ?acc"
      unfolding group_more(2) put by simp
    also have "\<dots> = Inr (?acc OR push_bit ((i + 1) * 7) ?v', length ?pre + length (put_varint ?v'))"
      by (rule "1.IH") (use True fits nz i8 in simp_all)
    also have "?acc OR push_bit ((i + 1) * 7) ?v' = acc OR push_bit (i * 7) v"
      using split_group [of acc "i * 7" v] by (simp add: algebra_simps)
    finally show ?thesis by (simp add: put)
  qed
qed

lemma get_put_varint:
  "get_varint (pre @ put_varint v @ post) (length pre) = Inr (v, length pre + length (put_varint v))"
  using get_varint_loop_put [of v 0 pre post 0] unat_less [of v] by (simp add: get_varint_def)


section \<open>Only one encoding is read\<close>

lemma group_byte:
  fixes byte :: byte
  assumes "byte AND 0x80 = 0"
  shows "byte AND 0x7f = byte" and "ucast byte < (0x80 :: u64)" and "ucast (ucast byte :: u64) = byte"
proof -
  have "bit (byte AND 0x80) 7 \<longleftrightarrow> bit byte 7" by (simp add: group_bits)
  then have "\<not> bit byte 7" using assms by simp
  then have b: "bit byte i \<Longrightarrow> i < 7" for i
    using bit_imp_le_length [of byte i] by (cases "i = 7") auto
  show "byte AND 0x7f = byte" by (rule bit_word_eqI) (auto simp: group_bits dest: b)
  have "unat (ucast byte :: u64) < 2 ^ 7"
    by (subst u64_less_bits) (auto simp: group_bits dest: b)
  then show "ucast byte < (0x80 :: u64)" by (simp add: word_less_nat_alt)
  show "ucast (ucast byte :: u64) = byte" by (rule bit_word_eqI) (auto simp: group_bits)
qed

lemma group_join:
  fixes byte :: byte and v :: u64
  assumes "byte AND 0x80 \<noteq> 0" and "unat v < 2 ^ 57"
  defines "w \<equiv> ucast (byte AND 0x7f) OR push_bit 7 v"
  shows "ucast w OR 0x80 = byte" and "drop_bit 7 w = v" and "v \<noteq> 0 \<Longrightarrow> 0x80 \<le> w"
    and "unat v < 2 ^ n \<Longrightarrow> n \<le> 57 \<Longrightarrow> unat w < 2 ^ (n + 7)"
    and "(acc OR push_bit k (ucast (byte AND 0x7f))) OR push_bit (k + 7) v = acc OR push_bit k w"
proof -
  have b7: "bit byte 7"
  proof (rule ccontr)
    assume n: "\<not> bit byte 7"
    have "byte AND 0x80 = 0" by (rule bit_word_eqI) (use n in \<open>auto simp: group_bits\<close>)
    with assms(1) show False by simp
  qed
  have v57: "bit v i \<Longrightarrow> i < 57" for i using assms(2) u64_less_bits [of 57 v] by simp
  have byte7: "bit byte i \<Longrightarrow> i < 8" for i by (auto dest: bit_imp_le_length)
  have bw: "bit w i \<longleftrightarrow> (i < 7 \<and> bit byte i) \<or> (7 \<le> i \<and> bit v (i - 7))" for i
    using v57 [of "i - 7"] byte7 [of i]
    by (auto simp: w_def group_bits bit_push_bit_iff)
  show "ucast w OR 0x80 = byte"
  proof (rule bit_word_eqI)
    fix i :: nat
    assume "i < LENGTH(8)"
    then have "i < 7 \<or> i = 7" by auto
    then show "bit (ucast w OR 0x80 :: byte) i = bit byte i"
      using b7 by (auto simp: bw group_bits)
  qed
  show dw: "drop_bit 7 w = v"
    by (rule bit_word_eqI) (simp add: bit_drop_bit_eq bw)
  show "0x80 \<le> w" if "v \<noteq> 0"
  proof (rule ccontr)
    assume "\<not> 0x80 \<le> w"
    then have "unat w < 128" by (simp add: word_le_nat_alt)
    then have "unat v = 0" by (simp add: unat_drop_bit7 flip: dw)
    with that show False by (metis unsigned_eq_0_iff)
  qed
  show "unat w < 2 ^ (n + 7)" if "unat v < 2 ^ n" "n \<le> 57"
  proof -
    have "bit v i \<Longrightarrow> i < n" for i using that u64_less_bits [of n v] by simp
    then have "bit w i \<Longrightarrow> i < n + 7" for i by (fastforce simp: bw less_diff_conv2)
    then show ?thesis using that u64_less_bits [of "n + 7" w] by simp
  qed
  have e: "bit (ucast (byte AND 0x7f) :: u64) i \<longleftrightarrow> i < 7 \<and> bit byte i" for i
    using byte7 [of i] by (auto simp: group_bits)
  show "(acc OR push_bit k (ucast (byte AND 0x7f))) OR push_bit (k + 7) v = acc OR push_bit k w"
  proof (rule bit_word_eqI)
    fix i :: nat
    assume "i < LENGTH(64)"
    have "i - (k + 7) = i - k - 7" by simp
    then show "bit ((acc OR push_bit k (ucast (byte AND 0x7f))) OR push_bit (k + 7) v) i =
        bit (acc OR push_bit k w) i"
      by (auto simp: bit_or_iff bit_push_bit_iff e bw)
  qed
qed

lemma get_varint_loop_cases:
  assumes "get_varint_loop b at i acc = Inr (r, at')"
  obtains (last) byte where "i \<le> 9" "get_at b at = Some byte" "i = 9 \<Longrightarrow> byte AND 0xfe = 0"
      "byte AND 0x80 = 0" "0 < i \<Longrightarrow> byte AND 0x7f \<noteq> 0"
      "r = acc OR push_bit (i * 7) (ucast (byte AND 0x7f))" "at' = at + 1"
    | (more) byte where "i \<le> 9" "get_at b at = Some byte" "i = 9 \<Longrightarrow> byte AND 0xfe = 0"
      "byte AND 0x80 \<noteq> 0"
      "get_varint_loop b (at + 1) (i + 1) (acc OR push_bit (i * 7) (ucast (byte AND 0x7f))) = Inr (r, at')"
proof -
  from assms have i: "\<not> i \<ge> 10" by (subst (asm) get_varint_loop.simps) (auto split: if_splits)
  with assms obtain byte where get: "get_at b at = Some byte"
    by (subst (asm) get_varint_loop.simps) (auto simp: bind_res_Inr_iff)
  note step = assms [unfolded get_varint_loop.simps [of b at i acc], simplified i get Let_def
      if_False ok_or.simps bind_res.simps]
  from step have n9: "i = 9 \<Longrightarrow> byte AND 0xfe = 0" by (auto split: if_splits)
  show thesis
  proof (cases "byte AND 0x80 = 0")
    case True
    show thesis
      by (rule last [OF _ get]) (use step True n9 i in \<open>auto split: if_splits\<close>)
  next
    case False
    show thesis
      by (rule more [OF _ get]) (use step False n9 i in \<open>auto split: if_splits\<close>)
  qed
qed

lemma get_varint_loop_exact:
  "get_varint_loop b at i acc = Inr (r, at') \<Longrightarrow>
   \<exists>v. unat v < 2 ^ (64 - 7 * i) \<and> (0 < i \<longrightarrow> v \<noteq> 0) \<and> r = acc OR push_bit (i * 7) v \<and>
       drop at b = put_varint v @ drop at' b \<and> at' = at + length (put_varint v)"
proof (induction b at i acc rule: get_varint_loop.induct)
  case (1 b at i acc)
  from "1.prems" show ?case
  proof (cases rule: get_varint_loop_cases)
    case (last byte)
    let ?v = "ucast byte :: u64"
    note gb = group_byte [OF last(4)]
    have "\<not> 0x80 \<le> ?v" using gb(2) by simp
    then have put: "put_varint ?v = [byte]" using gb(3) by (subst put_varint.simps) simp
    have d: "drop at b = byte # drop (at + 1) b"
      using last(2) by (simp add: get_at_Some_iff Cons_nth_drop_Suc)
    have "unat ?v < 2 ^ (64 - 7 * i)"
    proof (cases "i = 9")
      case True
      have "\<not> bit byte j" if "0 < j" for j
      proof -
        have "bit (byte AND 0xfe) j \<longleftrightarrow> bit byte j"
          using that bit_imp_le_length [of byte j] by (auto simp: group_bits)
        with last(3) [OF True] show ?thesis by simp
      qed
      then have "bit ?v j \<Longrightarrow> j < 1" for j by (cases "j = 0") (auto simp: group_bits)
      with True show ?thesis using u64_less_bits [of 1 ?v] by simp
    next
      case False
      have "unat ?v < 2 ^ 7" using gb(2) by (simp add: word_less_nat_alt)
      also have "(2::nat) ^ 7 \<le> 2 ^ (64 - 7 * i)" using False last(1) by (intro power_increasing) auto
      finally show ?thesis .
    qed
    moreover have "0 < i \<longrightarrow> ?v \<noteq> 0"
      using last(5) gb(1,3) by (metis unsigned_0)
    ultimately show ?thesis
      using last(6,7) d put gb(1) by (intro exI [of _ ?v]) simp
  next
    case (more byte)
    have i8: "i \<le> 8"
    proof (rule ccontr)
      assume "\<not> i \<le> 8"
      then have "byte AND 0xfe = 0" using more(1,3) by simp
      moreover have "bit byte 7"
      proof (rule ccontr)
        assume n: "\<not> bit byte 7"
        have "byte AND 0x80 = 0" by (rule bit_word_eqI) (use n in \<open>auto simp: group_bits\<close>)
        with more(4) show False by simp
      qed
      moreover have "bit (byte AND 0xfe) 7 \<longleftrightarrow> bit byte 7" by (simp add: group_bits)
      ultimately show False by simp
    qed
    have "\<exists>v. unat v < 2 ^ (64 - 7 * (i + 1)) \<and> (0 < i + 1 \<longrightarrow> v \<noteq> 0) \<and>
        r = (acc OR push_bit (i * 7) (ucast (byte AND 0x7f))) OR push_bit ((i + 1) * 7) v \<and>
        drop (at + 1) b = put_varint v @ drop at' b \<and> at' = (at + 1) + length (put_varint v)"
      by (rule "1.IH" [of byte "byte AND 0x7f"]) (use more i8 in simp_all)
    then obtain v where v: "unat v < 2 ^ (64 - 7 * (i + 1))" "v \<noteq> 0"
        "r = (acc OR push_bit (i * 7) (ucast (byte AND 0x7f))) OR push_bit ((i + 1) * 7) v"
        "drop (at + 1) b = put_varint v @ drop at' b" "at' = (at + 1) + length (put_varint v)"
      by auto
    have v57: "unat v < 2 ^ 57"
      by (rule order.strict_trans2 [OF v(1)]) (intro power_increasing, auto)
    let ?w = "ucast (byte AND 0x7f) OR push_bit 7 v :: u64"
    note gj = group_join [OF more(4) v57]
    have put: "put_varint ?w = byte # put_varint v"
      using gj(1,2) gj(3) [OF v(2)] by (subst put_varint.simps) simp
    have d: "drop at b = byte # drop (at + 1) b"
      using more(2) by (simp add: get_at_Some_iff Cons_nth_drop_Suc)
    have "64 - 7 * (i + 1) + 7 = 64 - 7 * i" using i8 by simp
    then have "unat ?w < 2 ^ (64 - 7 * i)" using gj(4) [OF v(1)] by simp
    moreover have "?w \<noteq> 0" using gj(3) [OF v(2)] by (rule u64_ge_nonzero)
    moreover have "r = acc OR push_bit (i * 7) ?w"
      using v(3) gj(5) [of acc "i * 7"] by (simp add: algebra_simps)
    ultimately show ?thesis using put d v(4,5) by (intro exI [of _ ?w]) simp
  qed
qed

lemma get_varint_exact:
  "get_varint b at = Inr (v, at') \<Longrightarrow>
     drop at b = put_varint v @ drop at' b \<and> at' = at + length (put_varint v)"
  using get_varint_loop_exact [of b at 0 0 v at'] by (auto simp: get_varint_def)

text \<open>The one-byte case, which evaluation on concrete values uses.\<close>

lemma put_varint_byte: "v < 0x80 \<Longrightarrow> put_varint v = [ucast v]"
  by (subst put_varint.simps) (simp add: not_le [symmetric])

section \<open>How long an encoding is\<close>

lemma length_put_varint_iff: "0 < n \<Longrightarrow> length (put_varint v) \<le> n \<longleftrightarrow> unat v < 128 ^ n"
proof (induction v arbitrary: n rule: put_varint.induct)
  case (1 v)
  obtain m where n: "n = Suc m" using 1(2) by (cases n) auto
  show ?case
  proof (cases "0x80 \<le> v")
    case True
    then have big: "128 \<le> unat v" by (simp add: word_le_nat_alt)
    have e: "length (put_varint v) = Suc (length (put_varint (drop_bit 7 v)))"
      using True by (subst put_varint.simps) simp
    show ?thesis
    proof (cases "m = 0")
      case True
      have "put_varint (drop_bit 7 v) \<noteq> []" by (subst put_varint.simps) simp
      then show ?thesis using e n big True by simp
    next
      case False
      have "unat v div 128 < 128 ^ m \<longleftrightarrow> unat v < 128 ^ m * 128" by (rule div_less_iff_less_mult) simp
      then show ?thesis using 1(1) [OF True, of m] False e n by (simp add: unat_drop_bit7 mult.commute)
    qed
  next
    case False
    then have small: "unat v < 128" by (simp add: word_le_nat_alt)
    have "length (put_varint v) = 1" using False by (subst put_varint.simps) simp
    moreover have "unat v < 128 ^ n" by (rule less_le_trans [OF small]) (simp add: n)
    ultimately show ?thesis using n by simp
  qed
qed

lemma length_put_varint_le: "length (put_varint v) \<le> 10"
proof -
  have "unat v < 2 ^ 64" using unat_less [of v] by simp
  also have "\<dots> \<le> 128 ^ 10" by simp
  finally show ?thesis by (simp add: length_put_varint_iff)
qed

section \<open>Properties\<close>

text \<open>C27. A varint has one spelling: reading at a position yields a value and a new position exactly
  when the canonical encoding of that value stands there and ends at that position. So every
  written value is read back wherever it stands, and overlong, truncated or oversized
  encodings are refused.\<close>

theorem varint_one_spelling:
  "get_varint b at = Inr (v, at') \<longleftrightarrow>
     at' = at + length (put_varint v) \<and> take (length (put_varint v)) (drop at b) = put_varint v"
proof
  assume "get_varint b at = Inr (v, at')"
  then show "at' = at + length (put_varint v) \<and> take (length (put_varint v)) (drop at b) = put_varint v"
    using get_varint_exact by simp
next
  assume r: "at' = at + length (put_varint v) \<and> take (length (put_varint v)) (drop at b) = put_varint v"
  then have d: "drop at b = put_varint v @ drop (length (put_varint v)) (drop at b)"
    by (metis append_take_drop_id)
  have "put_varint v \<noteq> []" by (subst put_varint.simps) simp
  then have "at \<le> length b" using r by (cases "at \<le> length b") auto
  then have "length (take at b) = at" by simp
  then show "get_varint b at = Inr (v, at')"
    using get_put_varint [of "take at b" v] r d by (metis append_take_drop_id)
qed

end
