(* ===== verification/Wire.thy ===== *)
theory Wire
  imports Varint
begin

text \<open>
  The contract of a field of a byte format: a writer \<open>put\<close> and a cursor-advancing reader
  \<open>get\<close>. The locale \<open>wire\<close> promises that the reader returns what was written wherever it
  stands in a longer string; \<open>exact_wire\<close> adds that the reader accepts nothing else, so that
  a value has one spelling. Counted sequences of fields inherit both laws, which is what the WAL
  record, the id column and the container directory are made of.
\<close>

section \<open>Moving a cursor\<close>

lemma cursor_advance:
  assumes "drop at b = xs @ rest" and "at \<le> length b"
  shows "drop (at + length xs) b = rest" and "at + length xs \<le> length b"
    and "slice b at (at + length xs) = xs" and "length b - at = length xs + length rest"
proof -
  have "drop (at + length xs) b = drop (length xs) (drop at b)" by (simp add: add.commute)
  then show d: "drop (at + length xs) b = rest" using assms by simp
  have "length (drop at b) = length xs + length rest" using assms by simp
  then show "at + length xs \<le> length b" "length b - at = length xs + length rest"
    using assms(2) by simp_all
  show "slice b at (at + length xs) = xs" using assms by (simp add: slice_def)
qed

lemma slice_cursor:
  "at \<le> at' \<Longrightarrow> at' \<le> length b \<Longrightarrow> drop at b = slice b at at' @ drop at' b"
  by (metis add_diff_cancel_left' append_take_drop_id drop_drop le_add_diff_inverse2 slice_def
      add.commute le_iff_add)

text \<open>\<open>get_n g n\<close> is the loop \<open>for _ in 0..n\<close> around the reader \<open>g\<close>.\<close>

fun get_n :: "(bytes \<Rightarrow> nat \<Rightarrow> ('a \<times> nat) outcome) \<Rightarrow> nat \<Rightarrow> bytes \<Rightarrow> nat \<Rightarrow> ('a list \<times> nat) outcome" where
  "get_n g 0 b at = Inr ([], at)"
| "get_n g (Suc n) b at =
     bind_res (g b at) (\<lambda>(x, at).
     bind_res (get_n g n b at) (\<lambda>(xs, at). Inr (x # xs, at)))"

lemma get_n_length: "get_n g n b at = Inr (xs, at') \<Longrightarrow> length xs = n"
  by (induction n arbitrary: at xs at') (auto simp: bind_res_Inr_iff split: prod.splits)

section \<open>Fields\<close>

locale wire =
  fixes put :: "'a \<Rightarrow> bytes"
    and get :: "bytes \<Rightarrow> nat \<Rightarrow> ('a \<times> nat) outcome"
    and ok :: "'a \<Rightarrow> bool"
  assumes get_put:
    "drop at b = put x @ rest \<Longrightarrow> at \<le> length b \<Longrightarrow> ok x \<Longrightarrow> get b at = Inr (x, at + length (put x))"
begin

lemma get_put_at:
  "ok x \<Longrightarrow> get (pre @ put x @ post) (length pre) = Inr (x, length pre + length (put x))"
  by (rule get_put [where rest = post]) simp_all

lemma get_n_put:
  "drop at b = concat (map put xs) @ rest \<Longrightarrow> at \<le> length b \<Longrightarrow> list_all ok xs \<Longrightarrow>
   get_n get (length xs) b at = Inr (xs, at + length (concat (map put xs)))"
proof (induction xs arbitrary: at)
  case Nil
  then show ?case by simp
next
  case (Cons x xs)
  have d: "drop at b = put x @ concat (map put xs) @ rest" using Cons.prems by simp
  have "get b at = Inr (x, at + length (put x))"
    by (rule get_put [OF d]) (use Cons.prems in simp_all)
  moreover have "get_n get (length xs) b (at + length (put x)) =
      Inr (xs, at + length (put x) + length (concat (map put xs)))"
    by (rule Cons.IH) (use cursor_advance [OF d] Cons.prems in simp_all)
  ultimately show ?case by simp
qed

lemma counted_put:
  assumes "drop at b = put_varint (word_of_nat (length xs)) @ concat (map put xs) @ rest"
    and "at \<le> length b" and "list_all ok xs" and "length xs \<le> u64_max"
  shows "bind_res (get_varint b at) (\<lambda>(n, at). get_n get (unat n) b at) =
    Inr (xs, at + length (put_varint (word_of_nat (length xs)) @ concat (map put xs)))"
proof -
  have b: "b = take at b @ put_varint (word_of_nat (length xs)) @ concat (map put xs) @ rest"
    using assms(1) by (metis append_take_drop_id)
  have "get_varint b at = Inr (word_of_nat (length xs), at + length (put_varint (word_of_nat (length xs))))"
    using get_put_varint [of "take at b" "word_of_nat (length xs)" "concat (map put xs) @ rest"] b assms(2)
    by simp
  moreover have "unat (word_of_nat (length xs) :: u64) = length xs"
    using assms(4) by (simp add: unat_of_nat u64_max_def)
  moreover note get_n_put [OF cursor_advance(1) [OF assms(1,2)] cursor_advance(2) [OF assms(1,2)] assms(3)]
  ultimately show ?thesis by simp
qed

end

locale exact_wire = wire +
  assumes get_exact:
    "get b at = Inr (x, at') \<Longrightarrow> at \<le> length b \<Longrightarrow>
       ok x \<and> drop at b = put x @ drop at' b \<and> at' = at + length (put x)"
begin

lemma get_advances: "get b at = Inr (x, at') \<Longrightarrow> at \<le> length b \<Longrightarrow> at \<le> at' \<and> at' \<le> length b"
  using get_exact [of b at x at'] cursor_advance(2) [of at b "put x" "drop at' b"] by auto

lemma get_n_exact:
  "get_n get n b at = Inr (xs, at') \<Longrightarrow> at \<le> length b \<Longrightarrow>
   list_all ok xs \<and> length xs = n \<and> drop at b = concat (map put xs) @ drop at' b \<and>
   at' = at + length (concat (map put xs)) \<and> at' \<le> length b"
proof (induction n arbitrary: at xs)
  case 0
  then show ?case by simp
next
  case (Suc n)
  then obtain x at1 ys where x: "get b at = Inr (x, at1)" and ys: "get_n get n b at1 = Inr (ys, at')"
    and xs: "xs = x # ys"
    by (auto simp: bind_res_Inr_iff split: prod.splits)
  note e = get_exact [OF x Suc.prems(2)]
  have "at1 \<le> length b" using get_advances [OF x Suc.prems(2)] by simp
  with Suc.IH [OF ys] e xs show ?case by simp
qed

text \<open>Read as the whole of a string, a field is its encoding.\<close>

lemma get_whole: "get b 0 = Inr (x, length b) \<longleftrightarrow> ok x \<and> b = put x"
proof
  assume "get b 0 = Inr (x, length b)"
  from get_exact [OF this] show "ok x \<and> b = put x" by simp
next
  assume "ok x \<and> b = put x"
  then show "get b 0 = Inr (x, length b)" using get_put [of 0 b x "[]"] by simp
qed

text \<open>A reader that accepts one spelling is injective on the consumed bytes.\<close>

lemma put_inject:
  assumes "put x = put y" and "ok x" and "ok y"
  shows "x = y"
  using get_put_at [OF assms(2), of "[]" "[]"] get_put_at [OF assms(3), of "[]" "[]"] assms(1) by simp

lemma counted_exact:
  assumes "bind_res (get_varint b at) (\<lambda>(n, at). get_n get (unat n) b at) = Inr (xs, at')"
    and "at \<le> length b"
  shows "list_all ok xs \<and> length xs \<le> u64_max \<and>
    drop at b = put_varint (word_of_nat (length xs)) @ concat (map put xs) @ drop at' b \<and>
    at' = at + length (put_varint (word_of_nat (length xs)) @ concat (map put xs)) \<and> at' \<le> length b"
proof -
  from assms(1) obtain n at1 where n: "get_varint b at = Inr (n, at1)"
    and xs: "get_n get (unat n) b at1 = Inr (xs, at')"
    by (auto simp: bind_res_Inr_iff split: prod.splits)
  from get_varint_exact [OF n] have d: "drop at b = put_varint n @ drop at1 b"
    and at1: "at1 = at + length (put_varint n)" by simp_all
  have "at1 \<le> length b" using cursor_advance(2) [OF d assms(2)] at1 by simp
  note e = get_n_exact [OF xs this]
  have len: "length xs = unat n" using e by simp
  then have "word_of_nat (length xs) = n" by simp
  moreover have "length xs \<le> u64_max" using len unat_u64_le_max by simp
  ultimately show ?thesis using e d at1 by simp
qed

end

interpretation varint: exact_wire put_varint get_varint "\<lambda>_. True"
proof unfold_locales
  fix at b x rest
  assume "drop at b = put_varint x @ rest" "at \<le> length b"
  then have "b = take at b @ put_varint x @ rest" and "length (take at b) = at"
    by (metis append_take_drop_id, simp add: min_absorb2)
  then show "get_varint b at = Inr (x, at + length (put_varint x))"
    using get_put_varint [of "take at b" x rest] by simp
next
  fix b at x at'
  assume "get_varint b at = Inr (x, at')"
  then show "True \<and> drop at b = put_varint x @ drop at' b \<and> at' = at + length (put_varint x)"
    using get_varint_exact by simp
qed

section \<open>Building fields from fields\<close>

text \<open>Two fields in a row, a checked conversion of a field, a count before its fields, a fixed number
  of bytes, and a tag that selects the rest.\<close>

definition get_pair ::
  "(bytes \<Rightarrow> nat \<Rightarrow> ('a \<times> nat) outcome) \<Rightarrow> (bytes \<Rightarrow> nat \<Rightarrow> ('b \<times> nat) outcome) \<Rightarrow> bytes \<Rightarrow> nat \<Rightarrow> (('a \<times> 'b) \<times> nat) outcome" where
  "get_pair g1 g2 b at =
     bind_res (g1 b at) (\<lambda>(x, at). bind_res (g2 b at) (\<lambda>(y, at). Inr ((x, y), at)))"

definition get_map ::
  "('a \<Rightarrow> 'b outcome) \<Rightarrow> (bytes \<Rightarrow> nat \<Rightarrow> ('a \<times> nat) outcome) \<Rightarrow> bytes \<Rightarrow> nat \<Rightarrow> ('b \<times> nat) outcome" where
  "get_map c g b at = bind_res (g b at) (\<lambda>(x, at). bind_res (c x) (\<lambda>y. Inr (y, at)))"

definition put_list :: "('a \<Rightarrow> bytes) \<Rightarrow> 'a list \<Rightarrow> bytes" where
  "put_list put xs = put_varint (word_of_nat (length xs)) @ concat (map put xs)"

definition get_list :: "(bytes \<Rightarrow> nat \<Rightarrow> ('a \<times> nat) outcome) \<Rightarrow> bytes \<Rightarrow> nat \<Rightarrow> ('a list \<times> nat) outcome" where
  "get_list g b at = bind_res (get_varint b at) (\<lambda>(n, at). get_n g (unat n) b at)"

definition get_fixed :: "failure \<Rightarrow> nat \<Rightarrow> bytes \<Rightarrow> nat \<Rightarrow> (bytes \<times> nat) outcome" where
  "get_fixed e n b at = (if n > length b - at then Inl e else Inr (slice b at (at + n), at + n))"

definition get_tagged ::
  "failure \<Rightarrow> (byte \<Rightarrow> bytes \<Rightarrow> nat \<Rightarrow> ('a \<times> nat) outcome) \<Rightarrow> bytes \<Rightarrow> nat \<Rightarrow> ('a \<times> nat) outcome" where
  "get_tagged e g b at = bind_res (ok_or e (get_at b at)) (\<lambda>t. g t b (at + 1))"

lemma exact_wire_pair:
  assumes "exact_wire p1 g1 ok1" and "exact_wire p2 g2 ok2"
  shows "exact_wire (\<lambda>(x, y). p1 x @ p2 y) (get_pair g1 g2) (\<lambda>(x, y). ok1 x \<and> ok2 y)"
proof unfold_locales
  fix at b z rest
  assume d: "drop at b = (case z of (x, y) \<Rightarrow> p1 x @ p2 y) @ rest" and at: "at \<le> length b"
    and ok: "case z of (x, y) \<Rightarrow> ok1 x \<and> ok2 y"
  obtain x y where z: "z = (x, y)" by (cases z)
  have d1: "drop at b = p1 x @ (p2 y @ rest)" using d z by simp
  note c = cursor_advance [OF d1 at]
  have "g1 b at = Inr (x, at + length (p1 x))"
    by (rule wire.get_put [OF exact_wire.axioms(1) [OF assms(1)] d1 at]) (use ok z in simp)
  moreover have "g2 b (at + length (p1 x)) = Inr (y, at + length (p1 x) + length (p2 y))"
    by (rule wire.get_put [OF exact_wire.axioms(1) [OF assms(2)] c(1,2)]) (use ok z in simp)
  ultimately show "get_pair g1 g2 b at = Inr (z, at + length (case z of (x, y) \<Rightarrow> p1 x @ p2 y))"
    by (simp add: get_pair_def z)
next
  fix b at z at'
  assume g: "get_pair g1 g2 b at = Inr (z, at')" and at: "at \<le> length b"
  then obtain x at1 y where x: "g1 b at = Inr (x, at1)" and y: "g2 b at1 = Inr (y, at')" and z: "z = (x, y)"
    by (auto simp: get_pair_def bind_res_Inr_iff split: prod.splits)
  note e1 = exact_wire.get_exact [OF assms(1) x at]
  have "at1 \<le> length b" using exact_wire.get_advances [OF assms(1) x at] by simp
  note e2 = exact_wire.get_exact [OF assms(2) y this]
  show "(case z of (x, y) \<Rightarrow> ok1 x \<and> ok2 y) \<and> drop at b = (case z of (x, y) \<Rightarrow> p1 x @ p2 y) @ drop at' b \<and>
      at' = at + length (case z of (x, y) \<Rightarrow> p1 x @ p2 y)"
    using e1 e2 z by simp
qed

lemma exact_wire_map:
  assumes "exact_wire p g ok"
    and sound: "\<And>x y. ok x \<Longrightarrow> c x = Inr y \<Longrightarrow> ok' y \<and> q y = p x"
    and complete: "\<And>y. ok' y \<Longrightarrow> \<exists>x. ok x \<and> c x = Inr y \<and> q y = p x"
  shows "exact_wire q (get_map c g) ok'"
proof unfold_locales
  fix at b y rest
  assume d: "drop at b = q y @ rest" and at: "at \<le> length b" and ok: "ok' y"
  then obtain x where x: "ok x" "c x = Inr y" "q y = p x" using complete by blast
  have "g b at = Inr (x, at + length (p x))"
    by (rule wire.get_put [OF exact_wire.axioms(1) [OF assms(1)] _ at x(1)]) (use d x in simp)
  then show "get_map c g b at = Inr (y, at + length (q y))" using x by (simp add: get_map_def)
next
  fix b at y at'
  assume g: "get_map c g b at = Inr (y, at')" and at: "at \<le> length b"
  then obtain x where x: "g b at = Inr (x, at')" "c x = Inr y"
    by (auto simp: get_map_def bind_res_Inr_iff split: prod.splits)
  note e = exact_wire.get_exact [OF assms(1) x(1) at]
  show "ok' y \<and> drop at b = q y @ drop at' b \<and> at' = at + length (q y)" using sound [OF _ x(2)] e by simp
qed

lemma exact_wire_list:
  assumes "exact_wire p g ok"
  shows "exact_wire (put_list p) (get_list g) (\<lambda>xs. list_all ok xs \<and> length xs \<le> u64_max)"
proof unfold_locales
  fix at b xs rest
  assume d: "drop at b = put_list p xs @ rest" and at: "at \<le> length b" and ok: "list_all ok xs \<and> length xs \<le> u64_max"
  show "get_list g b at = Inr (xs, at + length (put_list p xs))"
    using wire.counted_put [OF exact_wire.axioms(1) [OF assms], of at b xs rest] d at ok
    by (simp add: get_list_def put_list_def)
next
  fix b at xs at'
  assume g: "get_list g b at = Inr (xs, at')" and at: "at \<le> length b"
  show "(list_all ok xs \<and> length xs \<le> u64_max) \<and> drop at b = put_list p xs @ drop at' b \<and> at' = at + length (put_list p xs)"
    using exact_wire.counted_exact [OF assms g [unfolded get_list_def] at] by (simp add: put_list_def)
qed

lemma exact_wire_fixed: "exact_wire (\<lambda>x. x) (get_fixed e n) (\<lambda>x. length x = n)"
proof unfold_locales
  fix at b x rest
  assume d: "drop at b = x @ rest" and at: "at \<le> length (b :: bytes)" and ok: "length x = n"
  note c = cursor_advance [OF d at]
  show "get_fixed e n b at = Inr (x, at + length x)" using c ok by (simp add: get_fixed_def)
next
  fix b at x at'
  assume g: "get_fixed e n b at = Inr (x, at')" and at: "at \<le> length b"
  then have "n \<le> length b - at" "x = slice b at (at + n)" "at' = at + n"
    by (auto simp: get_fixed_def split: if_splits)
  then show "length x = n \<and> drop at b = x @ drop at' b \<and> at' = at + length x"
    using at slice_cursor [of at "at + n" b] by simp
qed

lemma exact_wire_fail: "(\<And>x. \<not> ok x) \<Longrightarrow> exact_wire p (\<lambda>b at. Inl e) ok"
  by unfold_locales simp_all

lemma exact_wire_tagged:
  assumes "\<And>t. exact_wire body (g t) (\<lambda>x. ok x \<and> tag x = t)"
  shows "exact_wire (\<lambda>x. tag x # body x) (get_tagged e g) ok"
proof unfold_locales
  fix at b x rest
  assume d: "drop at b = (tag x # body x) @ rest" and at: "at \<le> length b" and ok: "ok x"
  have d1: "drop at b = [tag x] @ (body x @ rest)" using d by simp
  note c = cursor_advance [OF d1 at]
  have "at < length b" using c(2) by simp
  then have "get_at b at = Some (tag x)" using d by (simp add: get_at_def nth_via_drop)
  moreover have "g (tag x) b (at + 1) = Inr (x, at + 1 + length (body x))"
    by (rule wire.get_put [OF exact_wire.axioms(1) [OF assms]]) (use c ok in simp_all)
  ultimately show "get_tagged e g b at = Inr (x, at + length (tag x # body x))" by (simp add: get_tagged_def)
next
  fix b at x at'
  assume g: "get_tagged e g b at = Inr (x, at')" and at: "at \<le> length b"
  then obtain t where t: "at < length b" "t = b ! at" "g t b (at + 1) = Inr (x, at')"
    by (auto simp: get_tagged_def bind_res_Inr_iff get_at_Some_iff)
  note ex = exact_wire.get_exact [OF assms t(3)]
  have "drop at b = b ! at # drop (at + 1) b" using t(1) by (simp add: Cons_nth_drop_Suc)
  then show "ok x \<and> drop at b = (tag x # body x) @ drop at' b \<and> at' = at + length (tag x # body x)"
    using ex t by simp
qed

end
