(* ===== verification/Types.thy ===== *)
theory Types
  imports Wire "HOL-Library.List_Lexorder" "HOL-Library.Multiset"
begin

text \<open>
  The vocabulary every layer shares (\<open>src/src/types.rs\<close>): content identities, typed attribute
  values, content programs and records.

  A \<open>String\<close> is its UTF-8 bytes, with \<open>utf8_ok\<close> the test of \<open>String::from_utf8\<close>. An
  \<open>f64\<close> is its bit pattern, which is what the code compares and stores. An \<open>i64\<close> is a word
  read by \<open>sint\<close>. A digest is a string of 32 bytes; BLAKE3 itself is a parameter of the
  definitions that use it.
\<close>

section \<open>Strings\<close>

text \<open>The well-formedness test of UTF-8, as the standard library performs it.\<close>

definition utf8_cont :: "byte \<Rightarrow> bool" where
  "utf8_cont b \<longleftrightarrow> 0x80 \<le> b \<and> b \<le> 0xBF"

fun utf8_ok :: "bytes \<Rightarrow> bool" where
  "utf8_ok [] = True"
| "utf8_ok (a # rest) =
    (if a < 0x80 then utf8_ok rest
     else if 0xC2 \<le> a \<and> a \<le> 0xDF then
       (case rest of b # r \<Rightarrow> utf8_cont b \<and> utf8_ok r | _ \<Rightarrow> False)
     else if 0xE0 \<le> a \<and> a \<le> 0xEF then
       (case rest of b # c # r \<Rightarrow>
          utf8_cont b \<and> (a = 0xE0 \<longrightarrow> 0xA0 \<le> b) \<and> (a = 0xED \<longrightarrow> b \<le> 0x9F) \<and> utf8_cont c \<and> utf8_ok r
        | _ \<Rightarrow> False)
     else if 0xF0 \<le> a \<and> a \<le> 0xF4 then
       (case rest of b # c # d # r \<Rightarrow>
          utf8_cont b \<and> (a = 0xF0 \<longrightarrow> 0x90 \<le> b) \<and> (a = 0xF4 \<longrightarrow> b \<le> 0x8F) \<and> utf8_cont c \<and>
          utf8_cont d \<and> utf8_ok r
        | _ \<Rightarrow> False)
     else False)"

text \<open>\<open>String::from_utf8\<close> and \<open>std::str::from_utf8\<close>.\<close>

definition from_utf8 :: "bytes \<Rightarrow> bytes outcome" where
  "from_utf8 b = (if utf8_ok b then Inr b else Inl (Bail ''invalid utf-8''))"

section \<open>Identities\<close>

type_synonym digest = "bytes"

definition digest_ok :: "digest \<Rightarrow> bool" where
  "digest_ok h \<longleftrightarrow> length h = 32"

text \<open>\<open>PieceHash::of\<close> and \<open>ContentHash::of\<close>: both are the digest of the exact bytes.\<close>

definition piece_hash :: "(bytes \<Rightarrow> digest) \<Rightarrow> bytes \<Rightarrow> digest" where
  "piece_hash blake3 b = blake3 b"

definition content_hash :: "(bytes \<Rightarrow> digest) \<Rightarrow> bytes \<Rightarrow> digest" where
  "content_hash blake3 b = blake3 b"

definition hex_digit :: "byte \<Rightarrow> char" where
  "hex_digit d = ''0123456789abcdef'' ! unat d"

definition to_hex :: "digest \<Rightarrow> string" where
  "to_hex h = concat (map (\<lambda>b. [hex_digit (drop_bit 4 b), hex_digit (b AND 0x0f)]) h)"

lemma length_to_hex: "length (to_hex h) = 2 * length h"
  by (induction h) (simp_all add: to_hex_def)

section \<open>Attribute values\<close>

datatype attr_value =
    AStr bytes
  | AInt u64
  | AFloat u64
  | ABool bool
  | AUInt u64
  | ABytes bytes
  | ATimestampNs u64
  | ANull

fun attr_eq :: "attr_value \<Rightarrow> attr_value \<Rightarrow> bool" where
  "attr_eq (AStr a) (AStr b) \<longleftrightarrow> a = b"
| "attr_eq (AInt a) (AInt b) \<longleftrightarrow> a = b"
| "attr_eq (AFloat a) (AFloat b) \<longleftrightarrow> a = b"
| "attr_eq (ABool a) (ABool b) \<longleftrightarrow> a = b"
| "attr_eq (AUInt a) (AUInt b) \<longleftrightarrow> a = b"
| "attr_eq (ABytes a) (ABytes b) \<longleftrightarrow> a = b"
| "attr_eq (ATimestampNs a) (ATimestampNs b) \<longleftrightarrow> a = b"
| "attr_eq ANull ANull \<longleftrightarrow> True"
| "attr_eq _ _ \<longleftrightarrow> False"

fun type_tag :: "attr_value \<Rightarrow> byte" where
  "type_tag (AStr _) = 0"
| "type_tag (AInt _) = 1"
| "type_tag (AFloat _) = 2"
| "type_tag (ABool _) = 3"
| "type_tag (AUInt _) = 4"
| "type_tag (ABytes _) = 5"
| "type_tag (ATimestampNs _) = 6"
| "type_tag ANull = 7"

lemma attr_eq_iff: "attr_eq a b \<longleftrightarrow> a = b"
  by (cases a; cases b) auto

section \<open>Content programs\<close>

datatype content_op = Lit bytes | Piece digest u32

fun op_len :: "content_op \<Rightarrow> nat" where
  "op_len (Lit b) = length b"
| "op_len (Piece _ n) = unat n"

definition op_is_empty :: "content_op \<Rightarrow> bool" where
  "op_is_empty x \<longleftrightarrow> op_len x = 0"

record content =
  cname :: bytes
  cops :: "content_op list"
  cidentity :: "digest option"

definition new_content :: "bytes \<Rightarrow> content_op list \<Rightarrow> content" where
  "new_content n xs = \<lparr> cname = n, cops = xs, cidentity = None \<rparr>"

definition identified_content :: "bytes \<Rightarrow> content_op list \<Rightarrow> digest \<Rightarrow> content" where
  "identified_content n xs h = \<lparr> cname = n, cops = xs, cidentity = Some h \<rparr>"

definition content_len :: "content \<Rightarrow> nat" where
  "content_len c = sum_list (map op_len (cops c))"

definition content_is_empty :: "content \<Rightarrow> bool" where
  "content_is_empty c \<longleftrightarrow> content_len c = 0"

section \<open>Records\<close>

record trace_record =
  rid :: bytes
  rcontents :: "content list"
  rattrs :: "(bytes \<times> attr_value) list"

text \<open>\<open>validate_contents\<close>: the set grows as the loop goes on, and each content is checked in
  the order of the code.\<close>

fun validate_contents_from :: "bytes set \<Rightarrow> content list \<Rightarrow> unit outcome" where
  "validate_contents_from names [] = Inr ()"
| "validate_contents_from names (c # cs) =
    (if cname c = [] then Inl (Bail ''content name must not be empty'')
     else if cname c \<in> names then Inl (Bail ''duplicate content name'')
     else if list_ex (\<lambda>x. case x of Piece _ n \<Rightarrow> n = 0 | _ \<Rightarrow> False) (cops c) then
       Inl (Bail ''a persisted piece reference must contain at least one byte'')
     else validate_contents_from (insert (cname c) names) cs)"

definition validate_contents :: "content list \<Rightarrow> unit outcome" where
  "validate_contents cs = validate_contents_from {} cs"

text \<open>\<open>Record::new\<close>: the sort is stable and orders by the bytes of the names.\<close>

definition new_record :: "bytes \<Rightarrow> content list \<Rightarrow> (bytes \<times> attr_value) list \<Rightarrow> trace_record outcome" where
  "new_record i cs attrs =
    (if i = [] then Inl (Bail ''record id must not be empty'')
     else bind_res (validate_contents cs) (\<lambda>_.
       Inr \<lparr> rid = i, rcontents = sort_key cname cs, rattrs = attrs \<rparr>))"

definition record_content :: "trace_record \<Rightarrow> bytes \<Rightarrow> content option" where
  "record_content r n = find (\<lambda>c. cname c = n) (rcontents r)"

definition record_content_len :: "trace_record \<Rightarrow> bytes \<Rightarrow> nat option" where
  "record_content_len r n = map_option content_len (record_content r n)"

section \<open>Facts\<close>

definition piece_nonempty :: "content_op \<Rightarrow> bool" where
  "piece_nonempty x \<longleftrightarrow> (case x of Piece _ n \<Rightarrow> n \<noteq> 0 | Lit _ \<Rightarrow> True)"

text \<open>What \<open>validate_contents\<close> establishes.\<close>

definition contents_ok :: "content list \<Rightarrow> bool" where
  "contents_ok cs \<longleftrightarrow> distinct (map cname cs) \<and>
     (\<forall>c \<in> set cs. cname c \<noteq> [] \<and> list_all piece_nonempty (cops c))"

lemma contents_ok_distinct: "contents_ok cs \<Longrightarrow> distinct (map cname cs)"
  by (simp add: contents_ok_def)

lemma no_empty_piece:
  "list_ex (\<lambda>x. case x of Piece _ n \<Rightarrow> n = 0 | _ \<Rightarrow> False) xs \<longleftrightarrow> \<not> list_all piece_nonempty xs"
  by (induction xs) (auto simp: piece_nonempty_def split: content_op.splits)

lemma validate_contents_from_ok:
  "validate_contents_from names cs = Inr u \<longleftrightarrow>
     contents_ok cs \<and> (\<forall>c \<in> set cs. cname c \<notin> names)"
proof (induction cs arbitrary: names)
  case Nil
  then show ?case by (simp add: contents_ok_def)
next
  case (Cons c cs)
  have "contents_ok (c # cs) \<longleftrightarrow> cname c \<noteq> [] \<and> list_all piece_nonempty (cops c) \<and>
      (\<forall>d \<in> set cs. cname d \<noteq> cname c) \<and> contents_ok cs"
    by (simp add: contents_ok_def image_iff eq_commute [of "cname c"]) blast
  then show ?case using Cons.IH [of "insert (cname c) names"] by (auto simp: no_empty_piece)
qed

lemma validate_contents_ok [simp]: "validate_contents cs = Inr u \<longleftrightarrow> contents_ok cs"
  by (simp add: validate_contents_def validate_contents_from_ok)

lemma contents_ok_sort [simp]: "contents_ok (sort_key cname cs) \<longleftrightarrow> contents_ok cs"
proof -
  have "distinct (map cname (sort_key cname cs)) \<longleftrightarrow> distinct (map cname cs)"
    by (simp add: distinct_map)
  then show ?thesis by (simp add: contents_ok_def)
qed

lemma new_record_Inr_iff:
  "new_record i cs attrs = Inr r \<longleftrightarrow> i \<noteq> [] \<and> contents_ok cs \<and>
     r = \<lparr> rid = i, rcontents = sort_key cname cs, rattrs = attrs \<rparr>"
  by (auto simp: new_record_def bind_res_Inr_iff)

lemma sort_key_sorted_id: "sorted (map f xs) \<Longrightarrow> sort_key f xs = xs"
  by (rule sort_key_id_if_sorted)

lemma strictly_sorted_names:
  assumes "contents_ok cs"
  shows "sorted_wrt (<) (map cname (sort_key cname cs))"
proof -
  have "distinct (map cname (sort_key cname cs))"
    using assms contents_ok_sort [of cs] contents_ok_distinct by blast
  then show ?thesis by (simp add: strict_sorted_iff)
qed

lemma find_by_key:
  "distinct (map f xs) \<Longrightarrow> x \<in> set xs \<Longrightarrow> find (\<lambda>y. f y = f x) xs = Some x"
  by (induction xs) (auto simp: image_iff)

section \<open>Properties\<close>

text \<open>C30. A record built by \<open>Record::new\<close> is canonical: the constructor accepts exactly a
  non-empty id with distinct, non-empty content names and no empty piece, the contents come out
  in strictly increasing name order, none is added, lost or changed, and looking a content up by
  its name finds it.\<close>

theorem record_new_canonical:
  "case new_record i cs attrs of
     Inl _ \<Rightarrow> \<not> (i \<noteq> [] \<and> contents_ok cs)
   | Inr r \<Rightarrow> i \<noteq> [] \<and> contents_ok cs \<and> rid r = i \<and> rattrs r = attrs \<and> mset (rcontents r) = mset cs \<and>
       sorted_wrt (<) (map cname (rcontents r)) \<and>
       list_all (\<lambda>c. record_content r (cname c) = Some c) cs"
proof (cases "i \<noteq> [] \<and> contents_ok cs")
  case True
  then have r: "new_record i cs attrs = Inr \<lparr> rid = i, rcontents = sort_key cname cs, rattrs = attrs \<rparr>"
    by (simp add: new_record_Inr_iff)
  have "find (\<lambda>d. cname d = cname c) (sort_key cname cs) = Some c" if "c \<in> set cs" for c
    using find_by_key [of cname "sort_key cname cs" c] that True contents_ok_sort [of cs] contents_ok_distinct
    by simp
  then show ?thesis
    using r True strictly_sorted_names [of cs] by (simp add: record_content_def list_all_iff)
next
  case False
  then show ?thesis using new_record_Inr_iff [of i cs attrs] by (cases "new_record i cs attrs") auto
qed

end
