(* ===== verification/IdCol.thy ===== *)
theory IdCol
  imports Types
begin

text \<open>
  The id column of a part (\<open>src/src/part/idcol.rs\<close>): sorted record ids, front-coded against
  their predecessor, with a whole id every \<open>RESTART\<close> entries so that a lookup can
  binary-search the restart points and walk at most one group. The body that decodes one entry, which
  stands three times in the code (\<open>get\<close>, \<open>iter\<close> and \<open>next_id\<close>), is the one definition \<open>id_entry\<close> here.
\<close>

definition RESTART :: nat where "RESTART = 16"

fun shared_prefix :: "bytes \<Rightarrow> bytes \<Rightarrow> nat" where
  "shared_prefix (x # xs) (y # ys) = (if x = y then Suc (shared_prefix xs ys) else 0)"
| "shared_prefix _ _ = 0"

definition checked_stream_end :: "nat \<Rightarrow> nat \<Rightarrow> nat outcome" where
  "checked_stream_end current entry =
     bind_res (require (entry \<le> u64_max) (Bail ''encoded id entry exceeds the u64 length domain'')) (\<lambda>_.
     bind_res (ok_or (Bail ''id stream overflows'') (checked_add current entry)) (\<lambda>end.
     if end > u32_max then Inl (Bail ''id stream length exceeds its u32 offset domain'') else Inr end))"

section \<open>Building\<close>

definition id_entry_bytes :: "nat \<Rightarrow> bytes \<Rightarrow> bytes" where
  "id_entry_bytes shared cur =
     put_varint (word_of_nat shared) @ put_varint (word_of_nat (length cur - shared)) @ drop shared cur"

fun build_ids_loop :: "nat \<Rightarrow> bytes \<Rightarrow> bytes \<Rightarrow> u32 list \<Rightarrow> bytes list \<Rightarrow> (bytes \<times> u32 list) outcome" where
  "build_ids_loop i prev stream restarts [] = Inr (stream, restarts)"
| "build_ids_loop i prev stream restarts (cur # ids) =
    (if i > 0 \<and> cur \<le> prev then Inl (Bail ''id column requires strictly increasing ids'')
     else let restart = (i mod RESTART = 0);
              shared = (if restart then 0 else shared_prefix prev cur);
              entry = id_entry_bytes shared cur
          in bind_res (checked_stream_end (length stream) (length entry)) (\<lambda>_.
             build_ids_loop (i + 1) cur (stream @ entry)
               (if restart then restarts @ [word_of_nat (length stream)] else restarts) ids))"

definition build_ids :: "bytes list \<Rightarrow> (bytes \<times> u32 list) outcome" where
  "build_ids ids = build_ids_loop 0 [] [] [] ids"

section \<open>Reading\<close>

record idcol =
  ic_stream :: bytes
  ic_restarts :: "u32 list"
  ic_len :: nat

text \<open>One entry: the body every reading loop of the column shares.\<close>

definition id_entry :: "bytes \<Rightarrow> nat \<Rightarrow> bytes \<Rightarrow> (bytes \<times> nat) outcome" where
  "id_entry stream at cur =
     bind_res (get_varint stream at) (\<lambda>(shared, at).
     bind_res (get_varint stream at) (\<lambda>(suffix_len, at).
     if unat shared > length cur \<or> unat suffix_len > length stream - at
     then Inl (Bail ''corrupt id column entry'')
     else Inr (take (unat shared) cur @ slice stream at (at + unat suffix_len), at + unat suffix_len)))"

fun id_walk :: "nat \<Rightarrow> bytes \<Rightarrow> nat \<Rightarrow> bytes \<Rightarrow> (bytes \<times> nat) outcome" where
  "id_walk 0 stream at cur = Inr (cur, at)"
| "id_walk (Suc n) stream at cur =
     bind_res (id_entry stream at cur) (\<lambda>(cur, at). id_walk n stream at cur)"

definition idcol_get :: "idcol \<Rightarrow> nat \<Rightarrow> bytes outcome" where
  "idcol_get c i =
    (if i \<ge> ic_len c then Inl (Bail ''id index out of range'')
     else bind_res (ok_or (Bail ''missing restart'') (get_at (ic_restarts c) (i div RESTART))) (\<lambda>at.
          bind_res (id_walk (i mod RESTART + 1) (ic_stream c) (unat at) []) (\<lambda>(cur, _). Inr cur)))"

fun id_iter :: "nat \<Rightarrow> bytes \<Rightarrow> nat \<Rightarrow> bytes \<Rightarrow> bytes list outcome" where
  "id_iter 0 stream at cur = Inr []"
| "id_iter (Suc n) stream at cur =
     bind_res (id_entry stream at cur) (\<lambda>(cur, at).
     bind_res (id_iter n stream at cur) (\<lambda>out. Inr (cur # out)))"

definition idcol_iter :: "idcol \<Rightarrow> bytes list outcome" where
  "idcol_iter c = id_iter (ic_len c) (ic_stream c) 0 []"

text \<open>\<open>IdCursor\<close>: the streaming reader, one id resident at a time.\<close>

record id_cursor =
  cu_stream :: bytes
  cu_len :: nat
  cu_at :: nat
  cu_done :: nat
  cu_cur :: bytes

definition idcol_cursor :: "idcol \<Rightarrow> id_cursor" where
  "idcol_cursor c =
     \<lparr> cu_stream = ic_stream c, cu_len = ic_len c, cu_at = 0, cu_done = 0, cu_cur = [] \<rparr>"

definition cursor_next :: "id_cursor \<Rightarrow> (bytes option \<times> id_cursor) outcome" where
  "cursor_next k =
    (if cu_done k \<ge> cu_len k then Inr (None, k)
     else bind_res (id_entry (cu_stream k) (cu_at k) (cu_cur k)) (\<lambda>(cur, at).
       Inr (Some cur, k\<lparr> cu_at := at, cu_done := cu_done k + 1, cu_cur := cur \<rparr>)))"

section \<open>Searching\<close>

text \<open>The two binary searches over restart points; they differ in the comparison only.\<close>

function search_groups ::
  "(bytes \<Rightarrow> bool) \<Rightarrow> (nat \<Rightarrow> bytes outcome) \<Rightarrow> nat \<Rightarrow> nat \<Rightarrow> nat outcome" where
  "search_groups before read lo hi =
    (if lo < hi then
       let mid = (lo + hi) div 2
       in bind_res (read (mid * RESTART)) (\<lambda>first.
          if before first then search_groups before read (mid + 1) hi
          else search_groups before read lo mid)
     else Inr lo)"
  by pat_completeness auto

termination search_groups
  by (relation "measure (\<lambda>(before, read, lo, hi). hi - lo)") auto

declare search_groups.simps [simp del]

function scan_for :: "(nat \<Rightarrow> bytes outcome) \<Rightarrow> bytes \<Rightarrow> nat \<Rightarrow> nat \<Rightarrow> nat option outcome" where
  "scan_for read needle i stop =
    (if i < stop then
       bind_res (read i) (\<lambda>found.
         if found = needle then Inr (Some i)
         else if needle < found then Inr None
         else scan_for read needle (i + 1) stop)
     else Inr None)"
  by pat_completeness auto

termination scan_for
  by (relation "measure (\<lambda>(read, needle, i, stop). stop - i)") auto

declare scan_for.simps [simp del]

function scan_from :: "(nat \<Rightarrow> bytes outcome) \<Rightarrow> bytes \<Rightarrow> nat \<Rightarrow> nat \<Rightarrow> nat outcome" where
  "scan_from read needle i stop =
    (if i < stop then
       bind_res (read i) (\<lambda>found. if needle \<le> found then Inr i else scan_from read needle (i + 1) stop)
     else Inr stop)"
  by pat_completeness auto

termination scan_from
  by (relation "measure (\<lambda>(read, needle, i, stop). stop - i)") auto

declare scan_from.simps [simp del]

definition idcol_find :: "idcol \<Rightarrow> bytes \<Rightarrow> nat option outcome" where
  "idcol_find c needle =
    (if ic_len c = 0 then Inr None
     else bind_res (search_groups (\<lambda>first. first \<le> needle) (idcol_get c) 0 (length (ic_restarts c))) (\<lambda>lo.
       if lo = 0 then Inr None
       else let start = (lo - 1) * RESTART
            in scan_for (idcol_get c) needle start (min (start + RESTART) (ic_len c))))"

definition idcol_lower_bound :: "idcol \<Rightarrow> bytes \<Rightarrow> nat outcome" where
  "idcol_lower_bound c needle =
    (if ic_len c = 0 then Inr 0
     else bind_res (search_groups (\<lambda>first. first < needle) (idcol_get c) 0 (length (ic_restarts c))) (\<lambda>lo.
       scan_from (idcol_get c) needle ((lo - 1) * RESTART) (ic_len c)))"

section \<open>Validation\<close>

fun validate_ids_loop ::
  "nat \<Rightarrow> bytes \<Rightarrow> u32 list \<Rightarrow> nat \<Rightarrow> nat \<Rightarrow> bytes \<Rightarrow> bytes option \<Rightarrow> nat outcome" where
  "validate_ids_loop 0 stream restarts index at current previous = Inr at"
| "validate_ids_loop (Suc n) stream restarts index at current previous =
     bind_res (if index mod RESTART = 0 \<and> unat (restarts ! (index div RESTART)) \<noteq> at
               then Inl (Bail ''id restart points elsewhere'') else Inr ()) (\<lambda>_.
     bind_res (get_varint stream at) (\<lambda>(shared, at).
     bind_res (get_varint stream at) (\<lambda>(suffix_len, at).
     if index mod RESTART = 0 \<and> unat shared \<noteq> 0 then Inl (Bail ''id restart has nonzero shared prefix'')
     else if unat shared > length current \<or> unat suffix_len > length stream - at then
       Inl (Bail ''corrupt id column entry'')
     else let current = take (unat shared) current @ slice stream at (at + unat suffix_len);
              at = at + unat suffix_len
          in if current = [] then Inl (Bail ''record id is empty'')
             else if \<not> utf8_ok current then Inl (Bail ''invalid utf-8'')
             else if (case previous of None \<Rightarrow> False | Some prior \<Rightarrow> current \<le> prior) then
               Inl (Bail ''record ids are duplicated or out of canonical order'')
             else validate_ids_loop n stream restarts (index + 1) at current (Some current))))"

definition idcol_validate :: "idcol \<Rightarrow> unit outcome" where
  "idcol_validate c =
    (if length (ic_restarts c) \<noteq> div_ceil (ic_len c) RESTART
     then Inl (Bail ''id restart table has the wrong number of entries'')
     else bind_res (validate_ids_loop (ic_len c) (ic_stream c) (ic_restarts c) 0 0 [] None) (\<lambda>at.
       if at \<noteq> length (ic_stream c) then Inl (Bail ''id column has trailing bytes'') else Inr ()))"

section \<open>The layout a build produces\<close>

definition id_shared :: "bytes list \<Rightarrow> nat \<Rightarrow> nat" where
  "id_shared ids i = (if i mod RESTART = 0 then 0 else shared_prefix (ids ! (i - 1)) (ids ! i))"

definition id_entry_of :: "bytes list \<Rightarrow> nat \<Rightarrow> bytes" where
  "id_entry_of ids i = id_entry_bytes (id_shared ids i) (ids ! i)"

definition id_off :: "bytes list \<Rightarrow> nat \<Rightarrow> nat" where
  "id_off ids i = length (concat (map (id_entry_of ids) [0..<i]))"

definition id_stream :: "bytes list \<Rightarrow> bytes" where
  "id_stream ids = concat (map (id_entry_of ids) [0..<length ids])"

definition id_restarts :: "bytes list \<Rightarrow> u32 list" where
  "id_restarts ids = map (\<lambda>g. word_of_nat (id_off ids (g * RESTART))) [0..<div_ceil (length ids) RESTART]"

lemma shared_prefix_le: "shared_prefix a b \<le> length a" "shared_prefix a b \<le> length b"
  by (induction a b rule: shared_prefix.induct) auto

lemma take_shared_prefix: "take (shared_prefix a b) a = take (shared_prefix a b) b"
  by (induction a b rule: shared_prefix.induct) auto

text \<open>The shared prefix is the longest one.\<close>

lemma shared_prefix_maximal: "take n a = take n b \<Longrightarrow> n \<le> length a \<Longrightarrow> n \<le> length b \<Longrightarrow> n \<le> shared_prefix a b"
proof (induction a b arbitrary: n rule: shared_prefix.induct)
  case (1 x xs y ys)
  then show ?case by (cases n) auto
qed auto

lemma checked_stream_end_Inr_iff [simp]:
  "checked_stream_end cur e = Inr x \<longleftrightarrow> x = cur + e \<and> cur + e \<le> u32_max"
  by (auto simp: checked_stream_end_def bind_res_Inr_iff checked_add_def u32_max_def u64_max_def)

lemma checked_stream_end_ok:
  "is_ok (checked_stream_end cur e) \<longleftrightarrow> cur + e \<le> u32_max"
  by (simp add: is_ok_iff)

lemma id_off_Suc [simp]: "id_off ids (Suc i) = id_off ids i + length (id_entry_of ids i)"
  by (simp add: id_off_def)

lemma id_off_0 [simp]: "id_off ids 0 = 0"
  by (simp add: id_off_def)

lemma id_off_mono: "i \<le> j \<Longrightarrow> id_off ids i \<le> id_off ids j"
  by (induction j) (auto simp: le_Suc_eq)

lemma length_id_stream: "length (id_stream ids) = id_off ids (length ids)"
  by (simp add: id_stream_def id_off_def)

lemma div_ceil_Suc_RESTART:
  "div_ceil (Suc i) RESTART = div_ceil i RESTART + (if i mod RESTART = 0 then 1 else 0)"
proof -
  have "Suc i mod 16 = (if i mod 16 = 15 then 0 else Suc (i mod 16))"
    by (auto simp: mod_Suc)
  moreover have "Suc i div 16 = (if i mod 16 = 15 then Suc (i div 16) else i div 16)"
    by (auto simp: div_Suc mod_Suc)
  ultimately show ?thesis by (simp add: div_ceil_def RESTART_def)
qed

lemma div_ceil_at_restart: "i mod RESTART = 0 \<Longrightarrow> div_ceil i RESTART * RESTART = i"
  by (auto simp: div_ceil_def RESTART_def)

lemma build_ids_loop_spec:
  assumes "i \<le> length ids" and "0 < i \<Longrightarrow> prev = ids ! (i - 1)"
  shows "build_ids_loop i prev (concat (map (id_entry_of ids) [0..<i]))
       (map (\<lambda>g. word_of_nat (id_off ids (g * RESTART))) [0..<div_ceil i RESTART]) (drop i ids) = Inr (s, r)
     \<longleftrightarrow> (\<forall>j. i \<le> j \<and> 0 < j \<and> j < length ids \<longrightarrow> ids ! (j - 1) < ids ! j) \<and>
         (i < length ids \<longrightarrow> id_off ids (length ids) \<le> u32_max) \<and>
         s = id_stream ids \<and> r = id_restarts ids"
  using assms
proof (induction "length ids - i" arbitrary: i prev)
  case 0
  then show ?case by (auto simp: id_stream_def id_restarts_def)
next
  case (Suc n)
  then have i: "i < length ids" by simp
  have d: "drop i ids = ids ! i # drop (Suc i) ids" using i by (simp add: Cons_nth_drop_Suc)
  have sh: "(if i mod RESTART = 0 then 0 else shared_prefix prev (ids ! i)) = id_shared ids i"
    using Suc.prems(2) by (cases "i = 0") (auto simp: id_shared_def)
  let ?r = "map (\<lambda>g. word_of_nat (id_off ids (g * RESTART))) [0..<div_ceil i RESTART] :: u32 list"
  have r: "(if i mod RESTART = 0 then ?r @ [word_of_nat (id_off ids i)] else ?r)
      = map (\<lambda>g. word_of_nat (id_off ids (g * RESTART))) [0..<div_ceil (Suc i) RESTART]"
    using div_ceil_at_restart [of i] by (simp add: div_ceil_Suc_RESTART)
  have IH: "build_ids_loop (Suc i) (ids ! i) (concat (map (id_entry_of ids) [0..<Suc i]))
       (map (\<lambda>g. word_of_nat (id_off ids (g * RESTART))) [0..<div_ceil (Suc i) RESTART]) (drop (Suc i) ids) = Inr (s, r)
     \<longleftrightarrow> (\<forall>j. Suc i \<le> j \<and> 0 < j \<and> j < length ids \<longrightarrow> ids ! (j - 1) < ids ! j) \<and>
         (Suc i < length ids \<longrightarrow> id_off ids (length ids) \<le> u32_max) \<and>
         s = id_stream ids \<and> r = id_restarts ids"
    by (rule Suc.hyps(1)) (use Suc.hyps(2) i in simp_all)
  have last: "Suc i \<noteq> length ids \<or> id_off ids (length ids) = id_off ids (Suc i)" by metis
  have len: "id_off ids (Suc i) \<le> id_off ids (length ids)" using i by (intro id_off_mono) simp
  have all: "(\<forall>j. i \<le> j \<and> 0 < j \<and> j < length ids \<longrightarrow> ids ! (j - 1) < ids ! j) \<longleftrightarrow>
      (0 < i \<longrightarrow> ids ! (i - 1) < ids ! i) \<and>
      (\<forall>j. Suc i \<le> j \<and> 0 < j \<and> j < length ids \<longrightarrow> ids ! (j - 1) < ids ! j)"
  proof -
    have le: "i \<le> j \<longleftrightarrow> j = i \<or> Suc i \<le> j" for j by auto
    show ?thesis unfolding le using i by blast
  qed
  have e: "id_entry_bytes (id_shared ids i) (ids ! i) = id_entry_of ids i" by (simp add: id_entry_of_def)
  have off: "length (concat (map (id_entry_of ids) [0..<i])) = id_off ids i" by (simp add: id_off_def)
  have step: "concat (map (id_entry_of ids) [0..<i]) @ id_entry_of ids i
      = concat (map (id_entry_of ids) [0..<Suc i])" by simp
  show ?case
  proof (cases "0 < i \<and> ids ! i \<le> prev")
    case True
    then have "\<not> ids ! (i - 1) < ids ! i" using Suc.prems(2) by (auto simp: not_less)
    then show ?thesis using True d i by auto
  next
    case False
    have lt: "0 < i \<longrightarrow> ids ! (i - 1) < ids ! i" using False Suc.prems(2) by (auto simp: not_le)
    have fits: "(id_off ids (Suc i) \<le> u32_max \<and> (Suc i < length ids \<longrightarrow> id_off ids (length ids) \<le> u32_max))
        \<longleftrightarrow> (i < length ids \<longrightarrow> id_off ids (length ids) \<le> u32_max)"
      using last len i by (metis Suc_lessI le_trans)
    have checked: "bind_res (checked_stream_end (id_off ids i) (length (id_entry_of ids i))) (\<lambda>_. X) = Inr (s, r)
        \<longleftrightarrow> id_off ids (Suc i) \<le> u32_max \<and> X = Inr (s, r)" for X :: "(bytes \<times> u32 list) outcome"
      by (auto simp: bind_res_Inr_iff)
    show ?thesis
      unfolding d build_ids_loop.simps Let_def sh e off step r if_not_P [OF False] checked
        Suc_eq_plus1 [symmetric] IH all
      using lt fits by blast
  qed
qed

lemma strict_sorted_nth:
  "sorted_wrt (<) (xs :: 'a::linorder list) \<longleftrightarrow> (\<forall>j. 0 < j \<and> j < length xs \<longrightarrow> xs ! (j - 1) < xs ! j)"
proof -
  have "sorted_wrt (<) xs \<longleftrightarrow> (\<forall>i. Suc i < length xs \<longrightarrow> xs ! i < xs ! Suc i)"
    by (rule sorted_wrt_iff_nth_Suc_transp) simp
  also have "\<dots> \<longleftrightarrow> (\<forall>j. 0 < j \<and> j < length xs \<longrightarrow> xs ! (j - 1) < xs ! j)"
    by (metis Suc_pred' diff_Suc_1 zero_less_Suc)
  finally show ?thesis .
qed

text \<open>
  A build succeeds exactly on strictly increasing ids whose stream fits in 32-bit offsets, and
  then the stream and the restart table are the ones above.
\<close>

lemma build_ids_Inr_iff:
  "build_ids ids = Inr (s, r) \<longleftrightarrow>
     sorted_wrt (<) ids \<and> length (id_stream ids) \<le> u32_max \<and> s = id_stream ids \<and> r = id_restarts ids"
  using build_ids_loop_spec [of 0 ids "[]" s r]
  by (cases "ids = []") (auto simp: build_ids_def strict_sorted_nth length_id_stream div_ceil_def)

section \<open>Reading the layout back\<close>

lemma id_stream_drop:
  assumes "i < length ids"
  shows "drop (id_off ids i) (id_stream ids) = id_entry_of ids i @ drop (id_off ids (Suc i)) (id_stream ids)"
    and "id_off ids i \<le> length (id_stream ids)"
proof -
  have split: "[0..<length ids] = [0..<i] @ i # [Suc i..<length ids]"
    using assms upt_add_eq_append [of 0 i "length ids - i"] upt_conv_Cons [of i "length ids"] by simp
  then have s: "id_stream ids = concat (map (id_entry_of ids) [0..<i]) @ id_entry_of ids i @
      concat (map (id_entry_of ids) [Suc i..<length ids])"
    by (simp add: id_stream_def)
  show "drop (id_off ids i) (id_stream ids) = id_entry_of ids i @ drop (id_off ids (Suc i)) (id_stream ids)"
    unfolding id_off_Suc unfolding s id_off_def by simp
  show "id_off ids i \<le> length (id_stream ids)"
    unfolding length_id_stream by (rule id_off_mono) (use assms in simp)
qed

text \<open>Every id of a stream that fits 32-bit offsets is short enough for its lengths to be words.\<close>

lemma id_length_le_off:
  "i < length ids \<Longrightarrow> length (ids ! i) \<le> id_off ids (Suc i)"
proof (induction i)
  case 0
  then show ?case by (simp add: id_entry_of_def id_entry_bytes_def id_shared_def RESTART_def)
next
  case (Suc i)
  have "id_shared ids (Suc i) \<le> length (ids ! i)" by (simp add: id_shared_def shared_prefix_le)
  moreover have "length (ids ! Suc i) - id_shared ids (Suc i) \<le> length (id_entry_of ids (Suc i))"
    by (simp add: id_entry_of_def id_entry_bytes_def)
  ultimately show ?case using Suc by simp
qed

lemma id_entry_fields:
  assumes d: "drop at s = id_entry_bytes sh cur @ rest" and at: "at \<le> length s"
    and sh: "sh \<le> length prev" "sh \<le> length cur" "take sh prev = take sh cur"
    and len: "length cur \<le> u64_max"
  obtains at1 at2 where "get_varint s at = Inr (word_of_nat sh, at1)"
    and "get_varint s at1 = Inr (word_of_nat (length cur - sh), at2)"
    and "unat (word_of_nat sh :: u64) = sh"
    and "unat (word_of_nat (length cur - sh) :: u64) = length cur - sh"
    and "length cur - sh \<le> length s - at2"
    and "take sh prev @ slice s at2 (at2 + (length cur - sh)) = cur"
    and "at2 + (length cur - sh) = at + length (id_entry_bytes sh cur)"
proof -
  let ?sh = "word_of_nat sh :: u64" and ?suf = "word_of_nat (length cur - sh) :: u64"
  have u: "unat ?sh = sh" "unat ?suf = length cur - sh"
    using sh len by (simp_all add: unat_of_nat u64_max_def del: of_nat_diff)
  have d1: "drop at s = put_varint ?sh @ put_varint ?suf @ drop sh cur @ rest"
    using d by (simp add: id_entry_bytes_def)
  note v1 = varint.get_put [OF d1 at TrueI] and a1 = cursor_advance [OF d1 at]
  note v2 = varint.get_put [OF a1(1,2) TrueI] and a2 = cursor_advance [OF a1(1,2)]
  note a3 = cursor_advance [OF a2(1,2)]
  show thesis
    by (rule that [OF v1 v2 u]) (use a3(3,4) sh(2,3) in \<open>simp_all add: id_entry_bytes_def\<close>)
qed

lemma id_entry_read:
  assumes d: "drop at s = id_entry_bytes sh cur @ rest" and at: "at \<le> length s"
    and sh: "sh \<le> length prev" "sh \<le> length cur" "take sh prev = take sh cur"
    and len: "length cur \<le> u64_max"
  shows "id_entry s at prev = Inr (cur, at + length (id_entry_bytes sh cur))"
  by (rule id_entry_fields [OF assms]) (use sh(1) in \<open>simp add: id_entry_def\<close>)

lemma id_entry_at:
  assumes "i < length ids" and "length (id_stream ids) \<le> u32_max"
    and "i mod RESTART \<noteq> 0 \<Longrightarrow> prev = ids ! (i - 1)"
  shows "id_entry (id_stream ids) (id_off ids i) prev = Inr (ids ! i, id_off ids (Suc i))"
proof -
  have "id_off ids (Suc i) \<le> length (id_stream ids)"
    unfolding length_id_stream by (rule id_off_mono) (use assms in simp)
  then have len: "length (ids ! i) \<le> u64_max"
    using id_length_le_off [OF assms(1)] assms(2) by (simp add: u32_max_def u64_max_def)
  have "id_entry (id_stream ids) (id_off ids i) prev =
      Inr (ids ! i, id_off ids i + length (id_entry_bytes (id_shared ids i) (ids ! i)))"
    by (rule id_entry_read [OF _ id_stream_drop(2) [OF assms(1)] _ _ _ len])
      (use id_stream_drop(1) [OF assms(1)] assms(3) in
        \<open>auto simp: id_entry_of_def id_shared_def shared_prefix_le take_shared_prefix\<close>)
  then show ?thesis by (simp add: id_entry_of_def)
qed

lemma id_walk_at:
  assumes "length (id_stream ids) \<le> u32_max"
  shows "i + n < length ids \<Longrightarrow> (i mod RESTART \<noteq> 0 \<Longrightarrow> prev = ids ! (i - 1)) \<Longrightarrow>
    id_walk (Suc n) (id_stream ids) (id_off ids i) prev = Inr (ids ! (i + n), id_off ids (Suc (i + n)))"
proof (induction n arbitrary: i prev)
  case 0
  then show ?case using id_entry_at [OF _ assms, of i prev] by simp
next
  case (Suc n)
  have "id_walk (Suc n) (id_stream ids) (id_off ids (Suc i)) (ids ! i) =
      Inr (ids ! (Suc i + n), id_off ids (Suc (Suc i + n)))"
    by (rule Suc.IH) (use Suc.prems in auto)
  then show ?case
    using Suc.prems id_entry_at [OF _ assms, of i prev]
    by (subst id_walk.simps) (simp del: id_off_Suc id_walk.simps)
qed

definition idcol_of :: "bytes list \<Rightarrow> idcol" where
  "idcol_of ids = \<lparr> ic_stream = id_stream ids, ic_restarts = id_restarts ids, ic_len = length ids \<rparr>"

lemma div_16_less_div_ceil: "i < n \<Longrightarrow> i div 16 < div_ceil n 16"
proof (cases "n mod 16 = 0")
  case True
  assume i: "i < n"
  have "n = n div 16 * 16" using div_mult_mod_eq [of n 16] True by simp
  then have "i div 16 < n div 16" using i by (intro less_mult_imp_div_less) simp
  then show ?thesis using True by (simp add: div_ceil_def)
next
  case False
  assume "i < n"
  then have "i div 16 \<le> n div 16" by (intro div_le_mono) simp
  then show ?thesis using False by (simp add: div_ceil_def)
qed

lemma restart_lookup:
  assumes "length (id_stream ids) \<le> u32_max" and "i < length ids"
  shows "get_at (id_restarts ids) (i div RESTART) = Some (word_of_nat (id_off ids (i div RESTART * RESTART)))"
    and "unat (word_of_nat (id_off ids (i div RESTART * RESTART)) :: u32) = id_off ids (i div RESTART * RESTART)"
proof -
  have "i div 16 < div_ceil (length ids) 16" using assms(2) by (rule div_16_less_div_ceil)
  then show "get_at (id_restarts ids) (i div RESTART) = Some (word_of_nat (id_off ids (i div RESTART * RESTART)))"
    by (simp add: get_at_def id_restarts_def RESTART_def)
  have "i div RESTART * RESTART < length ids" using assms(2) by (simp add: RESTART_def)
  then have "id_off ids (i div RESTART * RESTART) \<le> u32_max"
    using id_stream_drop(2) assms(1) le_trans by blast
  then show "unat (word_of_nat (id_off ids (i div RESTART * RESTART)) :: u32) = id_off ids (i div RESTART * RESTART)"
    by (simp add: unat_of_nat u32_max_def)
qed

lemma idcol_get_of:
  assumes "length (id_stream ids) \<le> u32_max" and "i < length ids"
  shows "idcol_get (idcol_of ids) i = Inr (ids ! i)"
proof -
  let ?b = "i div RESTART * RESTART"
  have i: "?b + i mod RESTART = i" by simp
  have "id_walk (Suc (i mod RESTART)) (id_stream ids) (id_off ids ?b) [] =
      Inr (ids ! (?b + i mod RESTART), id_off ids (Suc (?b + i mod RESTART)))"
    by (rule id_walk_at [OF assms(1)]) (simp_all add: assms(2))
  then have w: "id_walk (i mod RESTART + 1) (id_stream ids) (id_off ids ?b) [] = Inr (ids ! i, id_off ids (Suc i))"
    unfolding i by (simp only: Suc_eq_plus1)
  have c: "(length ids \<le> i) = False" using assms(2) by simp
  show ?thesis
    by (simp only: idcol_get_def idcol_of_def idcol.select_convs c if_False ok_or.simps bind_res.simps
        restart_lookup [OF assms] w prod.case)
qed

lemma id_iter_at:
  assumes "length (id_stream ids) \<le> u32_max"
  shows "i + n = length ids \<Longrightarrow> (i mod RESTART \<noteq> 0 \<Longrightarrow> prev = ids ! (i - 1)) \<Longrightarrow>
    id_iter n (id_stream ids) (id_off ids i) prev = Inr (drop i ids)"
proof (induction n arbitrary: i prev)
  case 0
  then show ?case by simp
next
  case (Suc n)
  have "id_iter n (id_stream ids) (id_off ids (Suc i)) (ids ! i) = Inr (drop (Suc i) ids)"
    by (rule Suc.IH) (use Suc.prems in auto)
  then show ?case
    using Suc.prems id_entry_at [OF _ assms, of i prev]
    by (simp add: Cons_nth_drop_Suc del: id_off_Suc)
qed

lemma idcol_iter_of:
  "length (id_stream ids) \<le> u32_max \<Longrightarrow> idcol_iter (idcol_of ids) = Inr ids"
  using id_iter_at [of ids 0 "length ids" "[]"] by (simp add: idcol_iter_def idcol_of_def)

section \<open>Searching a sorted index\<close>

lemma search_groups_spec:
  assumes "lo \<le> hi" and "\<And>m. m < hi \<Longrightarrow> read (m * RESTART) = Inr (key m)"
    and "\<And>m n. m \<le> n \<Longrightarrow> n < hi \<Longrightarrow> before (key n) \<Longrightarrow> before (key m)"
  shows "\<exists>g. search_groups before read lo hi = Inr g \<and> lo \<le> g \<and> g \<le> hi \<and>
    (\<forall>m. lo \<le> m \<and> m < g \<longrightarrow> before (key m)) \<and> (\<forall>m. g \<le> m \<and> m < hi \<longrightarrow> \<not> before (key m))"
  using assms
proof (induction before read lo hi rule: search_groups.induct)
  case (1 before read lo hi)
  show ?case
  proof (cases "lo < hi")
    case False
    then show ?thesis using "1.prems"(1) by (subst search_groups.simps) auto
  next
    case True
    define mid where "mid = (lo + hi) div 2"
    have mid: "lo \<le> mid" "mid < hi" using True by (auto simp: mid_def)
    have rd: "read (mid * RESTART) = Inr (key mid)" using "1.prems"(2) mid by blast
    show ?thesis
    proof (cases "before (key mid)")
      case b: True
      have step: "search_groups before read lo hi = search_groups before read (mid + 1) hi"
        using True rd b by (subst search_groups.simps) (simp add: mid_def [symmetric] Let_def)
      have "\<exists>g. search_groups before read (mid + 1) hi = Inr g \<and> mid + 1 \<le> g \<and> g \<le> hi \<and>
        (\<forall>m. mid + 1 \<le> m \<and> m < g \<longrightarrow> before (key m)) \<and> (\<forall>m. g \<le> m \<and> m < hi \<longrightarrow> \<not> before (key m))"
        by (rule "1.IH"(1) [OF True mid_def rd b]) (use mid "1.prems" in auto)
      then obtain g where g: "search_groups before read (mid + 1) hi = Inr g" "mid + 1 \<le> g" "g \<le> hi"
        "\<And>m. mid + 1 \<le> m \<and> m < g \<Longrightarrow> before (key m)" "\<And>m. g \<le> m \<and> m < hi \<Longrightarrow> \<not> before (key m)"
        by blast
      have "before (key m)" if "m < g" for m
        using g(4) [of m] that "1.prems"(3) [of m mid] mid b by (cases "mid + 1 \<le> m") auto
      then show ?thesis using g step mid by auto
    next
      case b: False
      have step: "search_groups before read lo hi = search_groups before read lo mid"
        using True rd b by (subst search_groups.simps) (simp add: mid_def [symmetric] Let_def)
      have "\<exists>g. search_groups before read lo mid = Inr g \<and> lo \<le> g \<and> g \<le> mid \<and>
        (\<forall>m. lo \<le> m \<and> m < g \<longrightarrow> before (key m)) \<and> (\<forall>m. g \<le> m \<and> m < mid \<longrightarrow> \<not> before (key m))"
        by (rule "1.IH"(2) [OF True mid_def rd b]) (use mid "1.prems" in auto)
      then obtain g where g: "search_groups before read lo mid = Inr g" "lo \<le> g" "g \<le> mid"
        "\<And>m. lo \<le> m \<and> m < g \<Longrightarrow> before (key m)" "\<And>m. g \<le> m \<and> m < mid \<Longrightarrow> \<not> before (key m)"
        by blast
      have "\<not> before (key m)" if "g \<le> m" "m < hi" for m
        using g(5) [of m] that "1.prems"(3) [of mid m] b by (cases "m < mid") auto
      then show ?thesis using g step mid by auto
    qed
  qed
qed

lemma scan_for_spec:
  assumes "\<And>j. i \<le> j \<Longrightarrow> j < stop \<Longrightarrow> read j = Inr (ids ! j)"
    and "\<And>j k. i \<le> j \<Longrightarrow> j < k \<Longrightarrow> k < stop \<Longrightarrow> ids ! j < ids ! k"
  shows "\<exists>r. scan_for read needle i stop = Inr r \<and>
    (case r of Some j \<Rightarrow> i \<le> j \<and> j < stop \<and> ids ! j = needle
             | None \<Rightarrow> \<forall>j. i \<le> j \<and> j < stop \<longrightarrow> ids ! j \<noteq> needle)"
  using assms
proof (induction read needle i stop rule: scan_for.induct)
  case (1 read needle i stop)
  show ?case
  proof (cases "i < stop")
    case False
    then show ?thesis by (subst scan_for.simps) auto
  next
    case True
    have rd: "read i = Inr (ids ! i)" using "1.prems"(1) True by blast
    consider "ids ! i = needle" | "needle < ids ! i" | "ids ! i < needle" by (rule linorder_cases) auto
    then show ?thesis
    proof cases
      case 1
      then show ?thesis using True rd by (subst scan_for.simps) simp
    next
      case lt: 2
      have "ids ! j \<noteq> needle" if "i \<le> j" "j < stop" for j
        using "1.prems"(2) [of i j] that lt by (cases "i = j") auto
      then show ?thesis using True rd lt by (subst scan_for.simps) auto
    next
      case gt: 3
      have ne: "ids ! i \<noteq> needle" "\<not> needle < ids ! i" using gt by auto
      have "\<exists>r. scan_for read needle (i + 1) stop = Inr r \<and>
        (case r of Some j \<Rightarrow> i + 1 \<le> j \<and> j < stop \<and> ids ! j = needle
                 | None \<Rightarrow> \<forall>j. i + 1 \<le> j \<and> j < stop \<longrightarrow> ids ! j \<noteq> needle)"
        by (rule "1.IH" [OF True rd ne]) (use "1.prems" in auto)
      then obtain r where r: "scan_for read needle (i + 1) stop = Inr r"
        "case r of Some j \<Rightarrow> i + 1 \<le> j \<and> j < stop \<and> ids ! j = needle
                 | None \<Rightarrow> \<forall>j. i + 1 \<le> j \<and> j < stop \<longrightarrow> ids ! j \<noteq> needle" by blast
      have "ids ! j \<noteq> needle" if "r = None" "i \<le> j" "j < stop" for j
        using r(2) that ne(1) by (cases "j = i") auto
      moreover have "scan_for read needle i stop = Inr r"
        using True rd ne r(1) by (subst scan_for.simps) simp
      ultimately show ?thesis using r(2) by (cases r) auto
    qed
  qed
qed

lemma scan_from_spec:
  assumes "i \<le> stop" and "\<And>j. i \<le> j \<Longrightarrow> j < stop \<Longrightarrow> read j = Inr (ids ! j)"
  shows "\<exists>r. scan_from read needle i stop = Inr r \<and> i \<le> r \<and> r \<le> stop \<and>
    (\<forall>j. i \<le> j \<and> j < r \<longrightarrow> ids ! j < needle) \<and> (r < stop \<longrightarrow> needle \<le> ids ! r)"
  using assms
proof (induction read needle i stop rule: scan_from.induct)
  case (1 read needle i stop)
  show ?case
  proof (cases "i < stop \<and> ids ! i < needle")
    case False
    then show ?thesis using "1.prems" by (subst scan_from.simps) (auto simp: not_less)
  next
    case True
    then have rd: "read i = Inr (ids ! i)" and ne: "\<not> needle \<le> ids ! i" using "1.prems"(2) by auto
    have "\<exists>r. scan_from read needle (i + 1) stop = Inr r \<and> i + 1 \<le> r \<and> r \<le> stop \<and>
      (\<forall>j. i + 1 \<le> j \<and> j < r \<longrightarrow> ids ! j < needle) \<and> (r < stop \<longrightarrow> needle \<le> ids ! r)"
      by (rule "1.IH" [OF _ rd ne]) (use "1.prems" True in auto)
    then obtain r where r: "scan_from read needle (i + 1) stop = Inr r" "i + 1 \<le> r" "r \<le> stop"
      "\<And>j. i + 1 \<le> j \<and> j < r \<Longrightarrow> ids ! j < needle" "r < stop \<longrightarrow> needle \<le> ids ! r" by blast
    have "ids ! j < needle" if "i \<le> j" "j < r" for j using that True r(4) [of j] by (cases "i = j") auto
    moreover have "scan_from read needle i stop = Inr r"
      using True rd ne r(1) by (subst scan_from.simps) simp
    ultimately show ?thesis using r by auto
  qed
qed

lemma div_ceil_16_less: "m < div_ceil n 16 \<Longrightarrow> m * 16 < n"
proof -
  assume "m < div_ceil n 16"
  then have a: "m < (if n mod 16 = 0 then n div 16 else Suc (n div 16))" by (simp add: div_ceil_def)
  have e: "n div 16 * 16 + n mod 16 = n" by (rule div_mult_mod_eq)
  show ?thesis
  proof (cases "n mod 16 = 0")
    case True
    with a have "m < n div 16" by simp
    then have "m * 16 < n div 16 * 16" by simp
    with e show ?thesis by linarith
  next
    case False
    with a have "m \<le> n div 16" by simp
    then have "m * 16 \<le> n div 16 * 16" by simp
    with e False show ?thesis by linarith
  qed
qed

text \<open>
  What the searches rely on: an index made from a list of ids reads every one of them back, holds
  them in strictly increasing order, and has one restart group for every \<open>RESTART\<close> ids.
\<close>

locale id_index =
  fixes mk :: "bytes list \<Rightarrow> 'c outcome"
    and read :: "'c \<Rightarrow> nat \<Rightarrow> bytes outcome"
    and groups :: "'c \<Rightarrow> nat"
  assumes read_mk: "mk ids = Inr c \<Longrightarrow> i < length ids \<Longrightarrow> read c i = Inr (ids ! i)"
    and sorted_mk: "mk ids = Inr c \<Longrightarrow> sorted_wrt (<) ids"
    and groups_mk: "mk ids = Inr c \<Longrightarrow> groups c = div_ceil (length ids) RESTART"
begin

lemma group_start: "mk ids = Inr c \<Longrightarrow> m < groups c \<Longrightarrow> m * RESTART < length ids"
  unfolding groups_mk RESTART_def by (rule div_ceil_16_less)

lemma group_cover: "mk ids = Inr c \<Longrightarrow> length ids \<le> groups c * RESTART"
  by (auto simp: groups_mk div_ceil_def RESTART_def split: if_splits)

lemma nth_less: "mk ids = Inr c \<Longrightarrow> i < j \<Longrightarrow> j < length ids \<Longrightarrow> ids ! i < ids ! j"
  using sorted_mk by (simp add: sorted_wrt_nth_less)

lemma groups_found:
  assumes mk: "mk ids = Inr c" and anti: "\<And>a b. a \<le> b \<Longrightarrow> before b \<Longrightarrow> before a"
  obtains g where "search_groups before (read c) 0 (groups c) = Inr g" "g \<le> groups c"
    "\<And>m. m < g \<Longrightarrow> before (ids ! (m * RESTART))"
    "\<And>m. g \<le> m \<Longrightarrow> m < groups c \<Longrightarrow> \<not> before (ids ! (m * RESTART))"
proof -
  have "\<exists>g. search_groups before (read c) 0 (groups c) = Inr g \<and> 0 \<le> g \<and> g \<le> groups c \<and>
      (\<forall>m. 0 \<le> m \<and> m < g \<longrightarrow> before (ids ! (m * RESTART))) \<and>
      (\<forall>m. g \<le> m \<and> m < groups c \<longrightarrow> \<not> before (ids ! (m * RESTART)))"
  proof (rule search_groups_spec)
    fix m n
    assume "m \<le> n" "n < groups c" "before (ids ! (n * RESTART))"
    moreover have "ids ! (m * RESTART) \<le> ids ! (n * RESTART)"
      using \<open>m \<le> n\<close> \<open>n < groups c\<close> nth_less [OF mk, of "m * RESTART" "n * RESTART"] group_start [OF mk]
      by (cases "m = n") (auto simp: RESTART_def intro: less_imp_le)
    ultimately show "before (ids ! (m * RESTART))" using anti by blast
  qed (use read_mk [OF mk] group_start [OF mk] in auto)
  then show thesis using that by blast
qed

lemma find_in_group:
  assumes mk: "mk ids = Inr c" and ne: "ids \<noteq> []"
  shows "\<exists>r. bind_res (search_groups (\<lambda>first. first \<le> needle) (read c) 0 (groups c)) (\<lambda>lo.
      if lo = 0 then Inr None
      else let start = (lo - 1) * RESTART
           in scan_for (read c) needle start (min (start + RESTART) (length ids))) = Inr r \<and>
    (case r of Some i \<Rightarrow> i < length ids \<and> ids ! i = needle | None \<Rightarrow> needle \<notin> set ids)"
proof -
  obtain g where g: "search_groups (\<lambda>first. first \<le> needle) (read c) 0 (groups c) = Inr g" "g \<le> groups c"
    "\<And>m. m < g \<Longrightarrow> ids ! (m * RESTART) \<le> needle"
    "\<And>m. g \<le> m \<Longrightarrow> m < groups c \<Longrightarrow> \<not> ids ! (m * RESTART) \<le> needle"
    by (rule groups_found [OF mk, of "\<lambda>first. first \<le> needle"]) auto
  have above: "needle < ids ! j" if "g * RESTART \<le> j" "j < length ids" for j
  proof -
    have "g < groups c" using that group_cover [OF mk] by (auto simp: RESTART_def)
    then have "needle < ids ! (g * RESTART)" using g(4) [of g] by simp
    also have "ids ! (g * RESTART) \<le> ids ! j"
      using that nth_less [OF mk] by (cases "g * RESTART = j") (auto intro: less_imp_le)
    finally show ?thesis .
  qed
  show ?thesis
  proof (cases "g = 0")
    case True
    then have "needle \<notin> set ids" using above by (fastforce simp: in_set_conv_nth)
    then show ?thesis using g(1) True by simp
  next
    case False
    let ?start = "(g - 1) * RESTART"
    let ?stop = "min (?start + RESTART) (length ids)"
    have end_group: "?start + RESTART = g * RESTART" using False by (cases g) simp_all
    have "\<exists>r. scan_for (read c) needle ?start ?stop = Inr r \<and>
      (case r of Some j \<Rightarrow> ?start \<le> j \<and> j < ?stop \<and> ids ! j = needle
               | None \<Rightarrow> \<forall>j. ?start \<le> j \<and> j < ?stop \<longrightarrow> ids ! j \<noteq> needle)"
      by (rule scan_for_spec) (use read_mk [OF mk] nth_less [OF mk] in auto)
    then obtain r where r: "scan_for (read c) needle ?start ?stop = Inr r"
      "case r of Some j \<Rightarrow> ?start \<le> j \<and> j < ?stop \<and> ids ! j = needle
               | None \<Rightarrow> \<forall>j. ?start \<le> j \<and> j < ?stop \<longrightarrow> ids ! j \<noteq> needle" by blast
    have "needle \<notin> set ids" if n: "r = None"
    proof
      assume "needle \<in> set ids"
      then obtain j where j: "j < length ids" "ids ! j = needle" by (auto simp: in_set_conv_nth)
      have "j < g * RESTART" using above [of j] j by (meson less_irrefl not_le)
      moreover have "?start \<le> j"
      proof (rule ccontr)
        assume "\<not> ?start \<le> j"
        moreover have "?start < length ids" using group_start [OF mk, of "g - 1"] g(2) False by simp
        ultimately have "needle < ids ! ?start" using nth_less [OF mk, of j ?start] j by simp
        then show False using g(3) [of "g - 1"] False by simp
      qed
      ultimately show False using r(2) n j end_group by auto
    qed
    then show ?thesis using g(1) False r by (auto simp: Let_def split: option.splits)
  qed
qed

lemma lower_bound_in_group:
  assumes mk: "mk ids = Inr c"
  shows "\<exists>r. bind_res (search_groups (\<lambda>first. first < needle) (read c) 0 (groups c)) (\<lambda>lo.
      scan_from (read c) needle ((lo - 1) * RESTART) (length ids)) = Inr r \<and> r \<le> length ids \<and>
    (\<forall>j < r. ids ! j < needle) \<and> (\<forall>j. r \<le> j \<and> j < length ids \<longrightarrow> needle \<le> ids ! j)"
proof -
  obtain g where g: "search_groups (\<lambda>first. first < needle) (read c) 0 (groups c) = Inr g" "g \<le> groups c"
    "\<And>m. m < g \<Longrightarrow> ids ! (m * RESTART) < needle"
    by (rule groups_found [OF mk, of "\<lambda>first. first < needle"]) auto
  let ?start = "(g - 1) * RESTART"
  have start: "?start \<le> length ids"
    using group_start [OF mk, of "g - 1"] g(2) by (cases g) auto
  have "\<exists>r. scan_from (read c) needle ?start (length ids) = Inr r \<and> ?start \<le> r \<and> r \<le> length ids \<and>
      (\<forall>j. ?start \<le> j \<and> j < r \<longrightarrow> ids ! j < needle) \<and> (r < length ids \<longrightarrow> needle \<le> ids ! r)"
    by (rule scan_from_spec) (use start read_mk [OF mk] in auto)
  then obtain r where r: "scan_from (read c) needle ?start (length ids) = Inr r" "?start \<le> r" "r \<le> length ids"
      "\<And>j. ?start \<le> j \<Longrightarrow> j < r \<Longrightarrow> ids ! j < needle" "r < length ids \<longrightarrow> needle \<le> ids ! r" by blast
  have "ids ! j < needle" if "j < r" for j
  proof (cases "?start \<le> j")
    case False
    then have "g \<noteq> 0" by (cases g) auto
    then have "ids ! ?start < needle" using g(3) [of "g - 1"] by simp
    moreover have "?start < length ids" using group_start [OF mk, of "g - 1"] g(2) \<open>g \<noteq> 0\<close> by simp
    ultimately show ?thesis using nth_less [OF mk, of j ?start] False by (auto intro: less_trans)
  qed (use r that in blast)
  moreover have "needle \<le> ids ! j" if "r \<le> j" "j < length ids" for j
    using r(5) that nth_less [OF mk, of r j] by (cases "r = j") (auto intro: less_imp_le order_trans)
  ultimately show ?thesis using g(1) r by auto
qed

end

text \<open>A built column is such an index.\<close>

definition build_idcol :: "bytes list \<Rightarrow> idcol outcome" where
  "build_idcol ids = bind_res (build_ids ids) (\<lambda>(stream, restarts).
     Inr \<lparr> ic_stream = stream, ic_restarts = restarts, ic_len = length ids \<rparr>)"

lemma build_idcol_Inr_iff:
  "build_idcol ids = Inr c \<longleftrightarrow>
     sorted_wrt (<) ids \<and> length (id_stream ids) \<le> u32_max \<and> c = idcol_of ids"
  by (auto simp: build_idcol_def bind_res_Inr_iff build_ids_Inr_iff idcol_of_def split: prod.splits)

interpretation built: id_index build_idcol idcol_get "\<lambda>c. length (ic_restarts c)"
proof unfold_locales
  fix ids c i
  assume "build_idcol ids = Inr c" and "i < length ids"
  then show "idcol_get c i = Inr (ids ! i)" by (simp add: build_idcol_Inr_iff idcol_get_of)
qed (simp_all add: build_idcol_Inr_iff idcol_of_def id_restarts_def)

lemma idcol_find_built:
  assumes "build_idcol ids = Inr c"
  shows "\<exists>r. idcol_find c needle = Inr r \<and>
    (case r of Some i \<Rightarrow> i < length ids \<and> ids ! i = needle | None \<Rightarrow> needle \<notin> set ids)"
proof -
  have len: "ic_len c = length ids" using assms by (simp add: build_idcol_Inr_iff idcol_of_def)
  show ?thesis
  proof (cases "ids = []")
    case True
    then show ?thesis using len by (simp add: idcol_find_def)
  next
    case False
    then show ?thesis using built.find_in_group [OF assms False, of needle] unfolding idcol_find_def len by simp
  qed
qed

lemma idcol_lower_bound_built:
  assumes "build_idcol ids = Inr c"
  shows "\<exists>r. idcol_lower_bound c needle = Inr r \<and> r \<le> length ids \<and>
    (\<forall>j < r. ids ! j < needle) \<and> (\<forall>j. r \<le> j \<and> j < length ids \<longrightarrow> needle \<le> ids ! j)"
proof -
  have len: "ic_len c = length ids" using assms by (simp add: build_idcol_Inr_iff idcol_of_def)
  show ?thesis
    using built.lower_bound_in_group [OF assms, of needle] unfolding idcol_lower_bound_def len
    by (cases "ids = []") simp_all
qed

section \<open>What validation establishes\<close>

lemma id_entry_restart:
  assumes "get_varint stream at = Inr (0, at1)"
  shows "id_entry stream at cur = id_entry stream at []"
  using assms by (simp add: id_entry_def cong: if_cong)

lemma validate_ids_loop_step:
  assumes "validate_ids_loop (Suc n) stream restarts index at cur previous = Inr end"
  obtains cur' at' where "id_entry stream at cur = Inr (cur', at')"
    "index mod RESTART = 0 \<longrightarrow> unat (restarts ! (index div RESTART)) = at"
    "index mod RESTART = 0 \<longrightarrow> id_entry stream at [] = Inr (cur', at')"
    "cur' \<noteq> []" "utf8_ok cur'" "\<forall>prior. previous = Some prior \<longrightarrow> prior < cur'"
    "validate_ids_loop n stream restarts (index + 1) at' cur' (Some cur') = Inr end"
proof -
  from assms obtain shared at1 suf at2 where v1: "get_varint stream at = Inr (shared, at1)"
    and v2: "get_varint stream at1 = Inr (suf, at2)"
    by (auto simp: bind_res_Inr_iff split: prod.splits)
  let ?cur = "take (unat shared) cur @ slice stream at2 (at2 + unat suf)"
  from assms v1 v2 have r: "index mod RESTART = 0 \<longrightarrow> unat (restarts ! (index div RESTART)) = at"
    and z: "index mod RESTART = 0 \<Longrightarrow> unat shared = 0"
    and b: "\<not> (unat shared > length cur \<or> unat suf > length stream - at2)"
    and ne: "?cur \<noteq> []" and u: "utf8_ok ?cur"
    and o: "\<not> (case previous of None \<Rightarrow> False | Some prior \<Rightarrow> ?cur \<le> prior)"
    and rest: "validate_ids_loop n stream restarts (index + 1) (at2 + unat suf) ?cur (Some ?cur) = Inr end"
    by (simp_all only: validate_ids_loop.simps bind_res.simps prod.case Let_def split: if_splits) auto
  have e: "id_entry stream at cur = Inr (?cur, at2 + unat suf)"
    using v1 v2 b by (simp add: id_entry_def)
  show thesis
  proof (rule that [OF e r _ ne u _ rest])
    have "id_entry stream at [] = Inr (?cur, at2 + unat suf)" if "index mod RESTART = 0"
    proof -
      have "shared = 0" using z that by (metis unat_eq_0)
      then show ?thesis using e id_entry_restart [of stream at at1 cur] v1 by simp
    qed
    then show "index mod RESTART = 0 \<longrightarrow> id_entry stream at [] = Inr (?cur, at2 + unat suf)" by blast
    show "\<forall>prior. previous = Some prior \<longrightarrow> prior < ?cur" using o by (auto simp: not_le)
  qed
qed

lemma group_of_start:
  assumes "(i + k) mod 16 = k" and "k < (16 :: nat)"
  shows "i mod 16 = 0" and "(i + k) div 16 = i div 16"
proof -
  have "(i + k) mod 16 = k mod 16" using assms by simp
  then have "16 dvd i" using mod_eq_dvd_iff_nat [of k "i + k" 16] by simp
  then show "i mod 16 = 0" by simp
  from \<open>16 dvd i\<close> obtain q where "i = 16 * q" ..
  then show "(i + k) div 16 = i div 16" using assms(2) by simp
qed

lemma validate_ids_loop_sound:
  "validate_ids_loop n stream restarts index at cur previous = Inr end \<Longrightarrow>
   \<exists>ids. id_iter n stream at cur = Inr ids \<and> length ids = n \<and> sorted_wrt (<) ids \<and>
     (\<forall>i \<in> set ids. i \<noteq> [] \<and> utf8_ok i \<and> (\<forall>prior. previous = Some prior \<longrightarrow> prior < i)) \<and>
     (\<forall>k < n. let m = (index + k) mod RESTART in
        if m \<le> k then \<exists>e. id_walk (Suc m) stream (unat (restarts ! ((index + k) div RESTART))) [] = Inr (ids ! k, e)
        else \<exists>e. id_walk (Suc k) stream at cur = Inr (ids ! k, e))"
proof (induction n arbitrary: index at cur previous)
  case 0
  then show ?case by simp
next
  case (Suc n)
  from Suc.prems obtain cur' at' where e: "id_entry stream at cur = Inr (cur', at')"
    and r: "index mod RESTART = 0 \<longrightarrow> unat (restarts ! (index div RESTART)) = at"
    and e0: "index mod RESTART = 0 \<longrightarrow> id_entry stream at [] = Inr (cur', at')"
    and ok: "cur' \<noteq> []" "utf8_ok cur'" and gt: "\<forall>prior. previous = Some prior \<longrightarrow> prior < cur'"
    and rest: "validate_ids_loop n stream restarts (index + 1) at' cur' (Some cur') = Inr end"
    by (rule validate_ids_loop_step) (rule that, assumption+)
  from Suc.IH [OF rest] obtain ids where it: "id_iter n stream at' cur' = Inr ids"
    and len: "length ids = n" and srt: "sorted_wrt (<) ids"
    and all: "\<And>i. i \<in> set ids \<Longrightarrow> i \<noteq> [] \<and> utf8_ok i \<and> cur' < i"
    and walk: "\<And>k. k < n \<Longrightarrow> let m = (index + 1 + k) mod RESTART in
        if m \<le> k then \<exists>e. id_walk (Suc m) stream (unat (restarts ! ((index + 1 + k) div RESTART))) [] = Inr (ids ! k, e)
        else \<exists>e. id_walk (Suc k) stream at' cur' = Inr (ids ! k, e)"
    by auto
  have "let m = (index + k) mod RESTART in
      if m \<le> k then \<exists>e. id_walk (Suc m) stream (unat (restarts ! ((index + k) div RESTART))) [] = Inr ((cur' # ids) ! k, e)
      else \<exists>e. id_walk (Suc k) stream at cur = Inr ((cur' # ids) ! k, e)" if k: "k < Suc n" for k
  proof (cases k)
    case 0
    then show ?thesis using e e0 r by (simp add: Let_def)
  next
    case (Suc k')
    have ik: "index + 1 + k' = index + k" using Suc by simp
    note w = walk [of k', unfolded ik Let_def]
    let ?m = "(index + k) mod RESTART"
    consider "?m \<le> k'" | "?m = k" | "k < ?m" using Suc by linarith
    then show ?thesis
    proof cases
      case 1
      then show ?thesis using w k Suc by (simp add: Let_def)
    next
      case 2
      then have "k < RESTART" by (metis RESTART_def mod_less_divisor zero_less_numeral)
      then have dm: "index mod RESTART = 0" "(index + k) div RESTART = index div RESTART"
        using group_of_start [of index k] 2 by (simp_all only: RESTART_def)
      obtain e' where "id_walk (Suc k') stream at' cur' = Inr (ids ! k', e')" using w 2 k Suc by auto
      then show ?thesis using 2 dm e0 r Suc by (simp add: Let_def)
    next
      case 3
      obtain e' where "id_walk (Suc k') stream at' cur' = Inr (ids ! k', e')" using w 3 k Suc by auto
      then show ?thesis using 3 e Suc by (simp add: Let_def)
    qed
  qed
  moreover have "id_iter (Suc n) stream at cur = Inr (cur' # ids)" using e it by simp
  moreover have "sorted_wrt (<) (cur' # ids)" using srt all by simp
  moreover have "\<forall>i \<in> set (cur' # ids). i \<noteq> [] \<and> utf8_ok i \<and> (\<forall>prior. previous = Some prior \<longrightarrow> prior < i)"
    using ok all gt by (auto intro: less_trans)
  ultimately show ?case using len by (intro exI [of _ "cur' # ids"]) auto
qed

lemma idcol_validate_sound:
  assumes "idcol_validate c = Inr ()"
  shows "\<exists>ids. idcol_iter c = Inr ids \<and> length ids = ic_len c \<and> sorted_wrt (<) ids \<and>
    (\<forall>i \<in> set ids. i \<noteq> [] \<and> utf8_ok i) \<and> (\<forall>i < ic_len c. idcol_get c i = Inr (ids ! i))"
proof -
  from assms obtain e where len: "length (ic_restarts c) = div_ceil (ic_len c) RESTART"
    and v: "validate_ids_loop (ic_len c) (ic_stream c) (ic_restarts c) 0 0 [] None = Inr e"
    by (auto simp: idcol_validate_def bind_res_Inr_iff split: if_splits)
  from validate_ids_loop_sound [OF v] obtain ids where it: "id_iter (ic_len c) (ic_stream c) 0 [] = Inr ids"
    and ids: "length ids = ic_len c" "sorted_wrt (<) ids" "\<forall>i \<in> set ids. i \<noteq> [] \<and> utf8_ok i"
    and walk: "\<And>k. k < ic_len c \<Longrightarrow> \<exists>e. id_walk (Suc (k mod RESTART)) (ic_stream c)
        (unat (ic_restarts c ! (k div RESTART))) [] = Inr (ids ! k, e)"
    by (auto simp: Let_def)
  have "idcol_get c k = Inr (ids ! k)" if k: "k < ic_len c" for k
  proof -
    have "k div 16 < div_ceil (ic_len c) 16" using k by (rule div_16_less_div_ceil)
    then have "get_at (ic_restarts c) (k div RESTART) = Some (ic_restarts c ! (k div RESTART))"
      using len by (simp add: get_at_def RESTART_def)
    then show ?thesis using walk [OF k] k by (auto simp: idcol_get_def simp del: id_walk.simps)
  qed
  then show ?thesis using it ids by (auto simp: idcol_iter_def)
qed

section \<open>A build is validated\<close>

lemma id_off_drop_prev:
  assumes "i < length ids" and "length (id_stream ids) \<le> u32_max"
  shows "length (ids ! i) \<le> u64_max"
proof -
  have "id_off ids (Suc i) \<le> length (id_stream ids)"
    unfolding length_id_stream by (rule id_off_mono) (use assms in simp)
  then show ?thesis
    using id_length_le_off [OF assms(1)] assms(2) by (simp add: u32_max_def u64_max_def)
qed

lemma validate_ids_loop_at:
  assumes fits: "length (id_stream ids) \<le> u32_max" and srt: "sorted_wrt (<) ids"
    and ok: "\<forall>i \<in> set ids. i \<noteq> [] \<and> utf8_ok i"
  shows "i + n = length ids \<Longrightarrow>
    validate_ids_loop n (id_stream ids) (id_restarts ids) i (id_off ids i)
      (if i = 0 then [] else ids ! (i - 1)) (if i = 0 then None else Some (ids ! (i - 1)))
    = Inr (length (id_stream ids))"
proof (induction n arbitrary: i)
  case 0
  then show ?case by (simp add: length_id_stream)
next
  case (Suc n)
  let ?cur = "if i = 0 then [] else ids ! (i - 1)"
  have i: "i < length ids" using Suc.prems by simp
  have sh: "id_shared ids i \<le> length ?cur" "id_shared ids i \<le> length (ids ! i)"
    "take (id_shared ids i) ?cur = take (id_shared ids i) (ids ! i)"
    by (auto simp: id_shared_def shared_prefix_le take_shared_prefix)
  obtain at1 at2 where f: "get_varint (id_stream ids) (id_off ids i) = Inr (word_of_nat (id_shared ids i), at1)"
    "get_varint (id_stream ids) at1 = Inr (word_of_nat (length (ids ! i) - id_shared ids i), at2)"
    "unat (word_of_nat (id_shared ids i) :: u64) = id_shared ids i"
    "unat (word_of_nat (length (ids ! i) - id_shared ids i) :: u64) = length (ids ! i) - id_shared ids i"
    "length (ids ! i) - id_shared ids i \<le> length (id_stream ids) - at2"
    "take (id_shared ids i) ?cur @ slice (id_stream ids) at2 (at2 + (length (ids ! i) - id_shared ids i)) = ids ! i"
    "at2 + (length (ids ! i) - id_shared ids i) = id_off ids i + length (id_entry_of ids i)"
    using id_entry_fields [OF id_stream_drop(1) [OF i, unfolded id_entry_of_def] id_stream_drop(2) [OF i]
      sh id_off_drop_prev [OF i fits]] unfolding id_entry_of_def by blast
  have r: "\<not> (i mod RESTART = 0 \<and> unat (id_restarts ids ! (i div RESTART)) \<noteq> id_off ids i)"
  proof (cases "i mod RESTART = 0")
    case True
    then have e: "i div RESTART * RESTART = i" by auto
    show ?thesis using restart_lookup [OF fits i] unfolding e by (simp add: get_at_Some_iff)
  qed simp
  have z: "\<not> (i mod RESTART = 0 \<and> id_shared ids i \<noteq> 0)" by (simp add: id_shared_def)
  have o: "\<not> (case if i = 0 then None else Some (ids ! (i - 1)) of None \<Rightarrow> False | Some prior \<Rightarrow> ids ! i \<le> prior)"
    using srt i by (auto simp: strict_sorted_nth not_le)
  have m: "ids ! i \<noteq> []" "utf8_ok (ids ! i)" using ok i by simp_all
  have next_step: "validate_ids_loop n (id_stream ids) (id_restarts ids) (i + 1) (id_off ids i + length (id_entry_of ids i))
      (ids ! i) (Some (ids ! i)) = Inr (length (id_stream ids))"
    using Suc.IH [of "Suc i"] Suc.prems by simp
  have b: "\<not> (id_shared ids i > length ?cur \<or> length (ids ! i) - id_shared ids i > length (id_stream ids) - at2)"
    using sh(1) f(5) by (auto simp del: One_nat_def)
  show ?case
    unfolding validate_ids_loop.simps f(1) bind_res.simps prod.case f(2) f(3,4) if_not_P [OF r] if_not_P [OF z]
      if_not_P [OF b] f(7) f(6) [unfolded f(7)] Let_def if_not_P [OF m(1)] if_not_P [OF o]
    using m(2) next_step by simp
qed

lemma idcol_validate_of:
  assumes "length (id_stream ids) \<le> u32_max" and "sorted_wrt (<) ids"
    and "\<forall>i \<in> set ids. i \<noteq> [] \<and> utf8_ok i"
  shows "idcol_validate (idcol_of ids) = Inr ()"
  using validate_ids_loop_at [OF assms, of 0 "length ids"]
  by (simp add: idcol_validate_def idcol_of_def id_restarts_def)

section \<open>The streaming cursor\<close>

text \<open>The ids a cursor yields over \<open>n\<close> calls, the loop of a merge that owns one.\<close>

fun cursor_drain :: "nat \<Rightarrow> id_cursor \<Rightarrow> bytes list outcome" where
  "cursor_drain 0 k = Inr []"
| "cursor_drain (Suc n) k =
     bind_res (cursor_next k) (\<lambda>(x, k).
       case x of None \<Rightarrow> Inr []
       | Some i \<Rightarrow> bind_res (cursor_drain n k) (\<lambda>out. Inr (i # out)))"

lemma cursor_drain_iter:
  "cu_done k + n = cu_len k \<Longrightarrow> n \<le> m \<Longrightarrow>
   cursor_drain m k = id_iter n (cu_stream k) (cu_at k) (cu_cur k)"
proof (induction n arbitrary: m k)
  case 0
  then show ?case by (cases m) (simp_all add: cursor_next_def)
next
  case (Suc n)
  then obtain m' where m: "m = Suc m'" "n \<le> m'" by (cases m) auto
  have IH: "cursor_drain m' (k\<lparr>cu_at := a, cu_done := cu_done k + 1, cu_cur := c\<rparr>)
      = id_iter n (cu_stream k) a c" for a c
    using Suc.IH [of "k\<lparr>cu_at := a, cu_done := cu_done k + 1, cu_cur := c\<rparr>" m'] Suc.prems m by simp
  show ?case
    using Suc.prems IH by (cases "id_entry (cu_stream k) (cu_at k) (cu_cur k)")
      (auto simp: m cursor_next_def split: prod.splits)
qed

section \<open>Properties\<close>

text \<open>C21. A built id column reads back as the ids it was built from: the build succeeds only on
  strictly increasing ids, the full scan returns them in order, and random access returns the id
  at every index and refuses every other index.\<close>

theorem built_column_reads_back:
  assumes "build_idcol ids = Inr c"
  shows "sorted_wrt (<) ids \<and> idcol_iter c = Inr ids \<and>
    idcol_get c i = (if i < length ids then Inr (ids ! i) else Inl (Bail ''id index out of range''))"
proof (cases "i < length ids")
  case True
  then show ?thesis using assms by (simp add: build_idcol_Inr_iff idcol_get_of idcol_iter_of)
next
  case False
  then show ?thesis
    using assms by (simp add: build_idcol_Inr_iff idcol_iter_of idcol_get_def) (simp add: idcol_of_def)
qed

theorem built_column_reads_back_witness:
  "\<exists>c. build_idcol [[97], [97, 98]] = Inr c \<and> idcol_get c 1 = Inr [97, 98] \<and> idcol_iter c = Inr [[97], [97, 98]]"
proof -
  have b: "build_idcol [[97], [97, 98]] =
      Inr \<lparr> ic_stream = [0, 1, 97, 1, 1, 98], ic_restarts = [0], ic_len = 2 \<rparr>"
    by (simp add: build_idcol_def build_ids_def id_entry_bytes_def RESTART_def checked_stream_end_def
        checked_add_def u32_max_def u64_max_def put_varint_byte Let_def)
  from built_column_reads_back [OF b, of 1] show ?thesis using b by auto
qed

text \<open>C22. Looking an id up in a built column is correct and total: the two-level search returns the
  index of the id when it is present and nothing when it is absent, and never an error.\<close>

theorem column_find_correct:
  assumes "build_idcol ids = Inr c"
  shows "\<exists>r. idcol_find c needle = Inr r \<and> (r = None \<longleftrightarrow> needle \<notin> set ids) \<and>
    (\<forall>i. r = Some i \<longleftrightarrow> i < length ids \<and> ids ! i = needle)"
proof -
  obtain r where r: "idcol_find c needle = Inr r"
    "case r of Some i \<Rightarrow> i < length ids \<and> ids ! i = needle | None \<Rightarrow> needle \<notin> set ids"
    using idcol_find_built [OF assms] by blast
  have d: "distinct ids" using assms by (simp add: build_idcol_Inr_iff strict_sorted_iff)
  show ?thesis
  proof (cases r)
    case None
    then show ?thesis using r by (auto simp: in_set_conv_nth)
  next
    case (Some k)
    then show ?thesis using r d by (auto simp: nth_eq_iff_index_eq)
  qed
qed

theorem column_find_correct_witness:
  "\<exists>c. build_idcol [[97], [99]] = Inr c \<and> idcol_find c [99] = Inr (Some 1) \<and> idcol_find c [98] = Inr None"
proof -
  obtain c where b: "build_idcol [[97], [99]] = Inr c"
    by (simp add: build_idcol_def build_ids_def id_entry_bytes_def RESTART_def checked_stream_end_def
        checked_add_def u32_max_def u64_max_def put_varint_byte Let_def)
  have "idcol_find c [99] = Inr (Some 1)"
    using column_find_correct [OF b, of "[99]"] by (metis One_nat_def length_Cons lessI list.size(3) nth_Cons_0 nth_Cons_Suc)
  moreover have "idcol_find c [98] = Inr None"
    using column_find_correct [OF b, of "[98]"] by auto
  ultimately show ?thesis using b by blast
qed

text \<open>C23. The lower bound of a built column is the first index whose id is not below the needle:
  everything before it is smaller and everything from it on is not.\<close>

theorem column_lower_bound_correct:
  assumes "build_idcol ids = Inr c"
  shows "idcol_lower_bound c needle = Inr (length (filter (\<lambda>i. i < needle) ids))"
proof -
  obtain r where r: "idcol_lower_bound c needle = Inr r" "r \<le> length ids"
    and below: "\<And>j. j < r \<Longrightarrow> ids ! j < needle"
    and above: "\<And>j. r \<le> j \<Longrightarrow> j < length ids \<Longrightarrow> needle \<le> ids ! j"
    using idcol_lower_bound_built [OF assms] by blast
  have "filter (\<lambda>i. i < needle) (take r ids) = take r ids"
    by (rule filter_True) (use below r(2) in \<open>auto simp: in_set_conv_nth\<close>)
  moreover have "filter (\<lambda>i. i < needle) (drop r ids) = []"
    using above by (auto simp: filter_empty_conv in_set_conv_nth not_less)
  ultimately have "filter (\<lambda>i. i < needle) ids = take r ids"
    by (metis append_Nil2 append_take_drop_id filter_append)
  then show ?thesis using r by simp
qed

theorem column_lower_bound_correct_witness:
  "\<exists>c. build_idcol [[97], [99]] = Inr c \<and> idcol_lower_bound c [98] = Inr 1"
proof -
  obtain c where b: "build_idcol [[97], [99]] = Inr c"
    by (simp add: build_idcol_def build_ids_def id_entry_bytes_def RESTART_def checked_stream_end_def
        checked_add_def u32_max_def u64_max_def put_varint_byte Let_def)
  have "[97] < [98 :: byte]" "\<not> [99] < [98 :: byte]" by simp_all
  with column_lower_bound_correct [OF b, of "[98]"] b show ?thesis by auto
qed

text \<open>C24. A column that passes validation is a strictly increasing list of non-empty UTF-8 ids, and its
  two readers agree on it: the scan yields the list, and random access through the restart table
  yields the same id at every index. Validation accepts every column the builder produces from
  such ids.\<close>

theorem column_validation_sound:
  assumes "idcol_validate c = Inr ()"
  shows "\<exists>ids. idcol_iter c = Inr ids \<and> length ids = ic_len c \<and> sorted_wrt (<) ids \<and>
    (\<forall>i \<in> set ids. i \<noteq> [] \<and> utf8_ok i) \<and> (\<forall>i < ic_len c. idcol_get c i = Inr (ids ! i))"
  by (rule idcol_validate_sound [OF assms])

theorem column_validation_sound_witness:
  "\<exists>ids. idcol_iter \<lparr> ic_stream = [0, 1, 97, 1, 1, 98], ic_restarts = [0], ic_len = 2 \<rparr> = Inr ids \<and> length ids = 2"
proof -
  let ?c = "\<lparr> ic_stream = [0, 1, 97, 1, 1, 98], ic_restarts = [0], ic_len = 2 \<rparr>"
  have b: "build_idcol [[97], [97, 98]] = Inr ?c"
    by (simp add: build_idcol_def build_ids_def id_entry_bytes_def RESTART_def checked_stream_end_def
        checked_add_def u32_max_def u64_max_def put_varint_byte Let_def)
  have "idcol_validate ?c = Inr ()"
    using idcol_validate_of [of "[[97], [97, 98]]"] b by (simp add: build_idcol_Inr_iff)
  from column_validation_sound [OF this] show ?thesis by auto
qed

text \<open>C25. The builder never writes a column the validator refuses: when a build of non-empty UTF-8 ids
  succeeds, the restart table, the shared prefixes, the order and the end of the stream all pass.\<close>

theorem column_build_validates:
  assumes "build_idcol ids = Inr c" and "list_all (\<lambda>i. i \<noteq> [] \<and> utf8_ok i) ids"
  shows "idcol_validate c = Inr ()"
  using assms idcol_validate_of [of ids] by (simp add: build_idcol_Inr_iff list_all_iff)

theorem column_build_validates_witness:
  "\<exists>c. build_idcol [[97], [99]] = Inr c \<and> idcol_validate c = Inr ()"
proof -
  obtain c where b: "build_idcol [[97], [99]] = Inr c"
    by (simp add: build_idcol_def build_ids_def id_entry_bytes_def RESTART_def checked_stream_end_def
        checked_add_def u32_max_def u64_max_def put_varint_byte Let_def)
  then show ?thesis using column_build_validates [OF b] by simp
qed

text \<open>C26. The streaming cursor a merge owns yields what the full scan returns, on every column, valid or
  corrupt: after as many steps as the column has ids it has produced the same list or failed with
  the same error.\<close>

theorem cursor_agrees_with_scan:
  assumes "ic_len c \<le> n"
  shows "cursor_drain n (idcol_cursor c) = idcol_iter c"
  using cursor_drain_iter [of "idcol_cursor c" "ic_len c" n] assms
  by (simp add: idcol_cursor_def idcol_iter_def)

theorem cursor_agrees_with_scan_witness:
  "cursor_drain 3 (idcol_cursor \<lparr> ic_stream = [0, 1, 97, 1], ic_restarts = [0], ic_len = 2 \<rparr>) =
   idcol_iter \<lparr> ic_stream = [0, 1, 97, 1], ic_restarts = [0], ic_len = 2 \<rparr>"
  by (rule cursor_agrees_with_scan) simp

end
