(* ===== verification/Block.thy ===== *)
theory Block
  imports Types
begin

text \<open>
  The block frame and piece locations (\<open>src/src/fold/block.rs\<close>): the unit in which the fold
  stores content. A frame is a 16-byte header, the payload and a 4-byte checksum; a location names
  a block by its id and a piece inside the block's decompressed bytes. BLAKE3 is the parameter
  \<open>blake3\<close>; the code relies on its digests having 32 bytes and on nothing else here.
\<close>

definition BLOCK_TAG :: byte where "BLOCK_TAG = 0xA5"
definition BLOCK_HDR_LEN :: nat where "BLOCK_HDR_LEN = 16"
definition BLOCK_XSUM_LEN :: nat where "BLOCK_XSUM_LEN = 4"
definition BLOCK_OVERHEAD :: nat where "BLOCK_OVERHEAD = BLOCK_HDR_LEN + BLOCK_XSUM_LEN"
definition CODEC_STORED :: byte where "CODEC_STORED = 0"
definition CODEC_ZSTD :: byte where "CODEC_ZSTD = 1"
definition CODEC_ZSTD_DICT :: byte where "CODEC_ZSTD_DICT = 2"
definition BLOCK_TARGET_DEFAULT :: nat where "BLOCK_TARGET_DEFAULT = 4 * 1024 * 1024"

lemmas block_consts = BLOCK_TAG_def BLOCK_HDR_LEN_def BLOCK_XSUM_LEN_def BLOCK_OVERHEAD_def
  CODEC_STORED_def CODEC_ZSTD_def CODEC_ZSTD_DICT_def

section \<open>Locations\<close>

datatype loc = Loc (block_id: u32) (in_off: u32) (raw_len: u32)

text \<open>The derived order compares the fields in declaration order.\<close>

instantiation loc :: linorder
begin

definition less_eq_loc :: "loc \<Rightarrow> loc \<Rightarrow> bool" where
  "less_eq_loc a b \<longleftrightarrow>
     block_id a < block_id b \<or> (block_id a = block_id b \<and>
       (in_off a < in_off b \<or> (in_off a = in_off b \<and> raw_len a \<le> raw_len b)))"

definition less_loc :: "loc \<Rightarrow> loc \<Rightarrow> bool" where
  "less_loc a b \<longleftrightarrow>
     block_id a < block_id b \<or> (block_id a = block_id b \<and>
       (in_off a < in_off b \<or> (in_off a = in_off b \<and> raw_len a < raw_len b)))"

instance
proof
  fix x y z :: loc
  show "x < y \<longleftrightarrow> x \<le> y \<and> \<not> y \<le> x" by (auto simp: less_eq_loc_def less_loc_def)
  show "x \<le> x" by (simp add: less_eq_loc_def)
  show "x \<le> y \<Longrightarrow> y \<le> z \<Longrightarrow> x \<le> z" by (auto simp: less_eq_loc_def)
  show "x \<le> y \<Longrightarrow> y \<le> x \<Longrightarrow> x = y" by (cases x; cases y) (auto simp: less_eq_loc_def)
  show "x \<le> y \<or> y \<le> x" by (auto simp: less_eq_loc_def)
qed

end

definition loc_default :: loc where "loc_default = Loc 0 0 0"

definition LOC_WIDTH :: nat where "LOC_WIDTH = 12"

definition loc_encode :: "loc \<Rightarrow> bytes" where
  "loc_encode l = le32 (block_id l) @ le32 (in_off l) @ le32 (raw_len l)"

definition loc_decode :: "bytes \<Rightarrow> loc outcome" where
  "loc_decode b =
    (if length b < LOC_WIDTH then Inl (Bail ''Loc needs 12 bytes'')
     else Inr (Loc (u32_of_le (slice b 0 4)) (u32_of_le (slice b 4 8)) (u32_of_le (slice b 8 12))))"

lemma length_loc_encode [simp]: "length (loc_encode l) = LOC_WIDTH"
  by (simp add: loc_encode_def LOC_WIDTH_def)

lemma loc_decode_encode: "loc_decode (loc_encode l @ rest) = Inr l"
  by (simp add: loc_decode_def loc_encode_def LOC_WIDTH_def slice_def)

section \<open>Block headers\<close>

record block_hdr =
  bh_block_id :: u32
  bh_codec :: byte
  bh_raw :: u32
  bh_stored :: u32
  bh_r16 :: bytes

definition frame_len :: "block_hdr \<Rightarrow> nat" where
  "frame_len h = BLOCK_OVERHEAD + unat (bh_stored h)"

definition frame_span_usize :: "u32 \<Rightarrow> nat outcome" where
  "frame_span_usize stored =
    (if BLOCK_OVERHEAD + unat stored \<le> usize_max then Inr (BLOCK_OVERHEAD + unat stored)
     else Inl (Bail ''fold block frame length exceeds the address space''))"

definition parse_hdr :: "bytes \<Rightarrow> bool \<Rightarrow> block_hdr outcome" where
  "parse_hdr b seg_has_dict =
    (if length b < BLOCK_HDR_LEN then Inl (Bail ''block header truncated'')
     else if b ! 0 \<noteq> BLOCK_TAG then Inl (Bail ''block tag mismatch'')
     else let codec = b ! 1 in
       if codec > CODEC_ZSTD_DICT then Inl (Bail ''unknown block codec'')
       else let raw = u32_of_le (slice b 2 6); stored = u32_of_le (slice b 6 10) in
         if raw = 0 then Inl (Bail ''fold block raw length must be non-zero'')
         else if stored > raw then Inl (Bail ''block stored > raw'')
         else if codec = CODEC_STORED \<and> raw \<noteq> stored then
           Inl (Bail ''stored-codec block with raw != stored'')
         else if codec = CODEC_ZSTD_DICT \<and> \<not> seg_has_dict then
           Inl (Bail ''dictionary-coded block in a segment that names no dictionary'')
         else Inr \<lparr> bh_block_id = u32_of_le (slice b 12 16), bh_codec = codec, bh_raw = raw,
                    bh_stored = stored, bh_r16 = [b ! 10, b ! 11] \<rparr>)"

section \<open>Frames\<close>

definition xsum :: "(bytes \<Rightarrow> digest) \<Rightarrow> bytes \<Rightarrow> bytes" where
  "xsum blake3 frame_prefix = take BLOCK_XSUM_LEN (blake3 frame_prefix)"

definition block_encode ::
  "(bytes \<Rightarrow> digest) \<Rightarrow> u32 \<Rightarrow> byte \<Rightarrow> bytes \<Rightarrow> bytes \<Rightarrow> bytes outcome" where
  "block_encode blake3 bid codec raw_block payload =
    (if raw_block = [] then Inl (Bail ''cannot encode an empty fold block'')
     else if length raw_block > u32_max \<or> length payload > u32_max then
       Inl (Bail ''block exceeds the u32 frame fields'')
     else bind_res (frame_span_usize (word_of_nat (length payload))) (\<lambda>span.
       let out = [BLOCK_TAG, codec] @ le32 (word_of_nat (length raw_block))
                 @ le32 (word_of_nat (length payload)) @ take 2 (blake3 raw_block)
                 @ le32 bid @ payload
       in Inr (out @ xsum blake3 out)))"

definition verify_frame_bytes :: "(bytes \<Rightarrow> digest) \<Rightarrow> bytes \<Rightarrow> bool \<Rightarrow> block_hdr outcome" where
  "verify_frame_bytes blake3 frame seg_has_dict =
     bind_res (parse_hdr frame seg_has_dict) (\<lambda>hdr.
     bind_res (frame_span_usize (bh_stored hdr)) (\<lambda>span.
     let end = span - BLOCK_XSUM_LEN in
     if length frame < span then Inl (Bail ''block truncated'')
     else if xsum blake3 (slice frame 0 end) \<noteq> slice frame end (end + BLOCK_XSUM_LEN) then
       Inl (Bail ''block checksum mismatch'')
     else Inr hdr))"

section \<open>Facts\<close>

lemma frame_span_ok [simp]: "frame_span_usize s = Inr (BLOCK_OVERHEAD + unat s)"
  using unat_u32_le_max [of s] by (simp add: frame_span_usize_def usize_max_def u32_max_def block_consts)

definition hdr_ok :: "bool \<Rightarrow> block_hdr \<Rightarrow> bool" where
  "hdr_ok seg_has_dict h \<longleftrightarrow>
     bh_codec h \<le> CODEC_ZSTD_DICT \<and> bh_raw h \<noteq> 0 \<and> bh_stored h \<le> bh_raw h \<and>
     (bh_codec h = CODEC_STORED \<longrightarrow> bh_raw h = bh_stored h) \<and>
     (bh_codec h = CODEC_ZSTD_DICT \<longrightarrow> seg_has_dict) \<and> length (bh_r16 h) = 2"

text \<open>The 16 bytes a header is read from, as a function of the header.\<close>

definition hdr_bytes :: "block_hdr \<Rightarrow> bytes" where
  "hdr_bytes h = [BLOCK_TAG, bh_codec h] @ le32 (bh_raw h) @ le32 (bh_stored h) @ bh_r16 h @ le32 (bh_block_id h)"

lemma length_hdr_bytes: "length (bh_r16 h) = 2 \<Longrightarrow> length (hdr_bytes h) = BLOCK_HDR_LEN"
  by (simp add: hdr_bytes_def BLOCK_HDR_LEN_def)

lemma parse_hdr_exact:
  assumes "parse_hdr b d = Inr h"
  shows "hdr_ok d h" and "take BLOCK_HDR_LEN b = hdr_bytes h" and "BLOCK_HDR_LEN \<le> length b"
proof -
  from assms have len: "16 \<le> length b" and b0: "b ! 0 = BLOCK_TAG"
    and h: "h = \<lparr> bh_block_id = u32_of_le (slice b 12 16), bh_codec = b ! 1, bh_raw = u32_of_le (slice b 2 6),
                    bh_stored = u32_of_le (slice b 6 10), bh_r16 = [b ! 10, b ! 11] \<rparr>"
    by (auto simp: parse_hdr_def Let_def BLOCK_HDR_LEN_def split: if_splits)
  show "hdr_ok d h"
    using assms by (auto simp: parse_hdr_def Let_def hdr_ok_def split: if_splits)
  show "BLOCK_HDR_LEN \<le> length b" using len by (simp add: BLOCK_HDR_LEN_def)
  have "slice b 0 16 = slice b 0 2 @ slice b 2 6 @ slice b 6 10 @ slice b 10 12 @ slice b 12 16"
    by (simp add: slice_append)
  moreover have "slice b 0 2 = [b ! 0, b ! 1]" "slice b 10 12 = [b ! 10, b ! 11]"
    using len by (auto simp: slice_def list_eq_iff_nth_eq nth_Cons' less_2_cases_iff)
  ultimately show "take BLOCK_HDR_LEN b = hdr_bytes h"
    using len b0 h by (simp add: hdr_bytes_def le32_u32_of_le slice_def BLOCK_HDR_LEN_def)
qed

lemma parse_hdr_bytes:
  assumes "hdr_ok d h"
  shows "parse_hdr (hdr_bytes h @ rest) d = Inr h"
proof -
  obtain x y where r16: "bh_r16 h = [x, y]"
    using assms by (auto simp: hdr_ok_def length_Suc_conv numeral_2_eq_2)
  let ?b = "hdr_bytes h @ rest"
  have b: "?b = [BLOCK_TAG, bh_codec h] @ le32 (bh_raw h) @ le32 (bh_stored h) @ [x, y] @ le32 (bh_block_id h) @ rest"
    by (simp add: hdr_bytes_def r16)
  have s: "slice ?b 2 6 = le32 (bh_raw h)" "slice ?b 6 10 = le32 (bh_stored h)"
    "slice ?b 12 16 = le32 (bh_block_id h)" "?b ! 0 = BLOCK_TAG" "?b ! 1 = bh_codec h"
    "?b ! 10 = x" "?b ! 11 = y" "(length ?b < BLOCK_HDR_LEN) = False"
    unfolding b by (simp_all add: slice_def nth_append BLOCK_HDR_LEN_def)
  show ?thesis
    unfolding parse_hdr_def s Let_def if_False using assms r16 by (simp add: hdr_ok_def not_less)
qed

section \<open>Frames written are frames verified\<close>

definition hdr_of :: "(bytes \<Rightarrow> digest) \<Rightarrow> u32 \<Rightarrow> byte \<Rightarrow> bytes \<Rightarrow> bytes \<Rightarrow> block_hdr" where
  "hdr_of blake3 bid codec raw_block payload =
     \<lparr> bh_block_id = bid, bh_codec = codec, bh_raw = word_of_nat (length raw_block),
       bh_stored = word_of_nat (length payload), bh_r16 = take 2 (blake3 raw_block) \<rparr>"

lemma unat_u32_of_nat: "n \<le> u32_max \<Longrightarrow> unat (word_of_nat n :: u32) = n"
  by (simp add: unat_of_nat u32_max_def)

text \<open>What the callers of \<open>encode\<close> guarantee; the first conjunct is its debug assertion.\<close>

definition encodable :: "bool \<Rightarrow> byte \<Rightarrow> bytes \<Rightarrow> bytes \<Rightarrow> bool" where
  "encodable seg_has_dict codec raw_block payload \<longleftrightarrow>
     length payload \<le> length raw_block \<and> codec \<le> CODEC_ZSTD_DICT \<and>
     (codec = CODEC_STORED \<longrightarrow> length payload = length raw_block) \<and>
     (codec = CODEC_ZSTD_DICT \<longrightarrow> seg_has_dict)"

lemma block_encode_Inr:
  assumes "block_encode blake3 bid codec raw_block payload = Inr frame"
  shows "raw_block \<noteq> []" and "length raw_block \<le> u32_max" and "length payload \<le> u32_max"
    and "frame = (hdr_bytes (hdr_of blake3 bid codec raw_block payload) @ payload) @
      xsum blake3 (hdr_bytes (hdr_of blake3 bid codec raw_block payload) @ payload)"
  using assms by (auto simp: block_encode_def hdr_of_def hdr_bytes_def Let_def split: if_splits)

lemma block_encode_ok:
  "raw_block \<noteq> [] \<Longrightarrow> length raw_block \<le> u32_max \<Longrightarrow> length payload \<le> u32_max \<Longrightarrow>
   is_ok (block_encode blake3 bid codec raw_block payload)"
  by (simp add: block_encode_def Let_def)

lemma hdr_ok_of:
  assumes "encodable d codec raw_block payload" and "raw_block \<noteq> []" and "length raw_block \<le> u32_max"
    and "\<And>x. length (blake3 x) = 32"
  shows "hdr_ok d (hdr_of blake3 bid codec raw_block payload)"
proof -
  have u: "unat (word_of_nat (length raw_block) :: u32) = length raw_block"
    "unat (word_of_nat (length payload) :: u32) = length payload"
    using assms by (simp_all add: unat_u32_of_nat encodable_def)
  have "(word_of_nat (length raw_block) :: u32) \<noteq> 0" using u(1) assms(2) by (metis length_0_conv unat_0)
  moreover have "(word_of_nat (length payload) :: u32) \<le> word_of_nat (length raw_block)"
    using u assms(1) by (simp add: word_le_nat_alt encodable_def)
  ultimately show ?thesis using assms by (auto simp: hdr_ok_def hdr_of_def encodable_def)
qed

lemma verify_frame_bytes_frame:
  assumes "hdr_ok d h" and "length payload = unat (bh_stored h)" and "\<And>x. length (blake3 x) = 32"
  shows "verify_frame_bytes blake3
    ((hdr_bytes h @ payload) @ xsum blake3 (hdr_bytes h @ payload) @ rest) d = Inr h"
proof -
  let ?p = "hdr_bytes h @ payload"
  have r16: "length (bh_r16 h) = 2" using assms(1) by (simp add: hdr_ok_def)
  have lp: "length ?p = BLOCK_HDR_LEN + unat (bh_stored h)"
    using length_hdr_bytes [OF r16] assms(2) by simp
  have lx: "length (xsum blake3 ?p) = BLOCK_XSUM_LEN"
    using assms(3) by (simp add: xsum_def BLOCK_XSUM_LEN_def)
  have e: "BLOCK_OVERHEAD + unat (bh_stored h) - BLOCK_XSUM_LEN = length ?p"
    unfolding lp by (simp add: BLOCK_OVERHEAD_def)
  have parse: "parse_hdr (?p @ xsum blake3 ?p @ rest) d = Inr h"
    using parse_hdr_bytes [OF assms(1)] by simp
  have "slice (?p @ xsum blake3 ?p @ rest) 0 (length ?p) = ?p" by (simp add: slice_def)
  moreover have "slice (?p @ xsum blake3 ?p @ rest) (length ?p) (length ?p + BLOCK_XSUM_LEN) = xsum blake3 ?p"
    using lx by (simp add: slice_def)
  moreover have "\<not> length (?p @ xsum blake3 ?p @ rest) < BLOCK_OVERHEAD + unat (bh_stored h)"
    unfolding length_append [of ?p] lp using lx by (simp add: BLOCK_OVERHEAD_def)
  ultimately show ?thesis unfolding verify_frame_bytes_def parse by (simp add: Let_def e)
qed

lemma verify_frame_bytes_Inr:
  assumes "verify_frame_bytes blake3 frame d = Inr h"
  shows "hdr_ok d h" and "BLOCK_OVERHEAD + unat (bh_stored h) \<le> length frame"
    and "take BLOCK_HDR_LEN frame = hdr_bytes h"
    and "slice frame (BLOCK_HDR_LEN + unat (bh_stored h)) (BLOCK_OVERHEAD + unat (bh_stored h))
      = xsum blake3 (take (BLOCK_HDR_LEN + unat (bh_stored h)) frame)"
proof -
  from assms have p: "parse_hdr frame d = Inr h" and l: "BLOCK_OVERHEAD + unat (bh_stored h) \<le> length frame"
    and x: "xsum blake3 (slice frame 0 (BLOCK_OVERHEAD + unat (bh_stored h) - BLOCK_XSUM_LEN)) =
      slice frame (BLOCK_OVERHEAD + unat (bh_stored h) - BLOCK_XSUM_LEN)
        (BLOCK_OVERHEAD + unat (bh_stored h) - BLOCK_XSUM_LEN + BLOCK_XSUM_LEN)"
    by (auto simp: verify_frame_bytes_def bind_res_Inr_iff Let_def split: if_splits)
  show "hdr_ok d h" "take BLOCK_HDR_LEN frame = hdr_bytes h" using parse_hdr_exact [OF p] by simp_all
  show "BLOCK_OVERHEAD + unat (bh_stored h) \<le> length frame" by (rule l)
  have e: "BLOCK_OVERHEAD + unat (bh_stored h) - BLOCK_XSUM_LEN = BLOCK_HDR_LEN + unat (bh_stored h)"
    by (simp add: BLOCK_OVERHEAD_def)
  have e': "BLOCK_HDR_LEN + unat (bh_stored h) + BLOCK_XSUM_LEN = BLOCK_OVERHEAD + unat (bh_stored h)"
    by (simp add: BLOCK_OVERHEAD_def)
  show "slice frame (BLOCK_HDR_LEN + unat (bh_stored h)) (BLOCK_OVERHEAD + unat (bh_stored h))
      = xsum blake3 (take (BLOCK_HDR_LEN + unat (bh_stored h)) frame)"
    using x unfolding e e' by (simp add: slice_def)
qed

text \<open>A frame that verifies is its header, a payload of the declared length and the checksum.\<close>

lemma verified_frame_split:
  assumes "verify_frame_bytes blake3 frame d = Inr h"
  obtains payload where "length payload = unat (bh_stored h)"
    "take (frame_len h) frame = (hdr_bytes h @ payload) @ xsum blake3 (hdr_bytes h @ payload)"
proof
  note v = verify_frame_bytes_Inr [OF assms]
  let ?n = "BLOCK_HDR_LEN + unat (bh_stored h)"
  let ?payload = "slice frame BLOCK_HDR_LEN ?n"
  have n: "?n \<le> length frame" using v(2) by (simp add: BLOCK_OVERHEAD_def)
  show "length ?payload = unat (bh_stored h)" using n by simp
  have p: "take ?n frame = hdr_bytes h @ ?payload"
    using slice_append [of 0 BLOCK_HDR_LEN ?n frame] v(3) by (simp add: slice_def)
  have "take (frame_len h) frame = slice frame 0 ?n @ slice frame ?n (frame_len h)"
    using slice_append [of 0 ?n "frame_len h" frame] by (simp add: slice_def frame_len_def BLOCK_OVERHEAD_def)
  also have "slice frame 0 ?n = take ?n frame" by (simp add: slice_def)
  finally show "take (frame_len h) frame = (hdr_bytes h @ ?payload) @ xsum blake3 (hdr_bytes h @ ?payload)"
    using v(4) p by (simp add: frame_len_def)
qed

lemma truncated_frame_refused:
  assumes "verify_frame_bytes blake3 frame d = Inr h" and "n < frame_len h"
  shows "\<not> is_ok (verify_frame_bytes blake3 (take n frame) d)"
proof
  assume "is_ok (verify_frame_bytes blake3 (take n frame) d)"
  then obtain h' where h': "verify_frame_bytes blake3 (take n frame) d = Inr h'" by (auto simp: is_ok_iff)
  note v = verify_frame_bytes_Inr [OF assms(1)] and v' = verify_frame_bytes_Inr [OF h']
  have n: "BLOCK_HDR_LEN \<le> n" using v'(2) by (simp add: BLOCK_OVERHEAD_def)
  have "hdr_bytes h' = hdr_bytes h" using v(3) v'(3) n by (simp add: min_absorb1)
  then have "bh_stored h' = bh_stored h" by (auto simp: hdr_bytes_def append_eq_append_conv)
  then have "frame_len h \<le> length (take n frame)" using v'(2) by (simp add: frame_len_def)
  with assms(2) show False by simp
qed

section \<open>Properties\<close>

text \<open>C28. A block frame that was encoded verifies: read with whatever follows it in the segment, the
  verifier returns the header the block was written with.\<close>

theorem encoded_frame_verifies:
  assumes "block_encode blake3 bid codec raw_block payload = Inr frame"
    and "encodable d codec raw_block payload"
    and "\<And>x. length (blake3 x) = 32"
  shows "verify_frame_bytes blake3 (frame @ rest) d =
    Inr \<lparr> bh_block_id = bid, bh_codec = codec, bh_raw = word_of_nat (length raw_block),
          bh_stored = word_of_nat (length payload), bh_r16 = take 2 (blake3 raw_block) \<rparr>"
proof -
  note e = block_encode_Inr [OF assms(1)]
  have h: "hdr_ok d (hdr_of blake3 bid codec raw_block payload)"
    by (rule hdr_ok_of [OF assms(2) e(1,2) assms(3)])
  have "length payload = unat (bh_stored (hdr_of blake3 bid codec raw_block payload))"
    using e(3) by (simp add: hdr_of_def unat_u32_of_nat)
  from verify_frame_bytes_frame [OF h this assms(3), where rest = rest]
  show ?thesis unfolding e(4) by (simp add: hdr_of_def)
qed

theorem encoded_frame_verifies_witness:
  "\<exists>frame. block_encode (\<lambda>_. replicate 32 7) 5 CODEC_STORED [9] [9] = Inr frame \<and>
     is_ok (verify_frame_bytes (\<lambda>_. replicate 32 7) (frame @ [1, 2]) False)"
proof -
  obtain frame where f: "block_encode (\<lambda>_. replicate 32 7) 5 CODEC_STORED [9] [9] = Inr frame"
    using block_encode_ok [of "[9]" "[9]" "\<lambda>_. replicate 32 7" 5 CODEC_STORED]
    by (auto simp: is_ok_iff u32_max_def)
  moreover have "encodable False CODEC_STORED [9] [9]" by (simp add: encodable_def block_consts)
  ultimately show ?thesis
    using encoded_frame_verifies [of "\<lambda>_. replicate 32 7" 5 CODEC_STORED "[9]" "[9]" frame False "[1, 2]"]
    by simp
qed

text \<open>C29. A torn frame is refused: if a frame verifies, no proper prefix of it does, so a crash in the
  middle of an append cannot leave something that reads as a block.\<close>

theorem torn_frame_refused:
  assumes "verify_frame_bytes blake3 frame d = Inr h" and "n < frame_len h"
  shows "\<not> is_ok (verify_frame_bytes blake3 (take n frame) d)"
  by (rule truncated_frame_refused [OF assms])

theorem torn_frame_refused_witness:
  "\<not> is_ok (verify_frame_bytes (\<lambda>b. replicate 32 7)
      (take 20 [0xA5, 0, 1, 0, 0, 0, 1, 0, 0, 0, 7, 7, 5, 0, 0, 0, 9, 7, 7, 7, 7]) False)"
proof -
  have "verify_frame_bytes (\<lambda>b. replicate 32 7)
      [0xA5, 0, 1, 0, 0, 0, 1, 0, 0, 0, 7, 7, 5, 0, 0, 0, 9, 7, 7, 7, 7] False =
    Inr \<lparr> bh_block_id = 5, bh_codec = 0, bh_raw = 1, bh_stored = 1, bh_r16 = [7, 7] \<rparr>"
    by (simp add: verify_frame_bytes_def parse_hdr_def block_consts slice_def u32_of_le_def xsum_def
        Let_def replicate_numeral)
  from torn_frame_refused [OF this, of 20] show ?thesis by (simp add: frame_len_def block_consts)
qed

end
