(* ===== verification/Codec.thy ===== *)
theory Codec
  imports Block
begin

text \<open>
  Block compression (\<open>src/src/fold/codec.rs\<close>). The zstd library is a parameter: \<open>compress\<close> takes
  the bytes, an optional dictionary and a level, \<open>decompress\<close> the payload, the dictionary and the
  capacity of the output. What the code relies on is \<open>zstd_roundtrip\<close>. Allocation is assumed to
  succeed.
\<close>

type_synonym compressor = "bytes \<Rightarrow> bytes option \<Rightarrow> int \<Rightarrow> bytes outcome"
type_synonym decompressor = "bytes \<Rightarrow> bytes option \<Rightarrow> nat \<Rightarrow> bytes outcome"

definition LEVEL_DEFAULT :: int where "LEVEL_DEFAULT = 19"

text \<open>The documented contract of zstd: a frame decompresses to the bytes it was made from, given the
  same dictionary and room for them.\<close>

definition zstd_roundtrip :: "compressor \<Rightarrow> decompressor \<Rightarrow> bool" where
  "zstd_roundtrip compress decompress \<longleftrightarrow>
     (\<forall>raw d level c n. compress raw d level = Inr c \<and> length raw \<le> n \<longrightarrow> decompress c d n = Inr raw)"

text \<open>\<open>z::decompress_into\<close>: the output buffer after the call, and the bytes written to it.\<close>

definition decompress_into :: "decompressor \<Rightarrow> bytes \<Rightarrow> bytes option \<Rightarrow> bytes \<Rightarrow> (bytes \<times> nat) outcome" where
  "decompress_into decompress payload d out =
     bind_res (decompress payload d (length out)) (\<lambda>v.
       if length v > length out then Inl (Bail ''decoded exceeds declared'')
       else Inr (v @ drop (length v) out, length v))"

definition codec_encode :: "compressor \<Rightarrow> bytes \<Rightarrow> bytes option \<Rightarrow> int \<Rightarrow> (byte \<times> bytes) outcome" where
  "codec_encode compress raw d level =
     bind_res (compress raw d level) (\<lambda>compressed.
       if length compressed \<ge> length raw then Inr (CODEC_STORED, raw)
       else Inr (if d \<noteq> None then CODEC_ZSTD_DICT else CODEC_ZSTD, compressed))"

definition codec_decode :: "decompressor \<Rightarrow> byte \<Rightarrow> bytes \<Rightarrow> u32 \<Rightarrow> bytes option \<Rightarrow> bytes outcome" where
  "codec_decode decompress codec payload declared d =
    (let n = unat declared in
     if codec = CODEC_STORED then
       (if length payload \<noteq> n then Inl (Bail ''stored block payload != raw'') else Inr payload)
     else if codec = CODEC_ZSTD \<or> codec = CODEC_ZSTD_DICT then
       bind_res (if codec = CODEC_ZSTD_DICT
                 then bind_res (ok_or (Bail ''dictionary block but no dictionary loaded'') d) (\<lambda>x. Inr (Some x))
                 else Inr None) (\<lambda>d.
       bind_res (decompress_into decompress payload d (replicate n 0)) (\<lambda>(out, got).
       if got \<noteq> n then Inl (Bail ''decoded length != declared raw'') else Inr out))
     else Inl (Bail ''unknown block codec''))"

section \<open>Facts\<close>

lemma decompress_into_Inr:
  "decompress_into decompress payload d out = Inr (out', got) \<Longrightarrow> length out' = length out \<and> got \<le> length out"
  by (auto simp: decompress_into_def bind_res_Inr_iff split: if_splits)

lemma codec_decode_length:
  "codec_decode decompress codec payload n d = Inr b \<Longrightarrow> length b = unat n"
  by (auto simp: codec_decode_def Let_def bind_res_Inr_iff dest: decompress_into_Inr split: if_splits)

lemma codec_encode_encodable:
  assumes "codec_encode compress raw d level = Inr (codec, payload)"
  shows "encodable (d \<noteq> None) codec raw payload"
  using assms by (auto simp: codec_encode_def bind_res_Inr_iff encodable_def block_consts split: if_splits)

lemma codec_decode_encode:
  assumes z: "zstd_roundtrip compress decompress"
    and e: "codec_encode compress raw d level = Inr (codec, payload)"
    and len: "length raw \<le> u32_max"
  shows "codec_decode decompress codec payload (word_of_nat (length raw)) d = Inr raw"
proof -
  have u: "unat (word_of_nat (length raw) :: u32) = length raw" using len by (rule unat_u32_of_nat)
  from e obtain c where c: "compress raw d level = Inr c"
    and r: "(length raw \<le> length c \<and> codec = CODEC_STORED \<and> payload = raw) \<or>
      (codec = (if d \<noteq> None then CODEC_ZSTD_DICT else CODEC_ZSTD) \<and> payload = c)"
    by (auto simp: codec_encode_def bind_res_Inr_iff split: if_splits)
  have "decompress c d (length raw) = Inr raw" using z c by (simp add: zstd_roundtrip_def)
  then have di: "decompress_into decompress c d (replicate (length raw) 0) = Inr (raw, length raw)"
    by (simp add: decompress_into_def)
  from r show ?thesis
  proof
    assume "length raw \<le> length c \<and> codec = CODEC_STORED \<and> payload = raw"
    then show ?thesis by (simp add: codec_decode_def u)
  next
    assume "codec = (if d \<noteq> None then CODEC_ZSTD_DICT else CODEC_ZSTD) \<and> payload = c"
    then show ?thesis using di by (cases d) (simp_all add: codec_decode_def u block_consts)
  qed
qed

text \<open>A small codec that satisfies the contract and shrinks one input, for evaluation.\<close>

definition toy_compress :: compressor where
  "toy_compress raw d level = Inr (if raw = [7, 7, 7, 7, 7] then [1] else 2 # raw)"

definition toy_decompress :: decompressor where
  "toy_decompress payload d n =
    (let v = (if payload = [1] then [7, 7, 7, 7, 7] else tl payload)
     in if length v > n then Inl (Bail ''destination buffer is too small'') else Inr v)"

lemma toy_roundtrip: "zstd_roundtrip toy_compress toy_decompress"
  by (auto simp: zstd_roundtrip_def toy_compress_def toy_decompress_def)

section \<open>Properties\<close>

text \<open>C20. Compression is lossless and never grows a block: whatever codec the encoder picks, decoding
  its payload with the recorded length and the same dictionary returns the original bytes, and
  the payload is no longer than the bytes and is framed under a tag the header admits.\<close>

theorem codec_lossless:
  assumes "zstd_roundtrip compress decompress"
    and "codec_encode compress raw d level = Inr (codec, payload)"
    and "length raw \<le> u32_max"
  shows "codec_decode decompress codec payload (word_of_nat (length raw)) d = Inr raw \<and>
    encodable (d \<noteq> None) codec raw payload"
  using codec_decode_encode [OF assms] codec_encode_encodable [OF assms(2)] by simp

theorem codec_lossless_witness:
  "codec_encode toy_compress [7, 7, 7, 7, 7] None 19 = Inr (CODEC_ZSTD, [1]) \<and>
   codec_decode toy_decompress CODEC_ZSTD [1] 5 None = Inr [7, 7, 7, 7, 7]"
proof -
  have e: "codec_encode toy_compress [7, 7, 7, 7, 7] None 19 = Inr (CODEC_ZSTD, [1])"
    by (simp add: codec_encode_def toy_compress_def)
  from codec_lossless [OF toy_roundtrip e] show ?thesis using e by (simp add: u32_max_def)
qed

text \<open>A decoded block has exactly the length its header declares, whatever the payload and the
  decompressor: short and long outputs are both refused, and the padding of the buffer is never
  returned as content.\<close>

theorem decode_is_exact:
  "case codec_decode decompress codec payload n d of
     Inl _ \<Rightarrow> True
   | Inr b \<Rightarrow> length b = unat n \<and>
       (if codec = CODEC_STORED then b = payload
        else decompress payload (if codec = CODEC_ZSTD_DICT then d else None) (unat n) = Inr b)"
proof (cases "codec_decode decompress codec payload n d")
  case (Inr b)
  moreover have "if codec = CODEC_STORED then b = payload
      else decompress payload (if codec = CODEC_ZSTD_DICT then d else None) (unat n) = Inr b"
    using Inr by (auto simp: codec_decode_def decompress_into_def Let_def bind_res_Inr_iff split: if_splits)
  ultimately show ?thesis using codec_decode_length by simp
qed simp

end
