(* ===== verification/Segment.thy ===== *)
theory Segment
  imports ReadAt Codec
begin

text \<open>
  Fold segments (\<open>src/src/fold/segment.rs\<close>): the append-only files of block frames. The theory holds
  the member names, the 48-byte header, the walk over the frame chain that finds the last complete
  block after a crash, and the advisory directory sidecar that can stand in for the walk.

  BLAKE3 and CRC-32 are the parameters \<open>blake3\<close> and \<open>crc32\<close>. A positioned source is a reader. The
  cooperative control is the parameter \<open>ctl\<close>: \<open>ctl k\<close> is the answer of the \<open>k\<close>th check.
\<close>

definition SEG_HDR_LEN :: nat where "SEG_HDR_LEN = 48"
definition SEG_MAGIC :: bytes where "SEG_MAGIC = ascii ''TDBFLD01''"
definition SEG_FLAG_ENCRYPTED :: u32 where "SEG_FLAG_ENCRYPTED = push_bit 0 1"
definition SEG_MAX_DEFAULT :: u32 where "SEG_MAX_DEFAULT = push_bit 30 1"
definition SEG_MAX_LIMIT :: nat where "SEG_MAX_LIMIT = u32_max"
definition MAX_SEGMENT_NUMBER :: nat where "MAX_SEGMENT_NUMBER = 99999999"
definition DIR_MAGIC :: bytes where "DIR_MAGIC = ascii ''TDBSDR01''"

type_synonym block_directory = "(u32 \<times> u32) list"
type_synonym directory_sidecar = "u32 \<times> block_directory"

section \<open>Member names\<close>

text \<open>Decimal formatting, as \<open>format!("{n:08}")\<close> does it, and \<open>str::parse\<close> on a string of digits.\<close>

fun dec_digits :: "nat \<Rightarrow> bytes" where
  "dec_digits n = (if n < 10 then [48 + word_of_nat n] else dec_digits (n div 10) @ [48 + word_of_nat (n mod 10)])"

declare dec_digits.simps [simp del]

definition pad8 :: "nat \<Rightarrow> bytes" where
  "pad8 n = replicate (8 - length (dec_digits n)) 48 @ dec_digits n"

definition is_digit :: "byte \<Rightarrow> bool" where
  "is_digit b \<longleftrightarrow> 48 \<le> b \<and> b \<le> 57"

fun dec_value :: "nat \<Rightarrow> bytes \<Rightarrow> nat" where
  "dec_value v [] = v"
| "dec_value v (b # bs) = dec_value (v * 10 + (unat b - 48)) bs"

definition parse_dec :: "nat \<Rightarrow> bytes \<Rightarrow> nat option" where
  "parse_dec bound b = (if b \<noteq> [] \<and> dec_value 0 b \<le> bound then Some (dec_value 0 b) else None)"

definition strip_prefix :: "bytes \<Rightarrow> bytes \<Rightarrow> bytes option" where
  "strip_prefix p b = (if take (length p) b = p then Some (drop (length p) b) else None)"

definition strip_suffix :: "bytes \<Rightarrow> bytes \<Rightarrow> bytes option" where
  "strip_suffix s b =
    (if length s \<le> length b \<and> drop (length b - length s) b = s then Some (take (length b - length s) b) else None)"

definition seg_name :: "nat \<Rightarrow> bytes" where
  "seg_name n = ascii ''seg-'' @ pad8 n @ ascii ''.fold''"

definition parse_member :: "bytes \<Rightarrow> bytes \<Rightarrow> nat option" where
  "parse_member suffix name =
    (case strip_prefix (ascii ''seg-'') name of None \<Rightarrow> None
     | Some r \<Rightarrow> (case strip_suffix suffix r of None \<Rightarrow> None
       | Some rest \<Rightarrow> if length rest \<noteq> 8 \<or> \<not> list_all is_digit rest then None else parse_dec u32_max rest))"

definition parse_seg_name :: "bytes \<Rightarrow> nat option" where
  "parse_seg_name name = parse_member (ascii ''.fold'') name"

definition parse_dir_tmp_name :: "bytes \<Rightarrow> nat option" where
  "parse_dir_tmp_name name = parse_member (ascii ''.dir.tmp'') name"

fun find_sub :: "bytes \<Rightarrow> bytes \<Rightarrow> nat option" where
  "find_sub p [] = (if p = [] then Some 0 else None)"
| "find_sub p (b # bs) =
    (if take (length p) (b # bs) = p then Some 0 else map_option Suc (find_sub p bs))"

definition is_birth_staging_name :: "bytes \<Rightarrow> bool" where
  "is_birth_staging_name b =
    (case find_sub (ascii ''.creating-'') b of None \<Rightarrow> False
     | Some marker \<Rightarrow>
       let final_name = take marker b; suffix = drop marker b
       in if parse_seg_name (if utf8_ok final_name then final_name else []) = None then False
          else (case strip_prefix (ascii ''.creating-'') suffix of None \<Rightarrow> False
            | Some numbers \<Rightarrow>
              let dash = length (takeWhile (\<lambda>x. x \<noteq> 45) numbers)
              in if dash = length numbers then False
                 else let pid = take dash numbers; serial = drop (dash + 1) numbers
                      in pid \<noteq> [] \<and> serial \<noteq> [] \<and> list_all is_digit pid \<and> list_all is_digit serial \<and>
                         parse_dec u32_max pid \<noteq> None \<and> parse_dec u64_max serial \<noteq> None))"

section \<open>The segment header\<close>

record seg_header =
  sh_seg :: u32
  sh_flags :: u32
  sh_dict_id :: digest

definition has_dict :: "seg_header \<Rightarrow> bool" where
  "has_dict h \<longleftrightarrow> sh_dict_id h \<noteq> replicate 32 0"

definition seg_header_encode :: "seg_header \<Rightarrow> bytes" where
  "seg_header_encode h = SEG_MAGIC @ le32 (sh_seg h) @ le32 (sh_flags h) @ sh_dict_id h"

definition seg_header_decode :: "bytes \<Rightarrow> u32 \<Rightarrow> seg_header outcome" where
  "seg_header_decode b expect_seg =
    (if length b < SEG_HDR_LEN then Inl (Bail ''segment header truncated'')
     else if slice b 0 8 \<noteq> SEG_MAGIC then Inl (Bail ''not a turndb fold segment (bad magic)'')
     else let seg = u32_of_le (slice b 8 12) in
       if seg \<noteq> expect_seg then Inl (Bail ''segment header and file name disagree'')
       else let flags = u32_of_le (slice b 12 16) in
         if flags AND SEG_FLAG_ENCRYPTED \<noteq> 0 then Inl (Bail ''segment is ENCRYPTED'')
         else if flags \<noteq> 0 then Inl (Bail ''segment flags unknown'')
         else Inr \<lparr> sh_seg = seg, sh_flags = flags, sh_dict_id = slice b 16 48 \<rparr>)"

section \<open>The frame walk\<close>

definition frame_end :: "nat \<Rightarrow> u32 \<Rightarrow> nat outcome" where
  "frame_end off stored =
     bind_res (ok_or (Bail ''fold block frame end overflows'') (checked_add off BLOCK_HDR_LEN)) (\<lambda>a.
     bind_res (ok_or (Bail ''fold block frame end overflows'') (checked_add a (unat stored))) (\<lambda>a.
     ok_or (Bail ''fold block frame end overflows'') (checked_add a BLOCK_XSUM_LEN)))"

definition declared_punched :: "(u32 \<times> u32) list \<Rightarrow> u32 \<Rightarrow> bool" where
  "declared_punched punched bid \<longleftrightarrow> list_ex (\<lambda>(lo, hi). lo \<le> bid \<and> bid \<le> hi) punched"

definition u32_try :: "nat \<Rightarrow> u32 outcome" where
  "u32_try n = (if n \<le> u32_max then Inr (word_of_nat n) else Inl (Bail ''block offset exceeds u32''))"

lemma frame_end_Inr_iff [simp]:
  "frame_end off stored = Inr e \<longleftrightarrow> e = off + BLOCK_OVERHEAD + unat stored \<and> e \<le> u64_max"
  by (auto simp: frame_end_def bind_res_Inr_iff checked_add_Some_iff BLOCK_OVERHEAD_def)

function scan_loop ::
  "(bytes \<Rightarrow> digest) \<Rightarrow> reader \<Rightarrow> nat \<Rightarrow> bool \<Rightarrow> (u32 \<times> u32) list \<Rightarrow> (nat \<Rightarrow> unit outcome) \<Rightarrow> read_limits \<Rightarrow>
   nat \<Rightarrow> nat \<Rightarrow> block_directory \<Rightarrow> (nat \<times> block_directory) outcome" where
  "scan_loop blake3 f stop hdict punched ctl limits k off dir =
     bind_res (ctl k) (\<lambda>_.
     if stop - off < BLOCK_OVERHEAD then Inr (off, dir)
     else bind_res (f off BLOCK_HDR_LEN) (\<lambda>hdr.
       let raw = u32_of_le (slice hdr 2 6); stored = u32_of_le (slice hdr 6 10)
       in bind_res (frame_end off stored) (\<lambda>end.
         case parse_hdr hdr hdict of
           Inl error \<Rightarrow>
             if end > stop then Inr (off, dir)
             else bind_res (admitted (admit limits ''unrecognized fold block'' (unat stored) (unat raw))) (\<lambda>_.
               bind_res (f off (BLOCK_OVERHEAD + unat stored)) (\<lambda>payload.
                 let at = BLOCK_HDR_LEN + unat stored
                 in if xsum blake3 (take at payload) = slice payload at (at + BLOCK_XSUM_LEN) then Inl error
                    else if end < stop then Inl (Bail ''invalid fold frame has later bytes'')
                    else Inr (off, dir)))
         | Inr h \<Rightarrow>
             bind_res (admitted (admit limits ''fold block'' (unat (bh_stored h)) (unat (bh_raw h)))) (\<lambda>_.
             if end > stop then Inr (off, dir)
             else bind_res (frame_span_usize (bh_stored h)) (\<lambda>span.
               bind_res (f off span) (\<lambda>payload.
               bind_res (ctl (k + 1)) (\<lambda>_.
               if \<not> is_ok (verify_frame_bytes blake3 payload hdict) \<and> \<not> declared_punched punched (bh_block_id h) then
                 (if end < stop then Inl (Bail ''fold frame fails its checksum with later bytes present'')
                  else Inr (off, dir))
               else bind_res (admitted (admit_fold_blocks limits (length dir + 1))) (\<lambda>_.
                 bind_res (admitted (admit_fold_blocks limits (unat (bh_block_id h) + 1))) (\<lambda>_.
                 bind_res (u32_try off) (\<lambda>o32.
                   scan_loop blake3 f stop hdict punched ctl limits (k + 2) end (dir @ [(bh_block_id h, o32)])))))))))))"
  by pat_completeness auto

termination scan_loop
  by (relation "measure (\<lambda>(blake3, f, stop, hdict, punched, ctl, limits, k, off, dir). stop - off)")
    (auto simp: block_consts)

declare scan_loop.simps [simp del]

definition scan_frames_window ::
  "(bytes \<Rightarrow> digest) \<Rightarrow> reader \<Rightarrow> nat \<Rightarrow> nat \<Rightarrow> bool \<Rightarrow> (u32 \<times> u32) list \<Rightarrow> (nat \<Rightarrow> unit outcome) \<Rightarrow> read_limits \<Rightarrow>
   (nat \<times> block_directory) outcome" where
  "scan_frames_window blake3 f start stop hdict punched ctl limits =
     bind_res (admitted (validate_limits limits)) (\<lambda>limits.
     if stop > SEG_MAX_LIMIT then Inl (Bail ''segment is over the format bound'')
     else if start < SEG_HDR_LEN \<or> start > stop then
       Inl (Bail ''fold frame window does not lie inside the segment's frames'')
     else scan_loop blake3 f stop hdict punched ctl limits 0 start [])"

definition scan_tail_controlled_with_limits ::
  "(bytes \<Rightarrow> digest) \<Rightarrow> reader \<Rightarrow> nat \<Rightarrow> bool \<Rightarrow> (u32 \<times> u32) list \<Rightarrow> (nat \<Rightarrow> unit outcome) \<Rightarrow> read_limits \<Rightarrow>
   (nat \<times> block_directory) outcome" where
  "scan_tail_controlled_with_limits blake3 f file_len hdict punched ctl limits =
     scan_frames_window blake3 f SEG_HDR_LEN file_len hdict punched ctl limits"

definition scan_tail_controlled ::
  "(bytes \<Rightarrow> digest) \<Rightarrow> reader \<Rightarrow> nat \<Rightarrow> bool \<Rightarrow> (nat \<Rightarrow> unit outcome) \<Rightarrow> (nat \<times> block_directory) outcome" where
  "scan_tail_controlled blake3 f file_len hdict ctl =
     scan_tail_controlled_with_limits blake3 f file_len hdict [] ctl default_limits"

definition scan_tail_with_limits ::
  "(bytes \<Rightarrow> digest) \<Rightarrow> reader \<Rightarrow> nat \<Rightarrow> bool \<Rightarrow> (u32 \<times> u32) list \<Rightarrow> read_limits \<Rightarrow> (nat \<times> block_directory) outcome" where
  "scan_tail_with_limits blake3 f file_len hdict punched limits =
    (if file_len > SEG_MAX_LIMIT then Inl (Bail ''segment is over the format bound'')
     else scan_tail_controlled_with_limits blake3 f file_len hdict punched (\<lambda>_. Inr ()) limits)"

definition scan_tail :: "(bytes \<Rightarrow> digest) \<Rightarrow> reader \<Rightarrow> nat \<Rightarrow> bool \<Rightarrow> (nat \<times> block_directory) outcome" where
  "scan_tail blake3 f file_len hdict = scan_tail_with_limits blake3 f file_len hdict [] default_limits"

section \<open>The directory sidecar\<close>

definition encode_dir_sidecar :: "(bytes \<Rightarrow> u32) \<Rightarrow> u32 \<Rightarrow> u32 \<Rightarrow> block_directory \<Rightarrow> bytes" where
  "encode_dir_sidecar crc32 n tail entries =
    (let b = DIR_MAGIC @ le32 n @ le32 tail @ le32 (word_of_nat (length entries))
             @ concat (map (\<lambda>(bid, off). le32 bid @ le32 off) entries)
     in b @ le32 (crc32 b))"

definition max_dir_sidecar_bytes :: "nat \<Rightarrow> nat" where
  "max_dir_sidecar_bytes file_len =
     sat_add 24 (sat_mul (div_ceil (file_len - SEG_HDR_LEN) BLOCK_OVERHEAD) 8)"

fun sidecar_entries :: "bytes \<Rightarrow> nat \<Rightarrow> nat \<Rightarrow> block_directory" where
  "sidecar_entries b i 0 = []"
| "sidecar_entries b i (Suc n) =
    (let at = 20 + i * 8
     in (u32_of_le (slice b at (at + 4)), u32_of_le (slice b (at + 4) (at + 8))) # sidecar_entries b (i + 1) n)"

definition parse_dir_sidecar_with_limits ::
  "(bytes \<Rightarrow> u32) \<Rightarrow> bytes \<Rightarrow> u32 \<Rightarrow> nat \<Rightarrow> read_limits \<Rightarrow> directory_sidecar option outcome" where
  "parse_dir_sidecar_with_limits crc32 b n file_len limits =
    (if length b < 24 \<or> slice b 0 8 \<noteq> DIR_MAGIC then Inr None
     else if crc32 (take (length b - 4) b) \<noteq> u32_of_le (drop (length b - 4) b) then Inr None
     else let seg = u32_of_le (slice b 8 12); tail = u32_of_le (slice b 12 16);
              n_entries = unat (u32_of_le (slice b 16 20))
          in if seg \<noteq> n \<or> unat tail \<noteq> file_len \<or>
                Option.bind (checked_mul n_entries 8) (checked_add 24) \<noteq> Some (length b) then Inr None
             else bind_res (admitted (admit_fold_blocks limits n_entries)) (\<lambda>_.
               Inr (Some (tail, sidecar_entries b 0 n_entries))))"

fun ok_flatten :: "'a option outcome \<Rightarrow> 'a option" where
  "ok_flatten (Inl e) = None"
| "ok_flatten (Inr x) = x"

definition parse_dir_sidecar :: "(bytes \<Rightarrow> u32) \<Rightarrow> bytes \<Rightarrow> u32 \<Rightarrow> nat \<Rightarrow> directory_sidecar option" where
  "parse_dir_sidecar crc32 b n file_len = ok_flatten (parse_dir_sidecar_with_limits crc32 b n file_len default_limits)"

text \<open>Reading the sidecar file: \<open>None\<close> is a file that cannot be opened or read.\<close>

definition read_dir_sidecar_bytes_with_limits :: "bytes option \<Rightarrow> nat \<Rightarrow> read_limits \<Rightarrow> bytes option outcome" where
  "read_dir_sidecar_bytes_with_limits file file_len limits =
    (case file of None \<Rightarrow> Inr None
     | Some b \<Rightarrow>
       let bound = max_dir_sidecar_bytes file_len
       in if length b > bound then Inr None
          else bind_res (admitted (admit_stored limits ''fold segment directory sidecar'' (length b))) (\<lambda>_.
            let got = take (sat_add bound 1) b in Inr (if length got \<le> bound then Some got else None)))"

definition read_dir_sidecar_bytes :: "bytes option \<Rightarrow> nat \<Rightarrow> bytes option" where
  "read_dir_sidecar_bytes file file_len = ok_flatten (read_dir_sidecar_bytes_with_limits file file_len default_limits)"

definition read_dir_sidecar_with_limits ::
  "(bytes \<Rightarrow> u32) \<Rightarrow> bytes option \<Rightarrow> u32 \<Rightarrow> nat \<Rightarrow> read_limits \<Rightarrow> directory_sidecar option outcome" where
  "read_dir_sidecar_with_limits crc32 file n file_len limits =
     bind_res (read_dir_sidecar_bytes_with_limits file file_len limits) (\<lambda>got.
       case got of None \<Rightarrow> Inr None | Some b \<Rightarrow> parse_dir_sidecar_with_limits crc32 b n file_len limits)"

definition read_dir_sidecar :: "(bytes \<Rightarrow> u32) \<Rightarrow> bytes option \<Rightarrow> u32 \<Rightarrow> nat \<Rightarrow> directory_sidecar option" where
  "read_dir_sidecar crc32 file n file_len =
     ok_flatten (read_dir_sidecar_with_limits crc32 file n file_len default_limits)"

fun validate_entries_loop :: "reader \<Rightarrow> nat \<Rightarrow> bool \<Rightarrow> read_limits \<Rightarrow> nat \<Rightarrow> block_directory \<Rightarrow> bool outcome" where
  "validate_entries_loop segment file_len hdict limits expected [] = Inr (expected = file_len)"
| "validate_entries_loop segment file_len hdict limits expected ((bid, offset) # entries) =
    (if unat offset \<noteq> expected then Inr False
     else case segment expected BLOCK_HDR_LEN of
       Inl _ \<Rightarrow> Inr False
     | Inr header \<Rightarrow>
       (case parse_hdr header hdict of
          Inl _ \<Rightarrow> Inr False
        | Inr parsed \<Rightarrow>
          if bh_block_id parsed \<noteq> bid then Inr False
          else bind_res (admitted (admit limits ''fold block'' (unat (bh_stored parsed)) (unat (bh_raw parsed)))) (\<lambda>_.
            case checked_add expected (frame_len parsed) of
              Some end \<Rightarrow>
                if end \<le> file_len then validate_entries_loop segment file_len hdict limits end entries else Inr False
            | None \<Rightarrow> Inr False)))"

definition validate_dir_sidecar_entries ::
  "reader \<Rightarrow> nat \<Rightarrow> bool \<Rightarrow> block_directory \<Rightarrow> read_limits \<Rightarrow> bool outcome" where
  "validate_dir_sidecar_entries segment file_len hdict entries limits =
     validate_entries_loop segment file_len hdict limits SEG_HDR_LEN entries"

section \<open>Names\<close>

text \<open>The \<open>k\<close> low decimal digits of a number.\<close>

fun dec_fixed :: "nat \<Rightarrow> nat \<Rightarrow> bytes" where
  "dec_fixed 0 n = []"
| "dec_fixed (Suc k) n = dec_fixed k (n div 10) @ [48 + word_of_nat (n mod 10)]"

lemma length_dec_fixed [simp]: "length (dec_fixed k n) = k"
  by (induction k arbitrary: n) auto

lemma dec_fixed_zero: "dec_fixed k 0 = replicate k 48"
  by (induction k) (auto simp: replicate_append_same [symmetric])

lemma pad_dec_digits:
  "n < 10 ^ Suc k \<Longrightarrow> length (dec_digits n) \<le> Suc k \<and>
     replicate (Suc k - length (dec_digits n)) 48 @ dec_digits n = dec_fixed (Suc k) n"
proof (induction k arbitrary: n)
  case 0
  then show ?case by (simp add: dec_digits.simps [of n])
next
  case (Suc k)
  show ?case
  proof (cases "n < 10")
    case True
    then have "dec_fixed (Suc k) (n div 10) = replicate (Suc k) 48" by (simp only: div_less dec_fixed_zero)
    then show ?thesis using True by (simp add: dec_digits.simps [of n] del: replicate.simps dec_fixed.simps) (simp add: dec_fixed.simps(2) [of "Suc k"] del: dec_fixed.simps)
  next
    case False
    have "n div 10 < 10 ^ Suc k" using Suc.prems by (simp add: less_mult_imp_div_less)
    from Suc.IH [OF this] False show ?thesis
      by (simp add: dec_digits.simps [of n] dec_fixed.simps(2) [of "Suc k"] del: dec_fixed.simps)
  qed
qed

lemma digit_byte: "unat (48 + word_of_nat (n mod 10) :: byte) = 48 + n mod 10"
proof -
  have "n mod 10 < 10" by simp
  then show ?thesis by (simp add: unat_word_ariths unat_of_nat)
qed

lemma dec_value_append: "dec_value v (xs @ [b]) = dec_value v xs * 10 + (unat b - 48)"
  by (induction xs arbitrary: v) auto

lemma dec_value_fixed: "dec_value 0 (dec_fixed k n) = n mod 10 ^ k"
proof (induction k arbitrary: n)
  case (Suc k)
  then show ?case by (simp add: dec_value_append digit_byte mod_mult2_eq)
qed simp

lemma digits_dec_fixed: "list_all is_digit (dec_fixed k n)"
proof (induction k arbitrary: n)
  case (Suc k)
  have "n mod 10 < 10" by simp
  then have "is_digit (48 + word_of_nat (n mod 10))" 
    unfolding is_digit_def word_le_nat_alt digit_byte by simp
  with Suc show ?case by simp
qed simp

lemma dec_value_bound: "list_all is_digit b \<Longrightarrow> dec_value 0 b < 10 ^ length b"
proof (induction b rule: rev_induct)
  case (snoc x xs)
  then have "unat x \<le> 57" by (simp add: is_digit_def word_le_nat_alt)
  then have "unat x - 48 \<le> 9" by linarith
  with snoc show ?case by (simp add: dec_value_append)
qed simp

lemma dec_fixed_value: "list_all is_digit b \<Longrightarrow> dec_fixed (length b) (dec_value 0 b) = b"
proof (induction b rule: rev_induct)
  case (snoc x xs)
  then have "48 \<le> unat x \<and> unat x \<le> 57" by (simp add: is_digit_def word_le_nat_alt)
  then have x: "48 \<le> unat x" "unat x - 48 < 10" by linarith+
  have "(48 + word_of_nat (unat x - 48) :: byte) = word_of_nat (48 + (unat x - 48))"
    by (simp only: of_nat_add of_nat_numeral)
  also have "\<dots> = x" using x(1) by simp
  finally have w: "(48 + word_of_nat (unat x - 48) :: byte) = x" .
  define d where "d = unat x - 48"
  have "(dec_value 0 xs * 10 + d) div 10 = dec_value 0 xs" "(dec_value 0 xs * 10 + d) mod 10 = d"
    using x(2) by (simp_all add: d_def [symmetric])
  with snoc w show ?case unfolding d_def [symmetric] by (simp add: dec_value_append flip: d_def)
qed simp

lemma pad8_fixed: "n < 10 ^ 8 \<Longrightarrow> pad8 n = dec_fixed 8 n"
  using pad_dec_digits [of n 7] by (simp add: pad8_def del: dec_fixed.simps)

lemma strip_prefix_Some_iff [simp]: "strip_prefix p b = Some r \<longleftrightarrow> b = p @ r"
  by (auto simp: strip_prefix_def) (metis append_take_drop_id)

lemma strip_suffix_Some_iff [simp]: "strip_suffix s b = Some r \<longleftrightarrow> b = r @ s"
  by (auto simp: strip_suffix_def) (metis append_take_drop_id)

lemma strip_append [simp]: "strip_prefix p (p @ r) = Some r" "strip_suffix s (r @ s) = Some r"
  by simp_all

lemma parse_member_exact:
  "parse_member suffix name = Some n \<longleftrightarrow> n < 10 ^ 8 \<and> name = ascii ''seg-'' @ pad8 n @ suffix"
proof
  assume "parse_member suffix name = Some n"
  then obtain rest where r: "name = ascii ''seg-'' @ rest @ suffix" "length rest = 8" "list_all is_digit rest"
    "parse_dec u32_max rest = Some n"
    by (auto simp: parse_member_def split: option.splits if_splits)
  then have n: "n = dec_value 0 rest" by (auto simp: parse_dec_def split: if_splits)
  have "n < 10 ^ 8" using dec_value_bound [OF r(3)] by (simp add: n r(2))
  moreover have "pad8 n = rest"
    using pad8_fixed [OF calculation] dec_fixed_value [OF r(3)] by (simp add: n r(2) del: dec_fixed.simps)
  ultimately show "n < 10 ^ 8 \<and> name = ascii ''seg-'' @ pad8 n @ suffix" using r(1) by simp
next
  assume r: "n < 10 ^ 8 \<and> name = ascii ''seg-'' @ pad8 n @ suffix"
  then have p: "pad8 n = dec_fixed 8 n" using pad8_fixed by blast
  have l: "length (pad8 n) = 8" unfolding p by (rule length_dec_fixed)
  have d: "list_all is_digit (pad8 n)" unfolding p by (rule digits_dec_fixed)
  have v: "dec_value 0 (pad8 n) = n" unfolding p using r by (simp add: dec_value_fixed del: dec_fixed.simps)
  have ne: "pad8 n \<noteq> []" using l by auto
  have "parse_dec u32_max (pad8 n) = Some n" using r ne by (simp add: parse_dec_def v u32_max_def)
  with r l d show "parse_member suffix name = Some n"
    by (simp add: parse_member_def del: strip_prefix_Some_iff strip_suffix_Some_iff)
qed

section \<open>Headers\<close>

lemma length_SEG_MAGIC [simp]: "length SEG_MAGIC = 8"
  by (simp add: SEG_MAGIC_def ascii_def)

lemma length_DIR_MAGIC [simp]: "length DIR_MAGIC = 8"
  by (simp add: DIR_MAGIC_def ascii_def)

lemma seg_header_decode_exact:
  "seg_header_decode b expect_seg = Inr h \<longleftrightarrow>
     take SEG_HDR_LEN b = seg_header_encode h \<and> length (sh_dict_id h) = 32 \<and> sh_seg h = expect_seg \<and> sh_flags h = 0"
proof
  assume "seg_header_decode b expect_seg = Inr h"
  then have len: "48 \<le> length b" and m: "slice b 0 8 = SEG_MAGIC"
    and h: "h = \<lparr> sh_seg = u32_of_le (slice b 8 12), sh_flags = u32_of_le (slice b 12 16), sh_dict_id = slice b 16 48 \<rparr>"
    and s: "u32_of_le (slice b 8 12) = expect_seg" and z: "u32_of_le (slice b 12 16) = 0"
    by (auto simp: seg_header_decode_def Let_def SEG_HDR_LEN_def split: if_splits)
  have "slice b 0 48 = slice b 0 8 @ slice b 8 12 @ slice b 12 16 @ slice b 16 48"
    by (simp add: slice_append)
  then have "take 48 b = SEG_MAGIC @ le32 (sh_seg h) @ le32 (sh_flags h) @ sh_dict_id h"
    using len m h by (simp add: le32_u32_of_le) (simp add: slice_def)
  then show "take SEG_HDR_LEN b = seg_header_encode h \<and> length (sh_dict_id h) = 32 \<and> sh_seg h = expect_seg \<and> sh_flags h = 0"
    using len h s z by (simp add: seg_header_encode_def SEG_HDR_LEN_def)
next
  assume r: "take SEG_HDR_LEN b = seg_header_encode h \<and> length (sh_dict_id h) = 32 \<and> sh_seg h = expect_seg \<and> sh_flags h = 0"
  have l: "length (seg_header_encode h) = 48" using r by (simp add: seg_header_encode_def)
  then have len: "48 \<le> length b" using r by (metis SEG_HDR_LEN_def length_take min.bounded_iff order_refl)
  obtain rest where b: "b = SEG_MAGIC @ le32 (sh_seg h) @ le32 (sh_flags h) @ sh_dict_id h @ rest"
    using r by (metis append_take_drop_id append.assoc seg_header_encode_def)
  have s: "slice b 0 8 = SEG_MAGIC" "slice b 8 12 = le32 (sh_seg h)" "slice b 12 16 = le32 (sh_flags h)"
    "slice b 16 48 = sh_dict_id h"
    unfolding b using r by (simp_all add: slice_def)
  show "seg_header_decode b expect_seg = Inr h"
    using r len by (simp add: seg_header_decode_def s SEG_HDR_LEN_def Let_def)
qed

section \<open>What the walk establishes\<close>

text \<open>A frame the walk accepts at a position: its header parses, it ends before the stop, and its bytes
  verify unless the manifest declared the block erased.\<close>

definition frame_here :: "(bytes \<Rightarrow> digest) \<Rightarrow> bytes \<Rightarrow> nat \<Rightarrow> bool \<Rightarrow> (u32 \<times> u32) list \<Rightarrow> nat \<Rightarrow> block_hdr \<Rightarrow> bool" where
  "frame_here blake3 data stop hdict punched off h \<longleftrightarrow>
     parse_hdr (slice data off (off + BLOCK_HDR_LEN)) hdict = Inr h \<and> off + frame_len h \<le> stop \<and>
     (is_ok (verify_frame_bytes blake3 (slice data off (off + frame_len h)) hdict) \<or>
      declared_punched punched (bh_block_id h))"

fun frame_chain ::
  "(bytes \<Rightarrow> digest) \<Rightarrow> bytes \<Rightarrow> nat \<Rightarrow> bool \<Rightarrow> (u32 \<times> u32) list \<Rightarrow> nat \<Rightarrow> block_directory \<Rightarrow> nat \<Rightarrow> bool" where
  "frame_chain blake3 data stop hdict punched off [] e \<longleftrightarrow> e = off"
| "frame_chain blake3 data stop hdict punched off ((bid, o32) # d) e \<longleftrightarrow>
     unat o32 = off \<and>
     (\<exists>h. frame_here blake3 data stop hdict punched off h \<and> bh_block_id h = bid \<and>
          frame_chain blake3 data stop hdict punched (off + frame_len h) d e)"

text \<open>A frame that fills its place but is damaged: its header parses and its bytes do not verify though the
  block is not declared erased, or its header does not parse and the checksum over its bytes fails too.\<close>

definition damaged_frame :: "(bytes \<Rightarrow> digest) \<Rightarrow> bytes \<Rightarrow> bool \<Rightarrow> (u32 \<times> u32) list \<Rightarrow> nat \<Rightarrow> nat \<Rightarrow> bool" where
  "damaged_frame blake3 data hdict punched off end \<longleftrightarrow>
     (case parse_hdr (slice data off (off + BLOCK_HDR_LEN)) hdict of
        Inr h \<Rightarrow> \<not> is_ok (verify_frame_bytes blake3 (slice data off end) hdict) \<and>
          \<not> declared_punched punched (bh_block_id h)
      | Inl _ \<Rightarrow> xsum blake3 (slice data off (end - BLOCK_XSUM_LEN)) \<noteq> slice data (end - BLOCK_XSUM_LEN) end)"

text \<open>What may be left after the last accepted frame: too little for a frame, a frame whose advertised end
  lies beyond the end of the file, or a damaged frame that ends there. A whole valid frame is never left.\<close>

definition residue ::
  "(bytes \<Rightarrow> digest) \<Rightarrow> bytes \<Rightarrow> nat \<Rightarrow> bool \<Rightarrow> (u32 \<times> u32) list \<Rightarrow> nat \<Rightarrow> bool" where
  "residue blake3 data stop hdict punched off \<longleftrightarrow> stop - off < BLOCK_OVERHEAD \<or>
     (let end = off + BLOCK_OVERHEAD + unat (u32_of_le (slice data (off + 6) (off + 10)))
      in stop < end \<or> stop = end \<and> damaged_frame blake3 data hdict punched off end)"

lemma parse_hdr_stored: "parse_hdr b d = Inr h \<Longrightarrow> u32_of_le (slice b 6 10) = bh_stored h"
  by (auto simp: parse_hdr_def Let_def split: if_splits)

lemma parse_hdr_take:
  assumes "parse_hdr b d = Inr h" and "BLOCK_HDR_LEN \<le> n"
  shows "parse_hdr (take n b) d = Inr h"
proof -
  note e = parse_hdr_exact [OF assms(1)]
  have "take n b = take BLOCK_HDR_LEN (take n b) @ drop BLOCK_HDR_LEN (take n b)"
    by (metis append_take_drop_id)
  also have "take BLOCK_HDR_LEN (take n b) = hdr_bytes h" using e assms(2) by (simp add: min_absorb1)
  finally show ?thesis using parse_hdr_bytes [OF e(1)] by metis
qed

lemma slice_stored: "slice (slice data off (off + BLOCK_HDR_LEN)) 6 10 = slice data (off + 6) (off + 10)"
  by (simp add: BLOCK_HDR_LEN_def slice_def drop_take add.commute)

lemma frame_len_pos: "0 < frame_len h"
  by (simp add: frame_len_def block_consts)

lemma scan_loop_cases:
  assumes "scan_loop blake3 (mem_read data) stop hdict punched ctl limits k off dir = Inr (e, d)"
  obtains (halt) "e = off" "d = dir" "residue blake3 data stop hdict punched off"
    | (frame) h where "frame_here blake3 data stop hdict punched off h" "off \<le> u32_max"
        "scan_loop blake3 (mem_read data) stop hdict punched ctl limits (k + 2) (off + frame_len h)
           (dir @ [(bh_block_id h, word_of_nat off)]) = Inr (e, d)"
proof (cases "stop - off < BLOCK_OVERHEAD")
  case True
  then show ?thesis using assms halt by (subst (asm) scan_loop.simps) (auto simp: bind_res_Inr_iff residue_def)
next
  case False
  let ?hdr = "slice data off (off + BLOCK_HDR_LEN)"
  let ?stored = "u32_of_le (slice data (off + 6) (off + 10))"
  let ?stop = "off + BLOCK_OVERHEAD + unat ?stored"
  note step = assms [unfolded scan_loop.simps [of blake3 "mem_read data" stop hdict punched ctl limits k off dir]
      Let_def, simplified False if_False]
  from step have rd: "mem_read data off BLOCK_HDR_LEN = Inr ?hdr"
    by (auto simp: bind_res_Inr_iff mem_read_Inr_iff)
  note step = step [unfolded rd bind_res_Inr_iff, simplified, unfolded slice_stored]
  show ?thesis
  proof (cases "parse_hdr ?hdr hdict")
    case (Inl err)
    have x: "take j x = slice data off (off + j)" "slice x j (j + m) = slice data (off + j) (off + j + m)"
      if "mem_read data off n = Inr x" "j + m \<le> n" for x j m n
      using that take_slice [of j n data off] slice_sub [of "j + m" n data off j] by (simp_all add: mem_read_Inr_iff add.assoc)
    have len: "BLOCK_HDR_LEN + unat ?stored + BLOCK_XSUM_LEN \<le> BLOCK_OVERHEAD + unat ?stored" 
      "?stop - BLOCK_XSUM_LEN = off + (BLOCK_HDR_LEN + unat ?stored)"
      "?stop = off + (BLOCK_HDR_LEN + unat ?stored) + BLOCK_XSUM_LEN"
      by (simp_all add: BLOCK_OVERHEAD_def)
    have "damaged_frame blake3 data hdict punched off ?stop"
      if "mem_read data off (BLOCK_OVERHEAD + unat ?stored) = Inr x"
        "xsum blake3 (take (BLOCK_HDR_LEN + unat ?stored) x) \<noteq>
          slice x (BLOCK_HDR_LEN + unat ?stored) (BLOCK_HDR_LEN + unat ?stored + BLOCK_XSUM_LEN)" for x
      using that(2) unfolding damaged_frame_def Inl sum.case len(2) x [OF that(1) len(1)] len(3) [symmetric] .
    then show ?thesis using step halt Inl
      by (auto simp: bind_res_Inr_iff residue_def split: if_splits)
  next
    case (Inr h)
    have st: "bh_stored h = ?stored" using parse_hdr_stored [OF Inr] unfolding slice_stored by simp
    have fl: "off + frame_len h = ?stop" by (simp add: frame_len_def st)
    show ?thesis
    proof (cases "?stop > stop")
      case True
      then show ?thesis using step Inr halt by (auto simp: bind_res_Inr_iff residue_def)
    next
      case end_le: False
      note step = step [unfolded Inr, simplified, simplified end_le bind_res_Inr_iff, simplified]
      show ?thesis
      proof (cases "\<not> is_ok (verify_frame_bytes blake3 (slice data off (off + frame_len h)) hdict) \<and>
          \<not> declared_punched punched (bh_block_id h)")
        case True
        then have "damaged_frame blake3 data hdict punched off ?stop" using Inr fl by (simp add: damaged_frame_def)
        then show ?thesis using True step halt fl end_le by (auto simp: residue_def bind_res_Inr_iff mem_read_Inr_iff st frame_len_def split: if_splits)
      next
        case False
        then have "frame_here blake3 data stop hdict punched off h"
          using Inr end_le fl by (auto simp: frame_here_def add.assoc)
        moreover have "off \<le> u32_max"
          "scan_loop blake3 (mem_read data) stop hdict punched ctl limits (k + 2) (off + frame_len h)
             (dir @ [(bh_block_id h, word_of_nat off)]) = Inr (e, d)"
          using step False fl by (auto simp: bind_res_Inr_iff mem_read_Inr_iff st frame_len_def u32_try_def add.assoc split: if_splits)
        ultimately show ?thesis by (rule frame)
      qed
    qed
  qed
qed

lemma scan_loop_sound:
  "scan_loop blake3 (mem_read data) stop hdict punched ctl limits k off dir = Inr (e, d) \<Longrightarrow>
   \<exists>d'. d = dir @ d' \<and> frame_chain blake3 data stop hdict punched off d' e \<and> residue blake3 data stop hdict punched e"
proof (induction "stop - off" arbitrary: k off dir rule: less_induct)
  case less
  from less.prems show ?case
  proof (cases rule: scan_loop_cases)
    case halt
    then show ?thesis by simp
  next
    case (frame h)
    have "off + frame_len h \<le> stop" using frame(1) by (simp add: frame_here_def)
    then have "stop - (off + frame_len h) < stop - off" using frame_len_pos [of h] by linarith
    from less.hyps [OF this frame(3)] obtain d' where d': "d = (dir @ [(bh_block_id h, word_of_nat off)]) @ d'"
      "frame_chain blake3 data stop hdict punched (off + frame_len h) d' e" "residue blake3 data stop hdict punched e" by blast
    have "unat (word_of_nat off :: u32) = off" using frame(2) by (rule unat_u32_of_nat)
    then show ?thesis
      using d' frame(1) by (intro exI [of _ "(bh_block_id h, word_of_nat off) # d'"]) auto
  qed
qed


section \<open>Walking whole frames\<close>

definition whole_frame :: "(bytes \<Rightarrow> digest) \<Rightarrow> bool \<Rightarrow> bytes \<Rightarrow> block_hdr \<Rightarrow> bool" where
  "whole_frame blake3 hdict f h \<longleftrightarrow> verify_frame_bytes blake3 f hdict = Inr h \<and> length f = frame_len h"

text \<open>What the walk admits at run time: the lengths a header declares, and the number and the ids of the
  blocks.\<close>

definition frame_admitted :: "read_limits \<Rightarrow> block_hdr \<Rightarrow> bool" where
  "frame_admitted limits h \<longleftrightarrow> unat (bh_stored h) \<le> max_stored_frame_bytes limits \<and>
     unat (bh_raw h) \<le> max_decoded_frame_bytes limits \<and> unat (bh_block_id h) < max_fold_blocks limits"

fun frame_dir :: "nat \<Rightarrow> (bytes \<times> block_hdr) list \<Rightarrow> block_directory" where
  "frame_dir off [] = []"
| "frame_dir off ((f, h) # fs) = (bh_block_id h, word_of_nat off) # frame_dir (off + length f) fs"

lemma whole_frame_parse:
  assumes "whole_frame blake3 hdict f h"
  shows "parse_hdr f hdict = Inr h" and "BLOCK_OVERHEAD \<le> length f" and "length f = BLOCK_OVERHEAD + unat (bh_stored h)"
  using assms by (auto simp: whole_frame_def verify_frame_bytes_def bind_res_Inr_iff frame_len_def Let_def split: if_splits)

lemma slice_front: "drop off data = f @ post \<Longrightarrow> n \<le> length f \<Longrightarrow> slice data off (off + n) = take n f"
  by (simp add: slice_def)

lemma stored_field: "BLOCK_HDR_LEN \<le> n \<Longrightarrow> parse_hdr b hdict = Inr h \<Longrightarrow>
    u32_of_le (slice (take n b) 6 10) = bh_stored h"
  using parse_hdr_stored [OF parse_hdr_take] .

lemma scan_step:
  assumes d: "drop off data = f @ post" and w: "whole_frame blake3 hdict f h" and a: "frame_admitted limits h"
    and n: "length dir < max_fold_blocks limits" and off: "off \<le> length data" and stop: "length data \<le> u32_max"
  shows "scan_loop blake3 (mem_read data) (length data) hdict punched (\<lambda>_. Inr ()) limits k off dir =
    scan_loop blake3 (mem_read data) (length data) hdict punched (\<lambda>_. Inr ()) limits (k + 2) (off + length f)
      (dir @ [(bh_block_id h, word_of_nat off)])"
proof -
  note p = whole_frame_parse [OF w]
  have len: "length data - off = length f + length post" using arg_cong [OF d, of length] by simp
  have r1: "mem_read data off BLOCK_HDR_LEN = Inr (take BLOCK_HDR_LEN f)"
    using len off p(2) by (simp add: mem_read_Inr_iff slice_front [OF d] BLOCK_OVERHEAD_def)
  have r2: "mem_read data off (BLOCK_OVERHEAD + unat (bh_stored h)) = Inr f"
    using len off p(3) by (simp add: mem_read_Inr_iff slice_front [OF d])
  have ph: "parse_hdr (take BLOCK_HDR_LEN f) hdict = Inr h" by (rule parse_hdr_take [OF p(1)]) simp
  have sf: "u32_of_le (slice (take BLOCK_HDR_LEN f) 6 10) = bh_stored h" by (rule stored_field [OF _ p(1)]) simp
  have e: "off + BLOCK_OVERHEAD + unat (bh_stored h) = off + length f" using p(3) by simp
  have fe: "frame_end off (bh_stored h) = Inr (off + length f)"
    using len off stop by (simp add: e u32_max_def u64_max_def)
  have v: "is_ok (verify_frame_bytes blake3 f hdict)" using w by (simp add: whole_frame_def)
  have c: "\<not> length data - off < BLOCK_OVERHEAD" "\<not> off + length f > length data" using len off p(2) by linarith+
  have adm: "admitted (admit limits ''fold block'' (unat (bh_stored h)) (unat (bh_raw h))) = Inr ()"
    "admitted (admit_fold_blocks limits (length dir + 1)) = Inr ()"
    "admitted (admit_fold_blocks limits (unat (bh_block_id h) + 1)) = Inr ()"
    "admitted (admit_fold_blocks limits (Suc (length dir))) = Inr ()"
    "admitted (admit_fold_blocks limits (Suc (unat (bh_block_id h)))) = Inr ()"
    "u32_try off = Inr (word_of_nat off)"
    using a n off stop by (simp_all add: frame_admitted_def u32_try_def)
  show ?thesis
    by (subst scan_loop.simps) (simp add: c r1 sf fe ph adm r2 v del: frame_end_Inr_iff)
qed

lemma scan_whole_frames:
  "drop off data = concat (map fst fs) @ rest \<Longrightarrow> \<forall>(f, h) \<in> set fs. whole_frame blake3 hdict f h \<and> frame_admitted limits h \<Longrightarrow>
   length dir + length fs \<le> max_fold_blocks limits \<Longrightarrow> off \<le> length data \<Longrightarrow> length data \<le> u32_max \<Longrightarrow>
   \<exists>k'. scan_loop blake3 (mem_read data) (length data) hdict punched (\<lambda>_. Inr ()) limits k off dir =
    scan_loop blake3 (mem_read data) (length data) hdict punched (\<lambda>_. Inr ()) limits k'
      (off + length (concat (map fst fs))) (dir @ frame_dir off fs)"
proof (induction fs arbitrary: k off dir)
  case Nil
  then show ?case by auto
next
  case (Cons x fs)
  obtain f h where x: "x = (f, h)" by (cases x)
  have d: "drop off data = f @ concat (map fst fs) @ rest" using Cons.prems(1) by (simp add: x)
  note c = cursor_advance [OF d Cons.prems(4)]
  have "scan_loop blake3 (mem_read data) (length data) hdict punched (\<lambda>_. Inr ()) limits k off dir =
    scan_loop blake3 (mem_read data) (length data) hdict punched (\<lambda>_. Inr ()) limits (k + 2) (off + length f)
      (dir @ [(bh_block_id h, word_of_nat off)])"
    by (rule scan_step [OF d]) (use Cons.prems x in auto)
  moreover have "\<exists>k'. scan_loop blake3 (mem_read data) (length data) hdict punched (\<lambda>_. Inr ()) limits (k + 2) (off + length f)
      (dir @ [(bh_block_id h, word_of_nat off)]) =
    scan_loop blake3 (mem_read data) (length data) hdict punched (\<lambda>_. Inr ()) limits k'
      (off + length f + length (concat (map fst fs))) ((dir @ [(bh_block_id h, word_of_nat off)]) @ frame_dir (off + length f) fs)"
    by (rule Cons.IH) (use Cons.prems c x in auto)
  ultimately show ?case by (simp add: x add.assoc)
qed

text \<open>A torn tail: a proper prefix of a frame, of any length.\<close>

lemma scan_torn:
  assumes d: "drop off data = take n f" and w: "whole_frame blake3 hdict f h" and a: "frame_admitted limits h"
    and n: "n < length f" and off: "off \<le> length data" and stop: "length data \<le> u32_max"
  shows "scan_loop blake3 (mem_read data) (length data) hdict punched (\<lambda>_. Inr ()) limits k off dir = Inr (off, dir)"
proof (cases "n < BLOCK_OVERHEAD")
  case True
  have "length data - off = n" using arg_cong [OF d, of length] n by simp
  with True show ?thesis by (subst scan_loop.simps) simp
next
  case False
  note p = whole_frame_parse [OF w]
  have len: "length data - off = n" using arg_cong [OF d, of length] n by simp
  have hn: "BLOCK_HDR_LEN \<le> n" using False by (simp add: BLOCK_OVERHEAD_def)
  have "slice data off (off + BLOCK_HDR_LEN) = take BLOCK_HDR_LEN f"
    using d hn by (simp add: slice_def min_absorb1)
  then have r1: "mem_read data off BLOCK_HDR_LEN = Inr (take BLOCK_HDR_LEN f)"
    using len off hn by (simp add: mem_read_Inr_iff)
  have ph: "parse_hdr (take BLOCK_HDR_LEN f) hdict = Inr h" by (rule parse_hdr_take [OF p(1)]) simp
  have sf: "u32_of_le (slice (take BLOCK_HDR_LEN f) 6 10) = bh_stored h" by (rule stored_field [OF _ p(1)]) simp
  have fe: "frame_end off (bh_stored h) = Inr (off + length f)"
    using off stop unat_u32_le_max [of "bh_stored h"] by (simp add: p(3) add.assoc u32_max_def u64_max_def block_consts)
  have c: "\<not> length data - off < BLOCK_OVERHEAD" "off + length f > length data" using len off n False by linarith+
  have adm: "admitted (admit limits ''fold block'' (unat (bh_stored h)) (unat (bh_raw h))) = Inr ()"
    using a by (simp add: frame_admitted_def)
  show ?thesis
    by (subst scan_loop.simps) (simp add: c r1 sf fe ph adm del: frame_end_Inr_iff)
qed

section \<open>The sidecar against the frames\<close>

lemma valid_entry:
  assumes "validate_entries_loop (mem_read data) file_len hdict limits off ((bid, o32) # entries) = Inr True"
  obtains h where "unat o32 = off" "parse_hdr (slice data off (off + BLOCK_HDR_LEN)) hdict = Inr h" "bh_block_id h = bid"
    "off + frame_len h \<le> file_len" "validate_entries_loop (mem_read data) file_len hdict limits (off + frame_len h) entries = Inr True"
  using assms by (auto simp: bind_res_Inr_iff checked_add_def mem_read_Inr_iff split: if_splits sum.splits option.splits)

lemma frame_len_overhead: "BLOCK_OVERHEAD \<le> frame_len h"
  by (simp add: frame_len_def)

lemma entries_exhausted:
  "validate_entries_loop (mem_read data) file_len hdict limits file_len entries = Inr True \<Longrightarrow> entries = []"
proof (cases entries)
  case (Cons x xs)
  assume "validate_entries_loop (mem_read data) file_len hdict limits file_len entries = Inr True"
  then obtain h where "file_len + frame_len h \<le> file_len" unfolding Cons by (cases x) (metis valid_entry)
  then show ?thesis using frame_len_pos [of h] by simp
qed simp

text \<open>Validated entries follow the walk as far as it goes, and past it hold at most the damaged frame it stopped at.\<close>

lemma entries_agree:
  "validate_entries_loop (mem_read data) file_len hdict limits off entries = Inr True \<Longrightarrow>
   frame_chain blake3 data file_len hdict punched off d e \<Longrightarrow> residue blake3 data file_len hdict punched e \<Longrightarrow>
   e = file_len \<and> entries = d \<or>
   e < file_len \<and> (\<exists>bid o32. entries = d @ [(bid, o32)] \<and> unat o32 = e \<and> damaged_frame blake3 data hdict punched e file_len)"
proof (induction entries arbitrary: off d)
  case Nil
  then have off: "off = file_len" by simp
  show ?case
  proof (cases d)
    case (Cons x d')
    obtain h where "frame_here blake3 data file_len hdict punched off h"
      using Nil.prems(2) Cons by (cases x) auto
    then have "off + frame_len h \<le> off" using off by (simp add: frame_here_def)
    then show ?thesis using frame_len_pos [of h] by simp
  qed (use Nil.prems(2) off in simp)
next
  case (Cons x entries)
  obtain bid o32 where x: "x = (bid, o32)" by (cases x)
  from Cons.prems(1) obtain p where v: "unat o32 = off" "parse_hdr (slice data off (off + BLOCK_HDR_LEN)) hdict = Inr p"
    "bh_block_id p = bid" "off + frame_len p \<le> file_len"
    "validate_entries_loop (mem_read data) file_len hdict limits (off + frame_len p) entries = Inr True"
    unfolding x by (rule valid_entry)
  show ?case
  proof (cases d)
    case Nil
    then have e: "e = off" using Cons.prems(2) by simp
    have "u32_of_le (slice data (off + 6) (off + 10)) = bh_stored p"
      using parse_hdr_stored [OF v(2)] unfolding slice_stored .
    then have "off + BLOCK_OVERHEAD + unat (u32_of_le (slice data (off + 6) (off + 10))) = off + frame_len p"
      by (simp add: frame_len_def)
    then have "file_len = off + frame_len p" "damaged_frame blake3 data hdict punched off file_len"
      using Cons.prems(3) v(4) frame_len_overhead [of p] unfolding residue_def Let_def e by auto
    moreover from this have "entries = []" using v(5) entries_exhausted by simp
    ultimately show ?thesis using e v(1) x Nil frame_len_pos [of p] by simp
  next
    case (Cons y d')
    obtain bid' o' h where y: "y = (bid', o')" "unat o' = off" "bh_block_id h = bid'"
      "frame_here blake3 data file_len hdict punched off h"
      "frame_chain blake3 data file_len hdict punched (off + frame_len h) d' e"
      using Cons.prems(2) Cons by (cases y) auto
    have "h = p" using y(4) v(2) by (simp add: frame_here_def)
    moreover have "o' = o32" using y(2) v(1) by (metis word_unat_eq_iff)
    ultimately show ?thesis using Cons.IH [OF v(5) _ Cons.prems(3), of d'] y v(3) x Cons by simp
  qed
qed

definition entry_bytes :: "u32 \<times> u32 \<Rightarrow> bytes" where
  "entry_bytes = (\<lambda>(bid, off). le32 bid @ le32 off)"

lemma length_entry_bytes [simp]: "length (entry_bytes x) = 8"
  by (simp add: entry_bytes_def split: prod.splits)

lemma length_entries [simp]: "length (concat (map entry_bytes es)) = 8 * length es"
  by (induction es) simp_all

lemma sidecar_entries_at:
  "drop (20 + i * 8) b = concat (map entry_bytes es) @ rest \<Longrightarrow> sidecar_entries b i (length es) = es"
proof (induction es arbitrary: i)
  case (Cons e es)
  obtain bid off where e: "e = (bid, off)" by (cases e)
  have d: "drop (20 + i * 8) b = le32 bid @ le32 off @ concat (map entry_bytes es) @ rest"
    using Cons.prems by (simp add: e entry_bytes_def)
  have s1: "slice b (20 + i * 8) (20 + i * 8 + 4) = le32 bid" using d by (simp add: slice_def)
  have "drop (20 + i * 8 + 4) b = drop 4 (drop (20 + i * 8) b)" by (simp add: add.commute)
  then have d4: "drop (20 + i * 8 + 4) b = le32 off @ concat (map entry_bytes es) @ rest" unfolding d by simp
  then have s2: "slice b (20 + i * 8 + 4) (20 + i * 8 + 8) = le32 off" by (simp add: slice_def)
  have "drop (20 + (i + 1) * 8) b = drop 4 (drop (20 + i * 8 + 4) b)" by (simp add: algebra_simps)
  then have "drop (20 + (i + 1) * 8) b = concat (map entry_bytes es) @ rest" unfolding d4 by simp
  then have "sidecar_entries b (i + 1) (length es) = es" by (rule Cons.IH)
  then show ?case unfolding length_Cons sidecar_entries.simps Let_def s1 s2 by (simp add: e)
qed simp

lemma sidecar_entries_bytes:
  "20 + (i + n) * 8 \<le> length b \<Longrightarrow> concat (map entry_bytes (sidecar_entries b i n)) = slice b (20 + i * 8) (20 + (i + n) * 8)"
proof (induction n arbitrary: i)
  case (Suc n)
  let ?at = "20 + i * 8"
  have l: "?at + 8 \<le> length b" using Suc.prems by simp
  have e: "entry_bytes (u32_of_le (slice b ?at (?at + 4)), u32_of_le (slice b (?at + 4) (?at + 8))) = slice b ?at (?at + 8)"
    using l by (simp add: entry_bytes_def le32_u32_of_le slice_append)
  have IH: "concat (map entry_bytes (sidecar_entries b (i + 1) n)) = slice b (?at + 8) (20 + (i + Suc n) * 8)"
    using Suc.IH [of "i + 1"] Suc.prems by (simp add: algebra_simps)
  have "slice b ?at (?at + 8) @ slice b (?at + 8) (20 + (i + Suc n) * 8) = slice b ?at (20 + (i + Suc n) * 8)"
    by (rule slice_append) simp_all
  then show ?case unfolding sidecar_entries.simps Let_def list.map concat.simps e IH .
qed simp

definition sidecar_body :: "u32 \<Rightarrow> u32 \<Rightarrow> block_directory \<Rightarrow> bytes" where
  "sidecar_body n tail entries = DIR_MAGIC @ le32 n @ le32 tail @ le32 (word_of_nat (length entries)) @ concat (map entry_bytes entries)"

lemma encode_dir_sidecar_body:
  "encode_dir_sidecar crc32 n tail entries = sidecar_body n tail entries @ le32 (crc32 (sidecar_body n tail entries))"
  by (simp add: encode_dir_sidecar_def sidecar_body_def entry_bytes_def Let_def)

lemma length_sidecar_body: "length (sidecar_body n tail entries) = 20 + 8 * length entries"
  by (simp add: sidecar_body_def)

lemma sidecar_parse_encode:
  assumes "length entries \<le> u32_max" and "length entries \<le> max_fold_blocks limits"
  shows "parse_dir_sidecar_with_limits crc32 (encode_dir_sidecar crc32 n tail entries) n (unat tail) limits
    = Inr (Some (tail, entries))"
proof -
  let ?p = "sidecar_body n tail entries" and ?b = "encode_dir_sidecar crc32 n tail entries"
  have b: "?b = ?p @ le32 (crc32 ?p)" by (rule encode_dir_sidecar_body)
  have len: "length ?b = 24 + 8 * length entries" by (simp add: b length_sidecar_body)
  have cut: "length ?b - 4 = length ?p" by (simp add: len length_sidecar_body)
  have fields: "slice ?b 0 8 = DIR_MAGIC" "slice ?b 8 12 = le32 n" "slice ?b 12 16 = le32 tail"
    "slice ?b 16 20 = le32 (word_of_nat (length entries))"
    unfolding b sidecar_body_def by (simp_all add: slice_def)
  have u: "unat (word_of_nat (length entries) :: u32) = length entries" using assms(1) by (rule unat_u32_of_nat)
  have es: "sidecar_entries ?b 0 (length entries) = entries"
    by (rule sidecar_entries_at [where rest = "le32 (crc32 ?p)"]) (simp add: b sidecar_body_def)
  have cm: "Option.bind (checked_mul (length entries) 8) (checked_add 24) = Some (length ?b)"
    using assms(1) by (simp add: len checked_mul_def checked_add_def u32_max_def u64_max_def)
  have c: "crc32 (take (length ?b - 4) ?b) = u32_of_le (drop (length ?b - 4) ?b)" unfolding cut by (simp add: b)
  have l24: "\<not> length ?b < 24" by (simp add: len)
  have adm: "admitted (admit_fold_blocks limits (length entries)) = Inr ()" using assms(2) by simp
  show ?thesis
    unfolding parse_dir_sidecar_with_limits_def fields u32_of_le_le32 u Let_def adm es using c l24 cm by simp
qed

lemma sidecar_parse_exact:
  assumes "parse_dir_sidecar_with_limits crc32 b n file_len limits = Inr (Some (tail, entries))"
  shows "b = encode_dir_sidecar crc32 n tail entries" and "unat tail = file_len"
    and "length entries \<le> max_fold_blocks limits"
proof -
  let ?n = "unat (u32_of_le (slice b 16 20))"
  from assms have m: "24 \<le> length b" "slice b 0 8 = DIR_MAGIC"
    and c: "crc32 (take (length b - 4) b) = u32_of_le (drop (length b - 4) b)"
    and s: "u32_of_le (slice b 8 12) = n" "u32_of_le (slice b 12 16) = tail" "unat tail = file_len"
    and l: "Option.bind (checked_mul ?n 8) (checked_add 24) = Some (length b)"
    and a: "?n \<le> max_fold_blocks limits" and es: "entries = sidecar_entries b 0 ?n"
    by (auto simp: parse_dir_sidecar_with_limits_def Let_def bind_res_Inr_iff split: if_splits)
  have len: "length b = 24 + 8 * ?n" using l by (auto simp: checked_mul_def checked_add_def split: if_splits)
  have ne: "length entries = ?n"
  proof -
    have "length (sidecar_entries b i k) = k" for i k by (induction k arbitrary: i) (simp_all add: Let_def)
    then show ?thesis by (simp add: es)
  qed
  have w: "le32 (word_of_nat (length entries)) = slice b 16 20" using len by (simp add: ne le32_u32_of_le)
  have body: "concat (map entry_bytes entries) = slice b 20 (length b - 4)"
    using sidecar_entries_bytes [of 0 ?n b] len by (simp add: es mult.commute)
  have "sidecar_body n tail entries = slice b 0 8 @ slice b 8 12 @ slice b 12 16 @ slice b 16 20 @ slice b 20 (length b - 4)"
    unfolding sidecar_body_def w body m(2) using len by (simp flip: s add: le32_u32_of_le)
  also have "\<dots> = slice b 0 (length b - 4)" using len by (simp add: slice_append)
  finally have p: "sidecar_body n tail entries = take (length b - 4) b" by (simp add: slice_def)
  have "le32 (crc32 (take (length b - 4) b)) = drop (length b - 4) b" unfolding c using len by (intro le32_u32_of_le) simp
  then show "b = encode_dir_sidecar crc32 n tail entries" unfolding encode_dir_sidecar_body p by simp
  show "unat tail = file_len" "length entries \<le> max_fold_blocks limits" using s a ne by simp_all
qed

section \<open>Whole frames and a torn tail\<close>

lemma scan_prefix:
  assumes "length header = SEG_HDR_LEN" and "data = header @ concat (map fst fs) @ take n torn"
    and "\<forall>(f, h) \<in> set ((torn, th) # fs). whole_frame blake3 hdict f h \<and> frame_admitted limits h"
    and "n < length torn" and "length data \<le> SEG_MAX_LIMIT" and "limits_ok limits"
    and "length fs \<le> max_fold_blocks limits"
  shows "scan_tail_controlled_with_limits blake3 (mem_read data) (length data) hdict punched (\<lambda>_. Inr ()) limits =
    Inr (SEG_HDR_LEN + length (concat (map fst fs)), frame_dir SEG_HDR_LEN fs)"
proof -
  have stop: "length data \<le> u32_max" using assms(5) by (simp add: SEG_MAX_LIMIT_def)
  have d: "drop SEG_HDR_LEN data = concat (map fst fs) @ take n torn" using assms(1,2) by simp
  have h: "SEG_HDR_LEN \<le> length data" using assms(1,2) by simp
  note c = cursor_advance [OF d h]
  obtain k' where k': "scan_loop blake3 (mem_read data) (length data) hdict punched (\<lambda>_. Inr ()) limits 0 SEG_HDR_LEN [] =
      scan_loop blake3 (mem_read data) (length data) hdict punched (\<lambda>_. Inr ()) limits k'
        (SEG_HDR_LEN + length (concat (map fst fs))) ([] @ frame_dir SEG_HDR_LEN fs)"
    using scan_whole_frames [OF d _ _ h stop, of blake3 hdict limits "[]" punched 0] assms(3,7) by auto
  have "scan_loop blake3 (mem_read data) (length data) hdict punched (\<lambda>_. Inr ()) limits k'
        (SEG_HDR_LEN + length (concat (map fst fs))) (frame_dir SEG_HDR_LEN fs)
      = Inr (SEG_HDR_LEN + length (concat (map fst fs)), frame_dir SEG_HDR_LEN fs)"
    by (rule scan_torn [OF c(1), where h = th, OF _ _ assms(4) c(2) stop]) (use assms(3) in simp_all)
  then show ?thesis
    using k' h assms(5,6) by (simp add: scan_tail_controlled_with_limits_def scan_frames_window_def)
qed

lemma scan_loop_of:
  "scan_tail_controlled_with_limits blake3 f stop hdict punched ctl limits = Inr r \<Longrightarrow>
   scan_loop blake3 f stop hdict punched ctl limits 0 SEG_HDR_LEN [] = Inr r \<and> SEG_HDR_LEN \<le> stop"
  by (auto simp: scan_tail_controlled_with_limits_def scan_frames_window_def bind_res_Inr_iff
      validate_limits_Inr_iff split: if_splits)

text \<open>A one-frame segment, for evaluation.\<close>

definition sample_frame :: bytes where
  "sample_frame = [0xA5, 0, 1, 0, 0, 0, 1, 0, 0, 0, 7, 7, 5, 0, 0, 0, 9, 7, 7, 7, 7]"

definition sample_hdr :: block_hdr where
  "sample_hdr = \<lparr> bh_block_id = 5, bh_codec = 0, bh_raw = 1, bh_stored = 1, bh_r16 = [7, 7] \<rparr>"

lemma sample_whole: "whole_frame (\<lambda>b. replicate 32 7) False sample_frame sample_hdr"
  by (simp add: whole_frame_def frame_len_def verify_frame_bytes_def parse_hdr_def block_consts slice_def
      u32_of_le_def xsum_def Let_def replicate_numeral sample_frame_def sample_hdr_def)

lemma sample_admitted: "frame_admitted default_limits sample_hdr" "1 \<le> max_fold_blocks default_limits"
  by (simp_all add: frame_admitted_def default_limits_def default_max_stored_frame_bytes_def sample_hdr_def
      default_max_decoded_frame_bytes_def default_max_fold_blocks_def)

lemma length_sample_frame [simp]: "length sample_frame = 21"
  by (simp add: sample_frame_def)

lemma sample_scan:
  "scan_tail_controlled_with_limits (\<lambda>b. replicate 32 7) (mem_read (replicate 48 0 @ sample_frame)) 69 False []
     (\<lambda>_. Inr ()) default_limits = Inr (69, [(5, 48)])"
  using scan_prefix [of "replicate 48 0" "replicate 48 0 @ sample_frame" "[(sample_frame, sample_hdr)]" 0
      sample_frame sample_hdr "\<lambda>b. replicate 32 7" False default_limits "[]"] sample_whole sample_admitted
  by (simp add: SEG_HDR_LEN_def SEG_MAX_LIMIT_def u32_max_def) (simp add: sample_hdr_def)

lemma sample_valid:
  "validate_dir_sidecar_entries (mem_read (replicate 48 0 @ sample_frame)) 69 False [(5, 48)] default_limits = Inr True"
proof -
  have "mem_read (replicate 48 0 @ sample_frame) 48 BLOCK_HDR_LEN = Inr (take BLOCK_HDR_LEN sample_frame)"
    by (simp add: mem_read_def slice_def block_consts)
  moreover have "parse_hdr (take BLOCK_HDR_LEN sample_frame) False = Inr sample_hdr"
    by (rule parse_hdr_take [OF whole_frame_parse(1) [OF sample_whole]]) simp
  moreover have "frame_len sample_hdr = 21" "bh_block_id sample_hdr = 5"
    by (simp_all add: frame_len_def sample_hdr_def block_consts)
  ultimately show ?thesis
    using sample_admitted by (simp add: validate_dir_sidecar_entries_def SEG_HDR_LEN_def frame_admitted_def
        checked_add_def u64_max_def bind_res_Inr_iff)
qed

section \<open>Properties\<close>

text \<open>C37. The member namespace is exact: a name parses to a segment number precisely when it is the name
  that number is written with, and the number fits eight digits. No second spelling of a segment
  exists.\<close>

theorem segment_name_exact:
  "parse_seg_name name = Some n \<longleftrightarrow> n \<le> MAX_SEGMENT_NUMBER \<and> name = seg_name n"
  by (auto simp: parse_seg_name_def seg_name_def parse_member_exact MAX_SEGMENT_NUMBER_def)

text \<open>C36. A segment header is accepted exactly when its first 48 bytes are the encoding of a header with
  the number of the file name and zero flags; the encrypted flag and every unknown flag refuse.\<close>

theorem segment_header_exact:
  "seg_header_decode b expect_seg = Inr h \<longleftrightarrow>
     take 48 b = seg_header_encode h \<and> length (sh_dict_id h) = 32 \<and> sh_seg h = expect_seg \<and> sh_flags h = 0"
  using seg_header_decode_exact by (simp add: SEG_HDR_LEN_def)

text \<open>C8. A crash in the middle of an append loses that append and nothing else: over a segment that
  holds whole frames followed by a proper prefix of one more, the tail scan succeeds, its end is
  the end of the last whole frame, and the directory names every whole frame at its offset.\<close>

theorem crash_tail_recovered:
  assumes "length header = SEG_HDR_LEN" and "data = header @ concat (map fst fs) @ take n torn"
    and "\<forall>(f, h) \<in> set ((torn, th) # fs). whole_frame blake3 hdict f h \<and> frame_admitted limits h"
    and "n < length torn" and "length data \<le> SEG_MAX_LIMIT" and "limits_ok limits"
    and "length fs \<le> max_fold_blocks limits"
  shows "scan_tail_with_limits blake3 (mem_read data) (length data) hdict punched limits =
    Inr (SEG_HDR_LEN + length (concat (map fst fs)), frame_dir SEG_HDR_LEN fs)"
  using scan_prefix [OF assms, of punched] assms(5) by (simp add: scan_tail_with_limits_def)

theorem crash_tail_recovered_witness:
  "scan_tail_with_limits (\<lambda>b. replicate 32 7) (mem_read (replicate 48 0 @ sample_frame @ take 20 sample_frame))
     89 False [] default_limits = Inr (69, [(5, 48)])"
  using crash_tail_recovered [of "replicate 48 0" "replicate 48 0 @ sample_frame @ take 20 sample_frame"
      "[(sample_frame, sample_hdr)]" 20 sample_frame sample_hdr "\<lambda>b. replicate 32 7" False default_limits "[]"]
    sample_whole sample_admitted
  by (simp add: SEG_HDR_LEN_def SEG_MAX_LIMIT_def u32_max_def) (simp add: sample_hdr_def)



text \<open>C10. An advisory sidecar can replace the scan only by agreeing with it: when a sidecar's entries
  validate against the frame headers and the authoritative scan of the same segment succeeds, the entries
  are exactly the directory the scan returns if the scan reached the end of the segment. If it stopped
  short, they are that directory and one entry more, for the frame at which the scan stopped, which ends
  with the segment and is damaged.\<close>

theorem validated_sidecar_is_the_scan:
  assumes "validate_dir_sidecar_entries (mem_read data) file_len hdict entries limits = Inr True"
    and "scan_tail_controlled_with_limits blake3 (mem_read data) file_len hdict punched ctl limits' = Inr (e, dir)"
  shows "e = file_len \<and> entries = dir \<or>
    e < file_len \<and> (\<exists>bid o32. entries = dir @ [(bid, o32)] \<and> unat o32 = e \<and>
      damaged_frame blake3 data hdict punched e file_len)"
proof -
  note s = scan_loop_of [OF assms(2)]
  from scan_loop_sound [of blake3 data file_len hdict punched ctl limits' 0 SEG_HDR_LEN "[]" e dir] s
  have "frame_chain blake3 data file_len hdict punched SEG_HDR_LEN dir e" "residue blake3 data file_len hdict punched e" by auto
  then show ?thesis by (rule entries_agree [OF assms(1) [unfolded validate_dir_sidecar_entries_def]])
qed

text \<open>Both cases occur: a sound last frame is in the sidecar and in the scan, a damaged one only in the sidecar.\<close>

definition damaged_sample :: bytes where
  "damaged_sample = replicate 48 0 @ butlast sample_frame @ [8]"

lemma damaged_reads:
  "mem_read damaged_sample 48 BLOCK_HDR_LEN = Inr (take BLOCK_HDR_LEN sample_frame)"
  "mem_read damaged_sample 48 21 = Inr (butlast sample_frame @ [8])"
  "parse_hdr (take BLOCK_HDR_LEN sample_frame) False = Inr sample_hdr"
  "frame_len sample_hdr = 21" "bh_block_id sample_hdr = 5" "bh_stored sample_hdr = 1" "bh_raw sample_hdr = 1"
proof -
  show "mem_read damaged_sample 48 BLOCK_HDR_LEN = Inr (take BLOCK_HDR_LEN sample_frame)"
    "mem_read damaged_sample 48 21 = Inr (butlast sample_frame @ [8])"
    by (simp_all add: mem_read_def damaged_sample_def sample_frame_def slice_def block_consts)
  show "parse_hdr (take BLOCK_HDR_LEN sample_frame) False = Inr sample_hdr"
    by (rule parse_hdr_take [OF whole_frame_parse(1) [OF sample_whole]]) simp
  show "frame_len sample_hdr = 21" "bh_block_id sample_hdr = 5" "bh_stored sample_hdr = 1" "bh_raw sample_hdr = 1"
    by (simp_all add: frame_len_def sample_hdr_def block_consts)
qed

lemma damaged_valid: "validate_dir_sidecar_entries (mem_read damaged_sample) 69 False [(5, 48)] default_limits = Inr True"
  using sample_admitted damaged_reads
  by (simp add: validate_dir_sidecar_entries_def SEG_HDR_LEN_def frame_admitted_def checked_add_def u64_max_def bind_res_Inr_iff)

lemma damaged_scan: "scan_tail_controlled_with_limits (\<lambda>b. replicate 32 7) (mem_read damaged_sample) 69 False [] (\<lambda>_. Inr ())
    default_limits = Inr (48, [])"
proof -
  have "\<not> is_ok (verify_frame_bytes (\<lambda>b. replicate 32 7) (butlast sample_frame @ [8]) False)"
  proof -
    have "parse_hdr (butlast sample_frame @ [8]) False = Inr sample_hdr"
      by (simp add: parse_hdr_def slice_def block_consts u32_of_le_def Let_def sample_frame_def sample_hdr_def)
    then show ?thesis
      by (simp add: verify_frame_bytes_def damaged_reads(6) Let_def) (simp add: sample_frame_def xsum_def slice_def block_consts replicate_numeral)
  qed
  moreover have "u32_of_le (slice (take BLOCK_HDR_LEN sample_frame) 6 10) = 1"
    using parse_hdr_stored [OF damaged_reads(3)] damaged_reads(6) by simp
  ultimately have "scan_loop (\<lambda>b. replicate 32 7) (mem_read damaged_sample) 69 False [] (\<lambda>_. Inr ()) default_limits 0 48 [] = Inr (48, [])"
    using damaged_reads sample_admitted
    by (subst scan_loop.simps) (simp add: frame_admitted_def frame_end_def checked_add_def u64_max_def block_consts declared_punched_def bind_res_Inr_iff)
  then show ?thesis
    by (simp add: scan_tail_controlled_with_limits_def scan_frames_window_def SEG_HDR_LEN_def SEG_MAX_LIMIT_def u32_max_def)
qed

theorem validated_sidecar_is_the_scan_witness:
  "[(5, 48)] = [(5 :: u32, 48 :: u32)] \<and>
   (\<exists>bid o32. [(5, 48)] = [(bid :: u32, o32 :: u32)] \<and> unat o32 = 48 \<and>
      damaged_frame (\<lambda>b. replicate 32 7) damaged_sample False [] 48 69)"
  using validated_sidecar_is_the_scan [OF sample_valid sample_scan]
    validated_sidecar_is_the_scan [OF damaged_valid damaged_scan] by simp

text \<open>C38. Sidecar bytes have one reading: the parser returns a tail and entries only for the very bytes
  that encode them for this segment and this file length, whatever the checksum function.\<close>

theorem sidecar_parse_is_exact:
  assumes "length entries \<le> u32_max"
  shows "parse_dir_sidecar_with_limits crc32 b n file_len limits = Inr (Some (tail, entries)) \<longleftrightarrow>
    b = encode_dir_sidecar crc32 n tail entries \<and> unat tail = file_len \<and> length entries \<le> max_fold_blocks limits"
  using sidecar_parse_exact [of crc32 b n file_len limits tail entries] sidecar_parse_encode [OF assms, of limits crc32 n tail]
  by blast

theorem sidecar_parse_is_exact_witness:
  "parse_dir_sidecar_with_limits (\<lambda>_. 7) (encode_dir_sidecar (\<lambda>_. 7) 3 69 [(5, 48)]) 3 69 default_limits
   = Inr (Some (69, [(5, 48)]))"
  using sidecar_parse_is_exact [of "[(5, 48)]" "\<lambda>_. 7" "encode_dir_sidecar (\<lambda>_. 7) 3 69 [(5, 48)]" 3 69 default_limits 69]
  by (simp add: u32_max_def default_limits_def default_max_fold_blocks_def)

end
