(* ===== verification/Dedup.thy ===== *)
theory Dedup
  imports Block
begin

text \<open>
  The in-memory dedup window (\<open>src/src/fold/dedup.rs\<close>): an open-addressed, linear-probe table from
  piece hashes to locations. A missed entry costs space, a wrong one would alias one piece to the
  bytes of another, so the table is shown to be exactly a finite map.

  The probe loops return through \<open>option\<close>: \<open>None\<close> is a loop that does not end (or an index panic),
  and the theory shows that it cannot happen on a table the operations built. Capacities stay far
  below the address space.
\<close>

definition EMPTY :: digest where "EMPTY = replicate 32 0"

record slot =
  s_hash :: digest
  s_loc :: loc

record dedup_table =
  slots :: "slot list"
  dmask :: nat
  dlen :: nat
  dzero :: "loc option"

definition empty_slot :: slot where
  "empty_slot = \<lparr> s_hash = EMPTY, s_loc = loc_default \<rparr>"

section \<open>Operations\<close>

text \<open>\<open>usize::next_power_of_two\<close>.\<close>

function next_pow2_from :: "nat \<Rightarrow> nat \<Rightarrow> nat" where
  "next_pow2_from p n = (if n \<le> p \<or> p = 0 then p else next_pow2_from (2 * p) n)"
  by pat_completeness auto

termination next_pow2_from
  by (relation "measure (\<lambda>(p, n). n - p)") auto

declare next_pow2_from.simps [simp del]

definition dedup_with_capacity :: "nat \<Rightarrow> dedup_table" where
  "dedup_with_capacity cap_pow2 =
    (let cap = max (next_pow2_from 1 cap_pow2) 16
     in \<lparr> slots = replicate cap empty_slot, dmask = cap - 1, dlen = 0, dzero = None \<rparr>)"

definition dedup_new :: dedup_table where
  "dedup_new = dedup_with_capacity (2 ^ 12)"

definition dedup_len :: "dedup_table \<Rightarrow> nat" where
  "dedup_len t = dlen t + (if dzero t \<noteq> None then 1 else 0)"

definition dedup_is_empty :: "dedup_table \<Rightarrow> bool" where
  "dedup_is_empty t \<longleftrightarrow> dedup_len t = 0"

definition probe_start :: "nat \<Rightarrow> digest \<Rightarrow> nat" where
  "probe_start m h = unat (u64_of_le (slice h 0 8)) AND m"

partial_function (option) get_loop :: "slot list \<Rightarrow> nat \<Rightarrow> digest \<Rightarrow> nat \<Rightarrow> loc option option" where
  "get_loop ss m h i =
    (case get_at ss i of None \<Rightarrow> None
     | Some s \<Rightarrow> if s_hash s = EMPTY then Some None
                 else if s_hash s = h then Some (Some (s_loc s))
                 else get_loop ss m h ((i + 1) AND m))"

definition dedup_get :: "dedup_table \<Rightarrow> digest \<Rightarrow> loc option option" where
  "dedup_get t h =
    (if h = EMPTY then Some (dzero t)
     else get_loop (slots t) (dmask t) h (probe_start (dmask t) h))"

text \<open>The slots after the insertion, and whether an entry was added.\<close>

partial_function (option) insert_loop ::
  "slot list \<Rightarrow> nat \<Rightarrow> digest \<Rightarrow> loc \<Rightarrow> nat \<Rightarrow> (slot list \<times> bool) option" where
  "insert_loop ss m h l i =
    (case get_at ss i of None \<Rightarrow> None
     | Some s \<Rightarrow> if s_hash s = EMPTY then Some (ss[i := \<lparr> s_hash = h, s_loc = l \<rparr>], True)
                 else if s_hash s = h then Some (ss, False)
                 else insert_loop ss m h l ((i + 1) AND m))"

definition insert_raw :: "dedup_table \<Rightarrow> digest \<Rightarrow> loc \<Rightarrow> dedup_table option" where
  "insert_raw t h l =
    (case insert_loop (slots t) (dmask t) h l (probe_start (dmask t) h) of None \<Rightarrow> None
     | Some (ss, added) \<Rightarrow> Some (t\<lparr> slots := ss, dlen := dlen t + (if added then 1 else 0) \<rparr>))"

fun grow_from :: "slot list \<Rightarrow> dedup_table \<Rightarrow> dedup_table option" where
  "grow_from [] t = Some t"
| "grow_from (s # old) t =
    (if s_hash s \<noteq> EMPTY
     then (case insert_raw t (s_hash s) (s_loc s) of None \<Rightarrow> None | Some t \<Rightarrow> grow_from old t)
     else grow_from old t)"

definition dedup_grow :: "dedup_table \<Rightarrow> dedup_table option" where
  "dedup_grow t =
    (let bigger = replicate (length (slots t) * 2) empty_slot
     in grow_from (slots t) (t\<lparr> slots := bigger, dmask := length bigger - 1, dlen := 0 \<rparr>))"

definition dedup_insert :: "dedup_table \<Rightarrow> digest \<Rightarrow> loc \<Rightarrow> dedup_table option" where
  "dedup_insert t h l =
    (if h = EMPTY then Some (t\<lparr> dzero := Some l \<rparr>)
     else if (dlen t + 1) * 4 > length (slots t) * 3
     then (case dedup_grow t of None \<Rightarrow> None | Some t \<Rightarrow> insert_raw t h l)
     else insert_raw t h l)"

definition dedup_clear :: "dedup_table \<Rightarrow> dedup_table" where
  "dedup_clear t =
     t\<lparr> slots := map (\<lambda>s. s\<lparr> s_hash := EMPTY \<rparr>) (slots t), dlen := 0, dzero := None \<rparr>"

section \<open>Well-formed tables\<close>

definition entries_of :: "slot list \<Rightarrow> (digest \<times> loc) list" where
  "entries_of ss = map (\<lambda>s. (s_hash s, s_loc s)) (filter (\<lambda>s. s_hash s \<noteq> EMPTY) ss)"

text \<open>Every entry can be reached from its probe start without crossing an empty slot.\<close>

definition reachable_slots :: "slot list \<Rightarrow> nat \<Rightarrow> bool" where
  "reachable_slots ss m \<longleftrightarrow>
    (\<forall>d < length ss. \<forall>h. h \<noteq> EMPTY \<and> s_hash (ss ! ((probe_start m h + d) mod length ss)) = h \<longrightarrow>
      (\<forall>n < d. s_hash (ss ! ((probe_start m h + n) mod length ss)) \<noteq> EMPTY))"

definition table_ok :: "dedup_table \<Rightarrow> bool" where
  "table_ok t \<longleftrightarrow> (\<exists>k. length (slots t) = 2 ^ k) \<and> dmask t = length (slots t) - 1 \<and>
     dlen t = length (entries_of (slots t)) \<and> distinct (map fst (entries_of (slots t))) \<and>
     reachable_slots (slots t) (dmask t)"

definition load_ok :: "dedup_table \<Rightarrow> bool" where
  "load_ok t \<longleftrightarrow> dlen t * 4 \<le> length (slots t) * 3 \<and> 16 \<le> length (slots t)"

text \<open>The map a table stands for.\<close>

definition table_map :: "dedup_table \<Rightarrow> digest \<Rightarrow> loc option" where
  "table_map t h = (if h = EMPTY then dzero t else map_of (entries_of (slots t)) h)"

section \<open>Probing\<close>

lemma and_mask_mod: "n = 2 ^ k \<Longrightarrow> (x :: nat) AND (n - 1) = x mod n"
  by (metis mask_eq_exp_minus_1 take_bit_eq_mask take_bit_eq_mod)

lemma probe_step:
  assumes "table_ok t"
  shows "(i + 1) AND dmask t = (i + 1) mod length (slots t)" and "probe_start (dmask t) h < length (slots t)"
    and "0 < length (slots t)"
proof -
  obtain k where k: "length (slots t) = 2 ^ k" "dmask t = length (slots t) - 1" using assms by (auto simp: table_ok_def)
  show "(i + 1) AND dmask t = (i + 1) mod length (slots t)" using and_mask_mod [OF k(1)] k(2) by simp
  show "0 < length (slots t)" using k(1) by simp
  then show "probe_start (dmask t) h < length (slots t)" using and_mask_mod [OF k(1)] k(2) by (simp add: probe_start_def)
qed

lemma entries_filter_length: "length (entries_of ss) = length (filter (\<lambda>s. s_hash s \<noteq> EMPTY) ss)"
  by (simp add: entries_of_def)

lemma some_empty_slot:
  assumes "length (entries_of ss) < length ss"
  obtains j where "j < length ss" "s_hash (ss ! j) = EMPTY"
proof -
  have "\<exists>s \<in> set ss. s_hash s = EMPTY"
  proof (rule ccontr)
    assume "\<not> ?thesis"
    then have "filter (\<lambda>s. s_hash s \<noteq> EMPTY) ss = ss" by (intro filter_True) auto
    with assms show False by (simp add: entries_filter_length)
  qed
  with that show thesis by (auto simp: in_set_conv_nth)
qed

lemma entries_of_set: "(h, l) \<in> set (entries_of ss) \<longleftrightarrow> (\<exists>j < length ss. s_hash (ss ! j) = h \<and> s_loc (ss ! j) = l \<and> h \<noteq> EMPTY)"
  by (auto simp: entries_of_def image_iff in_set_conv_nth)

lemma circular_distance:
  assumes "s < N" and "j < (N :: nat)"
  obtains d where "d < N" "(s + d) mod N = j"
proof (cases "s \<le> j")
  case True
  then show thesis using assms that [of "j - s"] by simp
next
  case False
  then have "s + (N - s + j) = N + j" using assms by simp
  then have "(s + (N - s + j)) mod N = j" using assms by simp
  moreover have "N - s + j < N" using False assms by linarith
  ultimately show thesis by (rule that [rotated])
qed

text \<open>The slot at which the probe for a hash stops.\<close>

lemma probe_stop:
  assumes "table_ok t" and "dlen t < length (slots t)"
  obtains n where "n < length (slots t)"
    "\<forall>k < n. s_hash (slots t ! ((probe_start (dmask t) h + k) mod length (slots t))) \<notin> {EMPTY, h}"
    "s_hash (slots t ! ((probe_start (dmask t) h + n) mod length (slots t))) \<in> {EMPTY, h}"
proof -
  let ?N = "length (slots t)" and ?s = "probe_start (dmask t) h"
  let ?P = "\<lambda>n. s_hash (slots t ! ((?s + n) mod ?N)) \<in> {EMPTY, h}"
  obtain j where j: "j < ?N" "s_hash (slots t ! j) = EMPTY"
    using some_empty_slot [of "slots t"] assms by (auto simp: table_ok_def)
  have s: "?s < ?N" using probe_step [OF assms(1)] by simp
  obtain d where d: "d < ?N" "(?s + d) mod ?N = j" by (rule circular_distance [OF s j(1)])
  have ex: "\<exists>n. n < ?N \<and> ?P n" by (rule exI [of _ d]) (simp add: d j(2))
  define n where "n = (LEAST n. n < ?N \<and> ?P n)"
  have n: "n < ?N" "?P n" using LeastI_ex [OF ex] by (simp_all add: n_def)
  have "\<not> ?P k" if "k < n" for k
    using not_less_Least [of k "\<lambda>n. n < ?N \<and> ?P n"] that n(1) unfolding n_def [symmetric] by linarith
  then show thesis using that [OF n(1) _ n(2)] by blast
qed

text \<open>An empty stop means the hash is absent.\<close>

lemma stop_absent:
  assumes ok: "table_ok t" and h: "h \<noteq> EMPTY" and n: "n < length (slots t)"
    and before: "\<forall>k < n. s_hash (slots t ! ((probe_start (dmask t) h + k) mod length (slots t))) \<notin> {EMPTY, h}"
    and stop: "s_hash (slots t ! ((probe_start (dmask t) h + n) mod length (slots t))) = EMPTY"
  shows "h \<notin> fst ` set (entries_of (slots t))"
proof
  let ?N = "length (slots t)" and ?s = "probe_start (dmask t) h"
  assume "h \<in> fst ` set (entries_of (slots t))"
  then obtain j where j: "j < ?N" "s_hash (slots t ! j) = h" by (auto simp: entries_of_set)
  have s: "?s < ?N" using probe_step [OF ok] by simp
  obtain d where d: "d < ?N" "(?s + d) mod ?N = j" by (rule circular_distance [OF s j(1)])
  have at: "s_hash (slots t ! ((?s + d) mod ?N)) = h" using d j by simp
  have reach: "\<forall>k < d. s_hash (slots t ! ((?s + k) mod ?N)) \<noteq> EMPTY"
    using ok h d(1) at unfolding table_ok_def reachable_slots_def by blast
  consider "d < n" | "d = n" | "n < d" by linarith
  then show False
  proof cases
    case 1
    then show False using before at by auto
  next
    case 2
    then show False using stop at h by simp
  next
    case 3
    then show False using reach stop by blast
  qed
qed

lemma get_loop_reaches:
  assumes ok: "table_ok t" and h: "h \<noteq> EMPTY" and n: "n < length (slots t)"
    and before: "\<forall>k < n. s_hash (slots t ! ((probe_start (dmask t) h + k) mod length (slots t))) \<notin> {EMPTY, h}"
    and k: "k \<le> n"
  shows "get_loop (slots t) (dmask t) h ((probe_start (dmask t) h + k) mod length (slots t))
    = get_loop (slots t) (dmask t) h ((probe_start (dmask t) h + n) mod length (slots t))"
    and "insert_loop (slots t) (dmask t) h l ((probe_start (dmask t) h + k) mod length (slots t))
    = insert_loop (slots t) (dmask t) h l ((probe_start (dmask t) h + n) mod length (slots t))"
proof -
  let ?N = "length (slots t)" and ?s = "probe_start (dmask t) h"
  let ?i = "\<lambda>k. (?s + k) mod ?N"
  have pos: "0 < ?N" using probe_step [OF ok] by simp
  have next_slot: "(?i k + 1) AND dmask t = ?i (Suc k)" for k
    using probe_step(1) [OF ok, of "?i k"] by (simp add: mod_Suc_eq)
  have at: "get_at (slots t) (?i k) = Some (slots t ! ?i k)" for k using pos by (simp add: get_at_def)
  have step: "get_loop (slots t) (dmask t) h (?i k) = get_loop (slots t) (dmask t) h (?i (Suc k))"
      "insert_loop (slots t) (dmask t) h l (?i k) = insert_loop (slots t) (dmask t) h l (?i (Suc k))" if "k < n" for k
  proof -
    have b: "s_hash (slots t ! ?i k) \<noteq> EMPTY" "s_hash (slots t ! ?i k) \<noteq> h" using before that by auto
    show "get_loop (slots t) (dmask t) h (?i k) = get_loop (slots t) (dmask t) h (?i (Suc k))"
      by (subst get_loop.simps) (simp only: at option.case b if_False next_slot)
    show "insert_loop (slots t) (dmask t) h l (?i k) = insert_loop (slots t) (dmask t) h l (?i (Suc k))"
      by (subst insert_loop.simps) (simp only: at option.case b if_False next_slot)
  qed
  have "get_loop (slots t) (dmask t) h (?i k) = get_loop (slots t) (dmask t) h (?i n) \<and>
      insert_loop (slots t) (dmask t) h l (?i k) = insert_loop (slots t) (dmask t) h l (?i n)"
    using k
  proof (induction "n - k" arbitrary: k)
    case (Suc x)
    then have "k < n" "x = n - Suc k" "Suc k \<le> n" by simp_all
    with Suc.hyps(1) [of "Suc k"] step [of k] show ?case by simp
  qed simp
  then show "get_loop (slots t) (dmask t) h (?i k) = get_loop (slots t) (dmask t) h (?i n)"
    "insert_loop (slots t) (dmask t) h l (?i k) = insert_loop (slots t) (dmask t) h l (?i n)" by simp_all
qed

lemma probe_ends:
  assumes ok: "table_ok t" and h: "h \<noteq> EMPTY" and room: "dlen t < length (slots t)"
  obtains n where "n < length (slots t)"
    "\<forall>k < n. s_hash (slots t ! ((probe_start (dmask t) h + k) mod length (slots t))) \<notin> {EMPTY, h}"
    "s_hash (slots t ! ((probe_start (dmask t) h + n) mod length (slots t))) \<in> {EMPTY, h}"
    "get_loop (slots t) (dmask t) h (probe_start (dmask t) h)
      = get_loop (slots t) (dmask t) h ((probe_start (dmask t) h + n) mod length (slots t))"
    "\<forall>l. insert_loop (slots t) (dmask t) h l (probe_start (dmask t) h)
      = insert_loop (slots t) (dmask t) h l ((probe_start (dmask t) h + n) mod length (slots t))"
proof -
  obtain n where n: "n < length (slots t)"
    "\<forall>k < n. s_hash (slots t ! ((probe_start (dmask t) h + k) mod length (slots t))) \<notin> {EMPTY, h}"
    "s_hash (slots t ! ((probe_start (dmask t) h + n) mod length (slots t))) \<in> {EMPTY, h}"
    by (rule probe_stop [OF ok room])
  have s: "(probe_start (dmask t) h + 0) mod length (slots t) = probe_start (dmask t) h"
    using probe_step(2) [OF ok, of h] by simp
  note r = get_loop_reaches [OF ok h n(1,2), of 0, unfolded s]
  show thesis by (rule that [OF n]) (use r in auto)
qed

lemma dedup_get_map:
  assumes ok: "table_ok t" and room: "dlen t < length (slots t)"
  shows "dedup_get t h = Some (table_map t h)"
proof (cases "h = EMPTY")
  case False
  obtain n where n: "n < length (slots t)"
    "\<forall>k < n. s_hash (slots t ! ((probe_start (dmask t) h + k) mod length (slots t))) \<notin> {EMPTY, h}"
    "s_hash (slots t ! ((probe_start (dmask t) h + n) mod length (slots t))) \<in> {EMPTY, h}"
    "get_loop (slots t) (dmask t) h (probe_start (dmask t) h)
      = get_loop (slots t) (dmask t) h ((probe_start (dmask t) h + n) mod length (slots t))"
    by (rule probe_ends [OF ok False room])
  let ?j = "(probe_start (dmask t) h + n) mod length (slots t)"
  have j: "?j < length (slots t)" using probe_step [OF ok] by simp
  have at: "get_at (slots t) ?j = Some (slots t ! ?j)" using j by (simp add: get_at_def)
  have d: "distinct (map fst (entries_of (slots t)))" using ok by (simp add: table_ok_def)
  show ?thesis
  proof (cases "s_hash (slots t ! ?j) = EMPTY")
    case True
    have "h \<notin> fst ` set (entries_of (slots t))" by (rule stop_absent [OF ok False n(1,2) True])
    then have "table_map t h = None" using False by (simp add: table_map_def map_of_eq_None_iff)
    moreover have "get_loop (slots t) (dmask t) h ?j = Some None"
      by (subst get_loop.simps) (simp only: at option.case True simp_thms if_True)
    ultimately show ?thesis using False n(4) by (simp add: dedup_get_def)
  next
    case hit: False
    then have e: "s_hash (slots t ! ?j) = h" using n(3) by simp
    then have "(h, s_loc (slots t ! ?j)) \<in> set (entries_of (slots t))"
      using j False entries_of_set by blast
    then have "table_map t h = Some (s_loc (slots t ! ?j))" using False d by (simp add: table_map_def)
    moreover have "get_loop (slots t) (dmask t) h ?j = Some (Some (s_loc (slots t ! ?j)))"
      by (subst get_loop.simps) (simp only: at option.case hit e False if_False simp_thms if_True)
    ultimately show ?thesis using False n(4) by (simp add: dedup_get_def)
  qed
qed (simp add: dedup_get_def table_map_def)

section \<open>Insertion\<close>

lemma entries_update:
  assumes "j < length ss" and "s_hash (ss ! j) = EMPTY" and "h \<noteq> EMPTY"
  obtains A B where "entries_of ss = A @ B"
    and "entries_of (ss[j := \<lparr> s_hash = h, s_loc = l \<rparr>]) = A @ (h, l) # B"
proof
  have "entries_of ss = entries_of (take j ss @ ss ! j # drop (Suc j) ss)"
    using assms(1) by (simp add: id_take_nth_drop [symmetric])
  then show "entries_of ss = entries_of (take j ss) @ entries_of (drop (Suc j) ss)"
    using assms(2) by (simp add: entries_of_def)
  show "entries_of (ss[j := \<lparr> s_hash = h, s_loc = l \<rparr>]) = entries_of (take j ss) @ (h, l) # entries_of (drop (Suc j) ss)"
    using assms(1,3) by (simp add: upd_conv_take_nth_drop entries_of_def)
qed

lemma add_mod_small: "s < N \<Longrightarrow> d < N \<Longrightarrow> (s + d) mod N = (if s + d < N then s + d else s + d - (N :: nat))"
  by (simp add: le_mod_geq)

lemma circular_inject: "s < N \<Longrightarrow> d < N \<Longrightarrow> e < N \<Longrightarrow> (s + d) mod N = (s + e) mod (N :: nat) \<Longrightarrow> d = e"
  by (simp add: add_mod_small split: if_splits)

lemma reachable_update:
  assumes ok: "table_ok t" and h: "h \<noteq> EMPTY" and n: "n < length (slots t)"
    and before: "\<forall>k < n. s_hash (slots t ! ((probe_start (dmask t) h + k) mod length (slots t))) \<notin> {EMPTY, h}"
  shows "reachable_slots ((slots t)[(probe_start (dmask t) h + n) mod length (slots t) := \<lparr> s_hash = h, s_loc = l \<rparr>]) (dmask t)"
proof -
  let ?N = "length (slots t)"
  let ?j = "(probe_start (dmask t) h + n) mod ?N"
  let ?ss = "(slots t)[?j := \<lparr> s_hash = h, s_loc = l \<rparr>]"
  have N: "0 < ?N" using probe_step [OF ok] by simp
  have keep: "s_hash (?ss ! i) \<noteq> EMPTY" if "s_hash (slots t ! i) \<noteq> EMPTY" for i
    using that h N by (cases "i = ?j") auto
  have "s_hash (?ss ! ((probe_start (dmask t) h' + m) mod ?N)) \<noteq> EMPTY"
    if d: "d < ?N" and h': "h' \<noteq> EMPTY" and at: "s_hash (?ss ! ((probe_start (dmask t) h' + d) mod ?N)) = h'" and m: "m < d"
    for d h' m
  proof (cases "(probe_start (dmask t) h' + d) mod ?N = ?j")
    case True
    then have "h' = h" using at N by simp
    have "d = n" by (rule circular_inject [OF probe_step(2) [OF ok] d n True [unfolded \<open>h' = h\<close>]])
    then have "s_hash (slots t ! ((probe_start (dmask t) h' + m) mod ?N)) \<noteq> EMPTY"
      using before m \<open>h' = h\<close> by auto
    then show ?thesis by (rule keep)
  next
    case False
    then have "s_hash (slots t ! ((probe_start (dmask t) h' + d) mod ?N)) = h'" using at by simp
    then have "s_hash (slots t ! ((probe_start (dmask t) h' + m) mod ?N)) \<noteq> EMPTY"
      using ok d h' m unfolding table_ok_def reachable_slots_def by blast
    then show ?thesis by (rule keep)
  qed
  then show ?thesis unfolding reachable_slots_def length_list_update by blast
qed

lemma insert_raw_ok:
  assumes ok: "table_ok t" and h: "h \<noteq> EMPTY" and room: "dlen t < length (slots t)"
  obtains t' where "insert_raw t h l = Some t'" and "table_ok t'" and "length (slots t') = length (slots t)"
    and "dzero t' = dzero t" and "dlen t' \<le> dlen t + 1"
    and "table_map t' = (if table_map t h = None then (table_map t)(h \<mapsto> l) else table_map t)"
proof -
  obtain n where n: "n < length (slots t)"
    "\<forall>k < n. s_hash (slots t ! ((probe_start (dmask t) h + k) mod length (slots t))) \<notin> {EMPTY, h}"
    "s_hash (slots t ! ((probe_start (dmask t) h + n) mod length (slots t))) \<in> {EMPTY, h}"
    "\<forall>l. insert_loop (slots t) (dmask t) h l (probe_start (dmask t) h)
      = insert_loop (slots t) (dmask t) h l ((probe_start (dmask t) h + n) mod length (slots t))"
    by (rule probe_ends [OF ok h room])
  let ?N = "length (slots t)"
  let ?j = "(probe_start (dmask t) h + n) mod ?N"
  have j: "?j < ?N" using probe_step [OF ok] by simp
  have at: "get_at (slots t) ?j = Some (slots t ! ?j)" using j by (simp add: get_at_def)
  have d: "distinct (map fst (entries_of (slots t)))" using ok by (simp add: table_ok_def)
  show thesis
  proof (cases "s_hash (slots t ! ?j) = EMPTY")
    case False
    then have e: "s_hash (slots t ! ?j) = h" using n(3) by simp
    then have "(h, s_loc (slots t ! ?j)) \<in> set (entries_of (slots t))" using j h entries_of_set by blast
    then have "(table_map t h = None) = False" using h d by (simp add: table_map_def)
    moreover have "insert_loop (slots t) (dmask t) h l ?j = Some (slots t, False)"
      by (subst insert_loop.simps) (simp only: at option.case False e h if_False simp_thms if_True)
    ultimately show thesis using that [of t] ok n(4) by (simp add: insert_raw_def del: not_None_eq)
  next
    case True
    let ?ss = "(slots t)[?j := \<lparr> s_hash = h, s_loc = l \<rparr>]"
    let ?t = "t\<lparr> slots := ?ss, dlen := dlen t + 1 \<rparr>"
    have absent: "h \<notin> fst ` set (entries_of (slots t))" by (rule stop_absent [OF ok h n(1,2) True])
    have il: "insert_loop (slots t) (dmask t) h l ?j = Some (?ss, True)"
      by (subst insert_loop.simps) (simp only: at option.case True simp_thms if_True)
    obtain A B where ab: "entries_of (slots t) = A @ B" "entries_of ?ss = A @ (h, l) # B"
      by (rule entries_update [OF j True h])
    have "dlen t = length (entries_of (slots t))" using ok by (simp add: table_ok_def)
    then have len1: "dlen t + 1 = length (entries_of ?ss)" unfolding ab by simp
    have dist: "distinct (map fst (entries_of ?ss))" using d absent unfolding ab by auto
    have "table_ok ?t"
      unfolding table_ok_def
    proof (intro conjI)
      show "\<exists>k. length (slots ?t) = 2 ^ k" "dmask ?t = length (slots ?t) - 1" using ok by (simp_all add: table_ok_def)
    qed (use len1 dist reachable_update [OF ok h n(1,2), of l] in simp_all)
    moreover have "table_map ?t = (table_map t)(h \<mapsto> l)"
    proof
      fix x
      show "table_map ?t x = ((table_map t)(h \<mapsto> l)) x"
        using absent h by (auto simp: table_map_def ab map_add_def split: option.splits)
          (force simp: map_of_eq_None_iff image_iff dest: map_of_SomeD)+
    qed
    moreover have "table_map t h = None" using absent h by (simp add: table_map_def map_of_eq_None_iff)
    ultimately show thesis using that [of ?t] il n(4) by (simp add: insert_raw_def)
  qed
qed

section \<open>Growth, capacity and clearing\<close>

lemma table_ok_empty:
  assumes "length ss = 2 ^ k" and "\<forall>s \<in> set ss. s_hash s = EMPTY"
  shows "table_ok (t\<lparr> slots := ss, dmask := length ss - 1, dlen := 0 \<rparr>)"
proof -
  have e: "entries_of ss = []" using assms(2) by (simp add: entries_of_def filter_empty_conv)
  have "s_hash (ss ! i) = EMPTY" if "i < length ss" for i using assms(2) that by simp
  moreover have "0 < length ss" using assms(1) by simp
  ultimately have "s_hash (ss ! (i mod length ss)) = EMPTY" for i by simp
  then have "reachable_slots ss (length ss - 1)" by (simp add: reachable_slots_def)
  then show ?thesis using assms(1) e by (simp add: table_ok_def)
qed

lemma grow_from_ok:
  "table_ok t \<Longrightarrow> dlen t + length (entries_of old) < length (slots t) \<Longrightarrow>
   \<exists>t'. grow_from old t = Some t' \<and> table_ok t' \<and> length (slots t') = length (slots t) \<and> dzero t' = dzero t \<and>
     dlen t' \<le> dlen t + length (entries_of old) \<and>
     (\<forall>h. h \<noteq> EMPTY \<longrightarrow> table_map t' h = (case table_map t h of None \<Rightarrow> map_of (entries_of old) h | Some l \<Rightarrow> Some l))"
proof (induction old arbitrary: t)
  case Nil
  then show ?case by (auto simp: entries_of_def split: option.splits)
next
  case (Cons s old)
  show ?case
  proof (cases "s_hash s = EMPTY")
    case True
    then have e: "entries_of (s # old) = entries_of old" by (simp add: entries_of_def)
    show ?thesis using Cons.IH [OF Cons.prems(1)] Cons.prems(2) True unfolding e by simp
  next
    case False
    then have e: "entries_of (s # old) = (s_hash s, s_loc s) # entries_of old" by (simp add: entries_of_def)
    have room: "dlen t < length (slots t)" using Cons.prems(2) by simp
    obtain t1 where t1: "insert_raw t (s_hash s) (s_loc s) = Some t1" "table_ok t1" "length (slots t1) = length (slots t)"
      "dzero t1 = dzero t" "dlen t1 \<le> dlen t + 1"
      "table_map t1 = (if table_map t (s_hash s) = None then (table_map t)(s_hash s \<mapsto> s_loc s) else table_map t)"
      by (rule insert_raw_ok [OF Cons.prems(1) False room])
    have "dlen t1 + length (entries_of old) < length (slots t1)" using Cons.prems(2) t1(3,5) by (simp add: e)
    from Cons.IH [OF t1(2) this] obtain t' where t': "grow_from old t1 = Some t'" "table_ok t'"
      "length (slots t') = length (slots t1)" "dzero t' = dzero t1" "dlen t' \<le> dlen t1 + length (entries_of old)"
      "\<And>h. h \<noteq> EMPTY \<Longrightarrow> table_map t' h = (case table_map t1 h of None \<Rightarrow> map_of (entries_of old) h | Some l \<Rightarrow> Some l)"
      by blast
    have "table_map t' h = (case table_map t h of None \<Rightarrow> map_of (entries_of (s # old)) h | Some l \<Rightarrow> Some l)"
      if "h \<noteq> EMPTY" for h
      using t'(6) [OF that] t1(6) by (auto simp: e split: option.splits)
    then show ?thesis using t1 t' False by (intro exI [of _ t']) (simp add: e)
  qed
qed

lemma map_of_entries_EMPTY: "map_of (entries_of ss) EMPTY = None"
  by (auto simp: map_of_eq_None_iff entries_of_def)

lemma dedup_grow_ok:
  assumes ok: "table_ok t"
  obtains t' where "dedup_grow t = Some t'" "table_ok t'" "length (slots t') = 2 * length (slots t)"
    "dlen t' \<le> dlen t" "table_map t' = table_map t"
proof -
  let ?ss = "replicate (length (slots t) * 2) empty_slot"
  let ?e = "t\<lparr> slots := ?ss, dmask := length ?ss - 1, dlen := 0 \<rparr>"
  obtain k where k: "length (slots t) = 2 ^ k" and l: "dlen t = length (entries_of (slots t))"
    using ok by (auto simp: table_ok_def)
  have "length ?ss = 2 ^ Suc k" by (simp add: k)
  then have e: "table_ok ?e" by (rule table_ok_empty) (simp add: empty_slot_def)
  have "length (entries_of (slots t)) \<le> length (slots t)" by (simp add: entries_filter_length)
  moreover have "0 < length (slots t)" using k by simp
  ultimately have "length (entries_of (slots t)) < length (slots t) * 2" by linarith
  then have "dlen ?e + length (entries_of (slots t)) < length (slots ?e)" by simp
  from grow_from_ok [OF e this] obtain t' where t': "grow_from (slots t) ?e = Some t'" "table_ok t'"
    "length (slots t') = length ?ss" "dzero t' = dzero t" "dlen t' \<le> dlen t"
    "\<And>h. h \<noteq> EMPTY \<Longrightarrow> table_map t' h = (case table_map ?e h of None \<Rightarrow> map_of (entries_of (slots t)) h | Some l \<Rightarrow> Some l)"
    using l by auto
  have z: "entries_of ?ss = []" by (simp add: entries_of_def empty_slot_def filter_empty_conv)
  have "table_map t' = table_map t"
  proof
    fix h
    show "table_map t' h = table_map t h"
      using t'(4) t'(6) [of h] by (simp add: table_map_def z)
  qed
  then show thesis using that [of t'] t' by (simp add: dedup_grow_def Let_def)
qed

lemma table_ok_dzero: "table_ok (t\<lparr> dzero := z \<rparr>) = table_ok t"
  by (simp add: table_ok_def)

lemma load_ok_dzero: "load_ok (t\<lparr> dzero := z \<rparr>) = load_ok t"
  by (simp add: load_ok_def)

lemma dedup_insert_ok:
  assumes ok: "table_ok t" and load: "load_ok t"
  obtains t' where "dedup_insert t h l = Some t'" "table_ok t'" "load_ok t'"
    "table_map t' = (if h = EMPTY \<or> table_map t h = None then (table_map t)(h \<mapsto> l) else table_map t)"
proof (cases "h = EMPTY")
  case True
  show thesis
  proof (rule that)
    show "dedup_insert t h l = Some (t\<lparr> dzero := Some l \<rparr>)" using True by (simp add: dedup_insert_def)
    show "table_ok (t\<lparr> dzero := Some l \<rparr>)" "load_ok (t\<lparr> dzero := Some l \<rparr>)"
      using ok load by (simp_all only: table_ok_dzero load_ok_dzero)
    show "table_map (t\<lparr> dzero := Some l \<rparr>) = (if h = EMPTY \<or> table_map t h = None then (table_map t)(h \<mapsto> l) else table_map t)"
      using True by (auto simp: table_map_def)
  qed
next
  case h: False
  show thesis
  proof (cases "(dlen t + 1) * 4 > length (slots t) * 3")
    case True
    obtain t1 where t1: "dedup_grow t = Some t1" "table_ok t1" "length (slots t1) = 2 * length (slots t)"
      "dlen t1 \<le> dlen t" "table_map t1 = table_map t"
      by (rule dedup_grow_ok [OF ok])
    have "dlen t1 < length (slots t1)" using t1(3,4) load by (simp add: load_ok_def)
    then obtain t' where t': "insert_raw t1 h l = Some t'" "table_ok t'" "length (slots t') = length (slots t1)"
      "dlen t' \<le> dlen t1 + 1" "table_map t' = (if table_map t1 h = None then (table_map t1)(h \<mapsto> l) else table_map t1)"
      by (rule insert_raw_ok [OF t1(2) h])
    have "load_ok t'" using t'(3,4) t1(3,4) load by (simp add: load_ok_def)
    then show thesis using that [of t'] t' t1 h True by (simp add: dedup_insert_def)
  next
    case False
    then have "dlen t < length (slots t)" by simp
    then obtain t' where t': "insert_raw t h l = Some t'" "table_ok t'" "length (slots t') = length (slots t)"
      "dlen t' \<le> dlen t + 1" "table_map t' = (if table_map t h = None then (table_map t)(h \<mapsto> l) else table_map t)"
      by (rule insert_raw_ok [OF ok h])
    have "load_ok t'" using t'(3,4) False load by (simp add: load_ok_def)
    then show thesis using that [of t'] t' h False by (simp add: dedup_insert_def)
  qed
qed

lemma next_pow2_is_pow2: "\<exists>k. next_pow2_from (2 ^ j) n = 2 ^ k"
proof (induction "n - 2 ^ j" arbitrary: j rule: less_induct)
  case less
  show ?case
  proof (cases "n \<le> 2 ^ j")
    case True
    then have "next_pow2_from (2 ^ j) n = 2 ^ j" by (subst next_pow2_from.simps) simp
    then show ?thesis by blast
  next
    case False
    then have "next_pow2_from (2 ^ j) n = next_pow2_from (2 ^ Suc j) n" by (subst next_pow2_from.simps) simp
    moreover have "n - 2 ^ Suc j < n - 2 ^ j" using False by (intro diff_less_mono2) auto
    ultimately show ?thesis using less [of "Suc j"] by simp
  qed
qed

lemma dedup_with_capacity_ok:
  "table_ok (dedup_with_capacity n)" "load_ok (dedup_with_capacity n)" "table_map (dedup_with_capacity n) = (\<lambda>_. None)"
proof -
  let ?cap = "max (next_pow2_from 1 n) 16"
  obtain k where k: "next_pow2_from 1 n = 2 ^ k" using next_pow2_is_pow2 [of 0 n] by auto
  have "(16 :: nat) = 2 ^ 4" by simp
  then obtain j where j: "?cap = 2 ^ j" unfolding k max_def by metis
  have e: "dedup_with_capacity n = dedup_with_capacity n\<lparr> slots := replicate ?cap empty_slot,
      dmask := length (replicate ?cap empty_slot) - 1, dlen := 0 \<rparr>"
    by (simp add: dedup_with_capacity_def Let_def)
  show "table_ok (dedup_with_capacity n)"
    by (subst e) (rule table_ok_empty [where k = j], simp_all only: length_replicate j, simp add: empty_slot_def)
  show "load_ok (dedup_with_capacity n)" by (simp add: load_ok_def dedup_with_capacity_def Let_def)
  have "entries_of (replicate ?cap empty_slot) = []"
    by (simp add: entries_of_def empty_slot_def filter_empty_conv)
  then show "table_map (dedup_with_capacity n) = (\<lambda>_. None)"
    by (auto simp: table_map_def dedup_with_capacity_def Let_def)
qed

lemma dedup_clear_ok:
  assumes "table_ok t" and "load_ok t"
  shows "table_ok (dedup_clear t)" "load_ok (dedup_clear t)" "table_map (dedup_clear t) = (\<lambda>_. None)"
proof -
  let ?ss = "map (\<lambda>s. s\<lparr> s_hash := EMPTY \<rparr>) (slots t)"
  obtain k where k: "length (slots t) = 2 ^ k" "dmask t = length (slots t) - 1" using assms(1) by (auto simp: table_ok_def)
  have "length ?ss = 2 ^ k" using k by simp
  then have "table_ok (dedup_clear t\<lparr> slots := ?ss, dmask := length ?ss - 1, dlen := 0 \<rparr>)"
    by (rule table_ok_empty) simp
  moreover have "dedup_clear t\<lparr> slots := ?ss, dmask := length ?ss - 1, dlen := 0 \<rparr> = dedup_clear t"
    using k by (simp add: dedup_clear_def)
  ultimately show "table_ok (dedup_clear t)" by simp
  show "load_ok (dedup_clear t)" using assms(2) by (simp add: load_ok_def dedup_clear_def)
  have "entries_of ?ss = []" by (simp add: entries_of_def filter_empty_conv)
  then show "table_map (dedup_clear t) = (\<lambda>_. None)" by (auto simp: table_map_def dedup_clear_def)
qed

section \<open>The contract of a first-wins index\<close>

text \<open>
  What the writer relies on: an index over some state, with a partial lookup, is a finite map under
  insertion, where a key other than \<open>special\<close> keeps its first value and \<open>special\<close> takes its last. The
  client fact is about any sequence of insertions.
\<close>

locale first_wins =
  fixes lookup :: "'t \<Rightarrow> 'k \<Rightarrow> 'v option option"
    and add :: "'t \<Rightarrow> 'k \<Rightarrow> 'v \<Rightarrow> 't option"
    and reset :: "'t \<Rightarrow> 't"
    and ok :: "'t \<Rightarrow> bool"
    and view :: "'t \<Rightarrow> 'k \<Rightarrow> 'v option"
    and special :: 'k
  assumes lookup_view: "ok t \<Longrightarrow> lookup t k = Some (view t k)"
    and add_view: "ok t \<Longrightarrow> \<exists>t'. add t k v = Some t' \<and> ok t' \<and>
      view t' = (if k = special \<or> view t k = None then (view t)(k \<mapsto> v) else view t)"
    and reset_view: "ok t \<Longrightarrow> ok (reset t) \<and> view (reset t) = (\<lambda>_. None)"
begin

fun add_all :: "('k \<times> 'v) list \<Rightarrow> 't \<Rightarrow> 't option" where
  "add_all [] t = Some t"
| "add_all ((k, v) # xs) t = Option.bind (add t k v) (add_all xs)"

lemma add_all_view:
  "ok t \<Longrightarrow> \<exists>t'. add_all xs t = Some t' \<and> ok t' \<and>
     (\<forall>k. view t' k = (if k = special then view t ++ map_of (rev xs) else map_of xs ++ view t) k)"
proof (induction xs arbitrary: t)
  case Nil
  then show ?case by simp
next
  case (Cons x xs)
  obtain k v where x: "x = (k, v)" by (cases x)
  obtain t1 where t1: "add t k v = Some t1" "ok t1"
    "view t1 = (if k = special \<or> view t k = None then (view t)(k \<mapsto> v) else view t)"
    using add_view [OF Cons.prems] by blast
  from Cons.IH [OF t1(2)] obtain t' where t': "add_all xs t1 = Some t'" "ok t'"
    "\<And>k. view t' k = (if k = special then view t1 ++ map_of (rev xs) else map_of xs ++ view t1) k"
    by blast
  have "view t' k' = (if k' = special then view t ++ map_of (rev (x # xs)) else map_of (x # xs) ++ view t) k'" for k'
    using t'(3) [of k'] t1(3) by (auto simp: x map_add_def split: option.splits)
  then show ?case using t1 t' by (auto simp: x)
qed

lemma lookup_after_adds:
  assumes "ok t" and "view t = (\<lambda>_. None)"
  shows "\<exists>t'. add_all xs t = Some t' \<and> (\<forall>k. lookup t' k = Some (map_of (if k = special then rev xs else xs) k))"
proof -
  obtain t' where t': "add_all xs t = Some t'" "ok t'"
    "\<And>k. view t' k = (if k = special then view t ++ map_of (rev xs) else map_of xs ++ view t) k"
    using add_all_view [OF assms(1), of xs] by blast
  have "view t' k = map_of (if k = special then rev xs else xs) k" for k
    unfolding t'(3) assms(2) by (simp add: map_add_def split: option.splits)
  then show ?thesis using t'(1) lookup_view [OF t'(2)] by simp
qed

end

definition dedup_ok :: "dedup_table \<Rightarrow> bool" where
  "dedup_ok t \<longleftrightarrow> table_ok t \<and> load_ok t"

interpretation window: first_wins dedup_get dedup_insert dedup_clear dedup_ok table_map EMPTY
proof unfold_locales
  fix t h l
  assume ok: "dedup_ok t"
  then have "dlen t < length (slots t)" by (auto simp: dedup_ok_def load_ok_def)
  then show "dedup_get t h = Some (table_map t h)" using ok by (simp add: dedup_ok_def dedup_get_map)
  show "\<exists>t'. dedup_insert t h l = Some t' \<and> dedup_ok t' \<and>
      table_map t' = (if h = EMPTY \<or> table_map t h = None then (table_map t)(h \<mapsto> l) else table_map t)"
    using ok dedup_insert_ok [of t h l] unfolding dedup_ok_def by metis
  show "dedup_ok (dedup_clear t) \<and> table_map (dedup_clear t) = (\<lambda>_. None)"
    using ok dedup_clear_ok unfolding dedup_ok_def by simp
qed

text \<open>The insertions of a window, in order.\<close>

fun dedup_insert_all :: "(digest \<times> loc) list \<Rightarrow> dedup_table \<Rightarrow> dedup_table option" where
  "dedup_insert_all [] t = Some t"
| "dedup_insert_all ((h, l) # xs) t = (case dedup_insert t h l of None \<Rightarrow> None | Some t \<Rightarrow> dedup_insert_all xs t)"

lemma dedup_insert_all_eq: "dedup_insert_all xs t = window.add_all xs t"
  by (induction xs t rule: dedup_insert_all.induct) (auto split: option.splits)

section \<open>Properties\<close>

text \<open>C19. The dedup window is a map, never wrong and never lossy: after any sequence of insertions into
  a new table or one that was well formed when it was cleared, through every collision, wrap-around and
  growth, each probe loop ends, and looking up a hash returns the location first inserted under that full
  32-byte hash, or nothing when it was never inserted. The one exception is the all-zero hash, which marks
  empty slots and is held aside: it returns the location inserted last.\<close>

theorem dedup_window_is_a_map:
  assumes "t = dedup_with_capacity n \<or> (dedup_ok t' \<and> t = dedup_clear t')"
  shows "\<exists>u. dedup_insert_all xs t = Some u \<and>
    (\<forall>h. dedup_get u h = Some (map_of (if h = EMPTY then rev xs else xs) h))"
proof -
  have "dedup_ok t" "table_map t = (\<lambda>_. None)"
    using assms dedup_with_capacity_ok [of n] window.reset_view [of t'] by (auto simp: dedup_ok_def)
  then show ?thesis using window.lookup_after_adds [of t xs] by (simp add: dedup_insert_all_eq)
qed

theorem dedup_window_is_a_map_witness:
  "\<exists>u. dedup_insert_all [(replicate 32 1, Loc 1 2 3), (EMPTY, Loc 7 8 9), (replicate 32 1, Loc 4 5 6), (EMPTY, Loc 10 11 12)]
       (dedup_with_capacity 16) = Some u \<and>
     dedup_get u (replicate 32 1) = Some (Some (Loc 1 2 3)) \<and> dedup_get u EMPTY = Some (Some (Loc 10 11 12)) \<and>
     dedup_get u (replicate 32 2) = Some None"
proof -
  have ne: "replicate 32 1 \<noteq> EMPTY" "replicate 32 2 \<noteq> EMPTY" "replicate 32 (1 :: byte) \<noteq> replicate 32 2"
    by (simp_all add: EMPTY_def replicate_numeral)
  let ?xs = "[(replicate 32 1, Loc 1 2 3), (EMPTY, Loc 7 8 9), (replicate 32 1, Loc 4 5 6), (EMPTY, Loc 10 11 12)]"
  obtain u where u: "dedup_insert_all ?xs (dedup_with_capacity 16) = Some u"
      "\<And>h. dedup_get u h = Some (map_of (if h = EMPTY then rev ?xs else ?xs) h)"
    using dedup_window_is_a_map [OF disjI1 [OF refl], where n = 16 and xs = ?xs] by blast
  have "map_of ?xs (replicate 32 1) = Some (Loc 1 2 3)" "map_of (rev ?xs) EMPTY = Some (Loc 10 11 12)"
      "map_of ?xs (replicate 32 2) = None"
    using ne by auto
  then show ?thesis using u ne(1,2) by (intro exI [of _ u]) simp
qed

text \<open>C33. One insertion refines one map update: on every well-formed table it terminates, keeps the table
  well formed with its load at most three quarters, and adds the entry exactly when the hash was
  absent. The all-zero hash, which marks empty slots, is held aside and takes its last location.\<close>

theorem dedup_insert_refines_update:
  assumes "dedup_ok t"
  shows "\<exists>t'. dedup_insert t h l = Some t' \<and> dedup_ok t' \<and> dlen t' * 4 \<le> length (slots t') * 3 \<and>
    (\<forall>x. dedup_get t' x = Some ((if h = EMPTY \<or> table_map t h = None then (table_map t)(h \<mapsto> l) else table_map t) x))"
proof -
  obtain t' where t': "dedup_insert t h l = Some t'" "dedup_ok t'"
    "table_map t' = (if h = EMPTY \<or> table_map t h = None then (table_map t)(h \<mapsto> l) else table_map t)"
    using window.add_view [OF assms] by blast
  moreover have "dlen t' * 4 \<le> length (slots t') * 3" using t'(2) by (simp add: dedup_ok_def load_ok_def)
  ultimately show ?thesis using window.lookup_view by simp
qed

theorem dedup_insert_refines_update_witness:
  "\<exists>t'. dedup_insert (dedup_with_capacity 16) EMPTY (Loc 1 2 3) = Some t' \<and> dedup_get t' EMPTY = Some (Some (Loc 1 2 3))"
proof -
  have "dedup_ok (dedup_with_capacity 16)" by (simp add: dedup_ok_def dedup_with_capacity_ok)
  from dedup_insert_refines_update [OF this, of EMPTY "Loc 1 2 3"] show ?thesis by auto
qed

end
