(* ===== verification/Bloom.thy ===== *)
theory Bloom
  imports Types
begin

text \<open>
  The Bloom filter over a part's piece hashes (\<open>src/src/part/bloom.rs\<close>). It may answer yes wrongly and
  never no wrongly; the theory shows the second half for the filter in memory, for its encoded section
  probed in place, and for a section that passed validation. Allocation is assumed to succeed.
\<close>

definition BITS_PER :: nat where "BITS_PER = 10"
definition K_PROBES :: nat where "K_PROBES = 7"

record bloom =
  b_bits :: bytes
  b_m :: u64

definition probe :: "digest \<Rightarrow> u64 \<Rightarrow> u64 \<Rightarrow> u64" where
  "probe h i m =
    (let a = u64_of_le (slice h 0 8); b = u64_of_le (slice h 8 16) OR 1 in (a + i * b) mod m)"

text \<open>The test \<open>bits[p / 8] & (1 << (p % 8)) != 0\<close>, on a byte string that holds the index.\<close>

definition bit_set :: "bytes \<Rightarrow> u64 \<Rightarrow> bool" where
  "bit_set bits p \<longleftrightarrow> (bits ! (unat p div 8)) AND push_bit (unat p mod 8) 1 \<noteq> 0"

definition section_len :: "nat \<Rightarrow> nat option" where
  "section_len m = (if div_ceil m 8 + 8 \<le> usize_max then Some (div_ceil m 8 + 8) else None)"

definition probe_encoded :: "bytes \<Rightarrow> digest \<Rightarrow> bool" where
  "probe_encoded sec h =
    (if length sec < 8 then False
     else let m = u64_of_le (slice sec 0 8)
          in case section_len (unat m) of None \<Rightarrow> False
             | Some n \<Rightarrow>
               if m = 0 \<or> length sec \<noteq> n then False
               else let bits = drop 8 sec
                    in list_all (\<lambda>i. let p = probe h (word_of_nat i) m
                         in unat p div 8 < length bits \<and> bit_set bits p) [0..<K_PROBES])"

definition bloom_m :: "nat \<Rightarrow> nat outcome" where
  "bloom_m n =
     bind_res (ok_or (Bail ''bloom bit count overflows'') (checked_mul (max n 1) BITS_PER)) (\<lambda>m. Inr (max m 64))"

definition bloom_encoded_len_for_capacity :: "nat \<Rightarrow> nat outcome" where
  "bloom_encoded_len_for_capacity n =
     bind_res (bloom_m n) (\<lambda>m.
     ok_or (Bail ''bloom encoding exceeds this process's address space'') (section_len m))"

definition bloom_with_capacity :: "nat \<Rightarrow> bloom outcome" where
  "bloom_with_capacity n =
     bind_res (bloom_encoded_len_for_capacity n) (\<lambda>encoded.
     bind_res (bloom_m n) (\<lambda>m.
     Inr \<lparr> b_bits = replicate (encoded - 8) 0, b_m = word_of_nat m \<rparr>))"

definition set_bit_at :: "bytes \<Rightarrow> u64 \<Rightarrow> bytes" where
  "set_bit_at bits p = bits[unat p div 8 := (bits ! (unat p div 8)) OR push_bit (unat p mod 8) 1]"

definition bloom_insert :: "bloom \<Rightarrow> digest \<Rightarrow> bloom" where
  "bloom_insert b h =
     b\<lparr> b_bits := foldl (\<lambda>bits i. set_bit_at bits (probe h (word_of_nat i) (b_m b))) (b_bits b) [0..<K_PROBES] \<rparr>"

definition bloom_maybe_contains :: "bloom \<Rightarrow> digest \<Rightarrow> bool" where
  "bloom_maybe_contains b h \<longleftrightarrow> list_all (\<lambda>i. bit_set (b_bits b) (probe h (word_of_nat i) (b_m b))) [0..<K_PROBES]"

definition bloom_encode :: "bloom \<Rightarrow> bytes outcome" where
  "bloom_encode b =
    (if length (b_bits b) + 8 > usize_max then Inl (Bail ''bloom encoding length overflows'')
     else Inr (le64 (b_m b) @ b_bits b))"

definition bloom_decode :: "bytes \<Rightarrow> bloom outcome" where
  "bloom_decode b =
    (if length b < 8 then Inl (Bail ''bloom section truncated'')
     else let m = u64_of_le (slice b 0 8)
          in bind_res (ok_or (Bail ''bloom bit count exceeds this platform'') (section_len (unat m))) (\<lambda>n.
             if m = 0 \<or> length b \<noteq> n then Inl (Bail ''bloom bit array does not match its declared size'')
             else Inr \<lparr> b_bits = drop 8 b, b_m = m \<rparr>))"

text \<open>\<open>chunks_exact(32)\<close>.\<close>

function chunks32 :: "bytes \<Rightarrow> bytes list" where
  "chunks32 b = (if length b < 32 then [] else take 32 b # chunks32 (drop 32 b))"
  by pat_completeness auto

termination chunks32
  by (relation "measure length") auto

declare chunks32.simps [simp del]

definition bloom_validate_current :: "bytes \<Rightarrow> bytes \<Rightarrow> unit outcome" where
  "bloom_validate_current b hashes =
    (if length hashes mod 32 \<noteq> 0 then Inl (Bail ''piece hash column ends with a partial identity'')
     else bind_res (bloom_decode b) (\<lambda>filter.
          bind_res (bloom_m (length hashes div 32)) (\<lambda>expected_m.
          if unat (b_m filter) \<noteq> expected_m then Inl (Bail ''bloom bit count does not match'')
          else if \<not> list_all (bloom_maybe_contains filter) (chunks32 hashes) then
            Inl (Bail ''bloom filter has a false negative for a declared piece identity'')
          else Inr ())))"

section \<open>Facts\<close>

definition bloom_ok :: "bloom \<Rightarrow> bool" where
  "bloom_ok b \<longleftrightarrow> b_m b \<noteq> 0 \<and> length (b_bits b) = div_ceil (unat (b_m b)) 8"

lemma probe_less: "m \<noteq> 0 \<Longrightarrow> unat (probe h i m) < unat m"
  by (simp add: probe_def Let_def unat_mod unat_gt_0)

lemma div_8_less_ceil: "p < m \<Longrightarrow> p div 8 < div_ceil m 8"
proof -
  assume "p < m"
  then have "p div 8 \<le> m div 8" by (intro div_le_mono) simp
  moreover have "p div 8 < m div 8" if "m mod 8 = 0"
  proof -
    have "m = m div 8 * 8" using div_mult_mod_eq [of m 8] that by simp
    with \<open>p < m\<close> show ?thesis by (intro less_mult_imp_div_less) simp
  qed
  ultimately show ?thesis by (auto simp: div_ceil_def)
qed

lemma bit_set_iff: "bit_set bits p \<longleftrightarrow> bit (bits ! (unat p div 8)) (unat p mod 8)"
  by (simp only: bit_set_def bit_iff_and_push_bit_not_eq_0)

lemma set_bit_at_sets: "unat p div 8 < length bits \<Longrightarrow> bit_set (set_bit_at bits p) q \<longleftrightarrow> q = p \<or> bit_set bits q"
proof -
  assume p: "unat p div 8 < length bits"
  have s: "unat p mod 8 < 8" by simp
  have "q = p \<longleftrightarrow> unat q div 8 = unat p div 8 \<and> unat q mod 8 = unat p mod 8"
    by (metis div_mult_mod_eq word_unat_eq_iff)
  then show ?thesis
    using p s by (cases "unat q div 8 = unat p div 8")
      (auto simp: bit_set_iff set_bit_at_def bit_or_iff bit_exp_iff)
qed

lemma length_set_bit_at [simp]: "length (set_bit_at bits p) = length bits"
  by (simp add: set_bit_at_def)

lemma fold_set_bits:
  "(\<And>i. i \<in> set is \<Longrightarrow> unat (f i) div 8 < length bits) \<Longrightarrow>
   length (foldl (\<lambda>bits i. set_bit_at bits (f i)) bits is) = length bits \<and>
   (bit_set (foldl (\<lambda>bits i. set_bit_at bits (f i)) bits is) q \<longleftrightarrow> q \<in> f ` set is \<or> bit_set bits q)"
proof (induction "is" arbitrary: bits)
  case (Cons i "is")
  have "unat (f i) div 8 < length bits" using Cons.prems by simp
  then show ?case
    using Cons.IH [of "set_bit_at bits (f i)"] Cons.prems by (auto simp: set_bit_at_sets)
qed simp

lemma bloom_insert_facts:
  assumes "bloom_ok b"
  shows "bloom_ok (bloom_insert b h)" and "b_m (bloom_insert b h) = b_m b"
    and "bloom_maybe_contains (bloom_insert b h) h"
    and "bloom_maybe_contains b x \<Longrightarrow> bloom_maybe_contains (bloom_insert b h) x"
proof -
  let ?f = "\<lambda>i. probe h (word_of_nat i) (b_m b)"
  have r: "unat (?f i) div 8 < length (b_bits b)" for i
    using assms probe_less div_8_less_ceil by (simp add: bloom_ok_def)
  note f = fold_set_bits [of "[0..<K_PROBES]" ?f "b_bits b", OF r]
  show "bloom_ok (bloom_insert b h)" using assms f by (simp add: bloom_ok_def bloom_insert_def)
  show "b_m (bloom_insert b h) = b_m b" by (simp add: bloom_insert_def)
  show "bloom_maybe_contains (bloom_insert b h) h" 
    using f by (auto simp: bloom_maybe_contains_def bloom_insert_def list_all_iff)
  show "bloom_maybe_contains (bloom_insert b h) x" if "bloom_maybe_contains b x"
    using f that by (auto simp: bloom_maybe_contains_def bloom_insert_def list_all_iff)
qed

lemma bloom_insert_all:
  "bloom_ok b \<Longrightarrow> bloom_ok (foldl bloom_insert b hs) \<and> b_m (foldl bloom_insert b hs) = b_m b \<and>
   (\<forall>x. bloom_maybe_contains b x \<or> x \<in> set hs \<longrightarrow> bloom_maybe_contains (foldl bloom_insert b hs) x)"
proof (induction hs arbitrary: b)
  case (Cons h hs)
  note i = bloom_insert_facts [OF Cons.prems]
  show ?case using Cons.IH [OF i(1)] i(2-4) by auto
qed simp

lemma section_len_Some: "bloom_ok b \<Longrightarrow> length (b_bits b) + 8 \<le> usize_max \<Longrightarrow>
    section_len (unat (b_m b)) = Some (length (b_bits b) + 8)"
  by (simp add: section_len_def bloom_ok_def)

lemma u64_of_nat_max: "n \<le> u64_max \<Longrightarrow> unat (word_of_nat n :: u64) = n"
  by (simp add: unat_of_nat u64_max_def)

lemma bloom_m_bounds: "bloom_m n = Inr m \<Longrightarrow> 64 \<le> m \<and> m \<le> u64_max"
  by (auto simp: bloom_m_def bind_res_Inr_iff checked_mul_Some_iff u64_max_def)

lemma bloom_with_capacity_ok:
  assumes "bloom_with_capacity n = Inr b"
  shows "bloom_ok b" and "bloom_m n = Inr (unat (b_m b))" and "length (b_bits b) + 8 \<le> usize_max"
proof -
  from assms obtain m e where m: "bloom_m n = Inr m" "section_len m = Some e"
    "b = \<lparr> b_bits = replicate (e - 8) 0, b_m = word_of_nat m \<rparr>"
    by (auto simp: bloom_with_capacity_def bloom_encoded_len_for_capacity_def bind_res_Inr_iff)
  have b: "64 \<le> m" "unat (word_of_nat m :: u64) = m"
    using bloom_m_bounds [OF m(1)] u64_of_nat_max by auto
  have "(word_of_nat m :: u64) \<noteq> 0" using b by (metis not_numeral_le_zero unat_0)
  then show "bloom_ok b" "bloom_m n = Inr (unat (b_m b))" "length (b_bits b) + 8 \<le> usize_max"
    using m b by (auto simp: bloom_ok_def section_len_def split: if_splits)
qed

lemma probe_encoded_bytes:
  assumes "bloom_ok b" and "length (b_bits b) + 8 \<le> usize_max"
  shows "probe_encoded (le64 (b_m b) @ b_bits b) h = bloom_maybe_contains b h"
proof -
  have r: "unat (probe h i (b_m b)) div 8 < length (b_bits b)" for i
    using assms probe_less div_8_less_ceil by (simp add: bloom_ok_def)
  have s: "slice (le64 (b_m b) @ b_bits b) 0 8 = le64 (b_m b)" "drop 8 (le64 (b_m b) @ b_bits b) = b_bits b"
    by (simp_all add: slice_def)
  have nz: "b_m b \<noteq> 0" using assms(1) by (simp add: bloom_ok_def)
  show ?thesis
    unfolding probe_encoded_def s u64_of_le_le64 Let_def section_len_Some [OF assms]
    using nz r by (simp add: bloom_maybe_contains_def)
qed

lemma bloom_decode_exact:
  "bloom_decode s = Inr b \<longleftrightarrow> s = le64 (b_m b) @ b_bits b \<and> bloom_ok b \<and> length (b_bits b) + 8 \<le> usize_max"
proof
  assume d: "bloom_decode s = Inr b"
  then have b: "8 \<le> length s" "b = \<lparr> b_bits = drop 8 s, b_m = u64_of_le (slice s 0 8) \<rparr>"
    and l: "section_len (unat (u64_of_le (slice s 0 8))) = Some (length s)" "u64_of_le (slice s 0 8) \<noteq> 0"
    by (auto simp: bloom_decode_def Let_def bind_res_Inr_iff split: if_splits)
  have "le64 (u64_of_le (slice s 0 8)) = slice s 0 8" using b(1) by (intro le64_u64_of_le) simp
  then have "s = le64 (b_m b) @ b_bits b" using b(2) by (simp add: slice_def)
  moreover have "length (b_bits b) + 8 \<le> usize_max" "bloom_ok b"
    using l b by (auto simp: section_len_def bloom_ok_def split: if_splits)
  ultimately show "s = le64 (b_m b) @ b_bits b \<and> bloom_ok b \<and> length (b_bits b) + 8 \<le> usize_max" by blast
next
  assume r: "s = le64 (b_m b) @ b_bits b \<and> bloom_ok b \<and> length (b_bits b) + 8 \<le> usize_max"
  have s: "slice (le64 (b_m b) @ b_bits b) 0 8 = le64 (b_m b)" "drop 8 (le64 (b_m b) @ b_bits b) = b_bits b"
    by (simp_all add: slice_def)
  have nz: "b_m b \<noteq> 0" using r by (simp add: bloom_ok_def)
  have sl: "section_len (unat (b_m b)) = Some (length (b_bits b) + 8)" using r section_len_Some by blast
  show "bloom_decode s = Inr b"
    unfolding bloom_decode_def conjunct1 [OF r] s u64_of_le_le64 Let_def sl using nz by simp
qed

lemma chunks32_concat:
  "list_all (\<lambda>h. length h = 32) hs \<Longrightarrow> chunks32 (concat hs) = hs"
proof (induction hs)
  case Nil
  then show ?case by (simp add: chunks32.simps [of "[]"])
next
  case (Cons h hs)
  then show ?case by (subst chunks32.simps) simp
qed

lemma length_concat_32: "list_all (\<lambda>h. length h = 32) hs \<Longrightarrow> length (concat hs) = length hs * 32"
  by (induction hs) auto

section \<open>Properties\<close>

text \<open>C34. The filter has no false negatives: every identity inserted into a filter of any capacity is a
  possible hit, in memory and in the encoded section probed in place, and probing the section is
  the same test as probing the filter.\<close>

theorem bloom_no_false_negative:
  assumes "bloom_with_capacity n = Inr b" and "bloom_encode (foldl bloom_insert b hs) = Inr sec"
    and "h \<in> set hs"
  shows "bloom_maybe_contains (foldl bloom_insert b hs) h \<and> probe_encoded sec h \<and>
    probe_encoded sec x = bloom_maybe_contains (foldl bloom_insert b hs) x"
proof -
  let ?b = "foldl bloom_insert b hs"
  have b: "bloom_ok ?b" "bloom_maybe_contains ?b h"
    using bloom_insert_all [OF bloom_with_capacity_ok(1) [OF assms(1)], of hs] assms(3) by auto
  have sec: "sec = le64 (b_m ?b) @ b_bits ?b" "length (b_bits ?b) + 8 \<le> usize_max"
    using assms(2) by (auto simp: bloom_encode_def split: if_splits)
  show ?thesis using b probe_encoded_bytes [OF b(1) sec(2)] sec(1) by simp
qed

theorem bloom_no_false_negative_witness:
  "\<exists>b sec. bloom_with_capacity 1 = Inr b \<and> bloom_encode (foldl bloom_insert b [replicate 32 5]) = Inr sec \<and>
     probe_encoded sec (replicate 32 5)"
proof -
  obtain b where b: "bloom_with_capacity 1 = Inr b"
    by (simp add: bloom_with_capacity_def bloom_encoded_len_for_capacity_def bloom_m_def section_len_def
        checked_mul_def BITS_PER_def u64_max_def usize_max_def div_ceil_def)
  have i: "bloom_ok (foldl bloom_insert b [replicate 32 5])" "b_m (foldl bloom_insert b [replicate 32 5]) = b_m b"
    using bloom_insert_all [OF bloom_with_capacity_ok(1) [OF b], of "[replicate 32 5]"] by simp_all
  have "length (b_bits (foldl bloom_insert b [replicate 32 5])) + 8 \<le> usize_max"
    using i bloom_with_capacity_ok [OF b] by (simp add: bloom_ok_def)
  then obtain sec where s: "bloom_encode (foldl bloom_insert b [replicate 32 5]) = Inr sec"
    by (simp add: bloom_encode_def)
  from bloom_no_false_negative [OF b s, of "replicate 32 5" "[]"] b s show ?thesis by auto
qed

text \<open>C35. A section that passes validation against a part's hash column cannot hide a piece: it has
  exactly the bit count the writer uses for that many pieces, and every declared identity probes
  true in place. The section the writer produces for a column passes.\<close>

theorem bloom_validation_exact:
  assumes "list_all (\<lambda>h. length h = 32) hs"
  shows "bloom_validate_current sec (concat hs) = Inr () \<longleftrightarrow>
    (\<exists>b. sec = le64 (b_m b) @ b_bits b \<and> bloom_ok b \<and> length (b_bits b) + 8 \<le> usize_max \<and>
         bloom_m (length hs) = Inr (unat (b_m b)) \<and> list_all (probe_encoded sec) hs)"
proof -
  have c: "chunks32 (concat hs) = hs" "length (concat hs) mod 32 = 0" "length (concat hs) div 32 = length hs"
    using assms by (simp_all add: chunks32_concat length_concat_32)
  have "bloom_validate_current sec (concat hs) = Inr () \<longleftrightarrow>
      (\<exists>b. bloom_decode sec = Inr b \<and> bloom_m (length hs) = Inr (unat (b_m b)) \<and> list_all (bloom_maybe_contains b) hs)"
    by (auto simp: bloom_validate_current_def c bind_res_Inr_iff split: if_splits)
  also have "\<dots> \<longleftrightarrow> (\<exists>b. sec = le64 (b_m b) @ b_bits b \<and> bloom_ok b \<and> length (b_bits b) + 8 \<le> usize_max \<and>
         bloom_m (length hs) = Inr (unat (b_m b)) \<and> list_all (probe_encoded sec) hs)"
    unfolding bloom_decode_exact using probe_encoded_bytes by (auto simp: list_all_iff)
  finally show ?thesis .
qed

theorem bloom_validation_exact_witness:
  "\<exists>b sec. bloom_with_capacity 1 = Inr b \<and> bloom_encode (foldl bloom_insert b [replicate 32 5]) = Inr sec \<and>
     bloom_validate_current sec (replicate 32 5) = Inr ()"
proof -
  obtain b where b: "bloom_with_capacity 1 = Inr b"
    by (simp add: bloom_with_capacity_def bloom_encoded_len_for_capacity_def bloom_m_def section_len_def
        checked_mul_def BITS_PER_def u64_max_def usize_max_def div_ceil_def)
  let ?b = "foldl bloom_insert b [replicate 32 5]"
  note w = bloom_with_capacity_ok [OF b]
  have i: "bloom_ok ?b" "b_m ?b = b_m b" "bloom_maybe_contains ?b (replicate 32 5)"
    using bloom_insert_all [OF w(1), of "[replicate 32 5]"] by simp_all
  have l: "length (b_bits ?b) + 8 \<le> usize_max" using i w by (simp add: bloom_ok_def)
  let ?sec = "le64 (b_m ?b) @ b_bits ?b"
  have "bloom_validate_current ?sec (concat [replicate 32 5]) = Inr ()"
  proof (rule iffD2 [OF bloom_validation_exact])
    show "\<exists>c. ?sec = le64 (b_m c) @ b_bits c \<and> bloom_ok c \<and> length (b_bits c) + 8 \<le> usize_max \<and>
         bloom_m (length [replicate 32 5 :: bytes]) = Inr (unat (b_m c)) \<and> list_all (probe_encoded ?sec) [replicate 32 5]"
      by (rule exI [of _ ?b]) (use i l w(2) probe_encoded_bytes [OF i(1) l] in simp)
  qed simp
  moreover have "bloom_encode ?b = Inr ?sec" using l by (simp add: bloom_encode_def)
  ultimately show ?thesis using b by auto
qed

end
