(* ===== verification/Carve.thy ===== *)
theory Carve
  imports Prelude
begin

text \<open>
  The carve (\<open>src/src/carve.rs\<close>): how a body becomes spans. Every strategy must reproduce the body
  byte for byte; the message strategy must put a piece boundary at every element of a top-level JSON
  array; content-defined chunks must respect their size bounds.

  The nesting depth of the JSON scanner is an unbounded integer here (an \<open>i32\<close> in the code, which
  would need two billion brackets to overflow), and so is the product \<open>avg * 4\<close> of the chunker (a \<open>usize\<close>
  in the code, which wraps for targets from 2^62 on; no body is that long). The chunking loop
  returns through \<open>option\<close>: \<open>None\<close> is a loop that does not end.
\<close>

datatype carve = Messages "nat option" | Cdc nat | Whole | Inline

datatype span = SPiece bytes | SLit bytes

type_synonym range = "bool \<times> nat \<times> nat"

definition carve_default :: carve where "carve_default = Messages None"

section \<open>Splitting a JSON array\<close>

text \<open>\<open>u8::is_ascii_whitespace\<close>: space, tab, line feed, form feed and carriage return.\<close>

definition is_ws :: "byte \<Rightarrow> bool" where
  "is_ws c \<longleftrightarrow> c = 0x20 \<or> c = 0x09 \<or> c = 0x0A \<or> c = 0x0C \<or> c = 0x0D"

definition set_start :: "nat option \<Rightarrow> nat \<Rightarrow> nat option" where
  "set_start start i = (case start of None \<Rightarrow> Some i | Some st \<Rightarrow> Some st)"

definition take_start :: "nat option \<Rightarrow> nat \<Rightarrow> (nat \<times> nat) list" where
  "take_start start i = (case start of None \<Rightarrow> [] | Some st \<Rightarrow> [(st, i)])"

text \<open>The scanner, over the bytes from \<open>i\<close> on. The bytes are \<open>"\<close> 0x22, \<open>,\<close> 0x2C, \<open>[\<close> 0x5B,
  the backslash 0x5C, \<open>]\<close> 0x5D, \<open>{\<close> 0x7B and \<open>}\<close> 0x7D.\<close>

fun split_loop ::
  "bytes \<Rightarrow> nat \<Rightarrow> int \<Rightarrow> bool \<Rightarrow> bool \<Rightarrow> nat option \<Rightarrow> (nat \<times> nat) list \<Rightarrow> (nat \<times> nat) list option" where
  "split_loop [] i depth in_str esc start out = None"
| "split_loop (c # s) i depth in_str esc start out =
    (if in_str then
       (if esc then split_loop s (i + 1) depth True False start out
        else if c = 0x5C then split_loop s (i + 1) depth True True start out
        else if c = 0x22 then split_loop s (i + 1) depth False esc start out
        else split_loop s (i + 1) depth True esc start out)
     else if c = 0x22 then split_loop s (i + 1) depth True esc (set_start start i) out
     else if c = 0x5B \<or> c = 0x7B then split_loop s (i + 1) (depth + 1) False esc (set_start start i) out
     else if c = 0x5D \<or> c = 0x7D then
       (if depth = 0 \<and> c = 0x5D then Some (out @ take_start start i)
        else split_loop s (i + 1) (depth - 1) False esc start out)
     else if c = 0x2C \<and> depth = 0 then split_loop s (i + 1) depth False esc None (out @ take_start start i)
     else if is_ws c then split_loop s (i + 1) depth False esc start out
     else split_loop s (i + 1) depth False esc (set_start start i) out)"

definition split_json_array :: "bytes \<Rightarrow> (nat \<times> nat) list option" where
  "split_json_array s =
    (let i = length (takeWhile is_ws s)
     in if i \<ge> length s \<or> s ! i \<noteq> 0x5B then None
        else split_loop (drop (i + 1) s) (i + 1) 0 False False None [])"

section \<open>Content-defined chunks\<close>

definition sm64 :: "u64 \<Rightarrow> u64 \<times> u64" where
  "sm64 x =
    (let x = x + 0x9e3779b97f4a7c15;
         z = (x XOR drop_bit 30 x) * 0xbf58476d1ce4e5b9;
         z = (z XOR drop_bit 27 z) * 0x94d049bb133111eb
     in (z XOR drop_bit 31 z, x))"

fun gear_fill :: "nat \<Rightarrow> u64 \<Rightarrow> u64 list" where
  "gear_fill 0 s = []"
| "gear_fill (Suc n) s = (let (e, s) = sm64 s in e # gear_fill n s)"

definition gear_table :: "u64 list" where
  "gear_table = gear_fill 256 0x7475726e64620001"

text \<open>\<open>(avg as f64).log2().round()\<close>: no integer has a logarithm halfway between two integers, so the
  nearest one is decided by the square. (The floating-point value agrees for every size whose
  square a double represents exactly.)\<close>

fun floor_log2 :: "nat \<Rightarrow> nat" where
  "floor_log2 n = (if n < 2 then 0 else Suc (floor_log2 (n div 2)))"

declare floor_log2.simps [simp del]

definition log2_round :: "nat \<Rightarrow> nat" where
  "log2_round n = (let f = floor_log2 n in if 2 * 4 ^ f \<le> n * n then f + 1 else f)"

definition gear_step :: "u64 \<Rightarrow> byte \<Rightarrow> u64" where
  "gear_step h b = push_bit 1 h + gear_table ! unat b"

text \<open>The scan for a cut over the bytes from \<open>i\<close> on, up to \<open>hard\<close>.\<close>

function find_cut :: "bytes \<Rightarrow> nat \<Rightarrow> nat \<Rightarrow> nat \<Rightarrow> nat \<Rightarrow> nat \<Rightarrow> u64 \<Rightarrow> nat" where
  "find_cut body ns nl normal hard i h =
    (if i < hard then
       let h = gear_step h (body ! i); n = (if i < normal then ns else nl)
       in if drop_bit (64 - n) h = 0 then i + 1 else find_cut body ns nl normal hard (i + 1) h
     else hard)"
  by pat_completeness auto

termination find_cut
  by (relation "measure (\<lambda>(body, ns, nl, normal, hard, i, h). hard - i)") auto

declare find_cut.simps [simp del]

definition gear_cut :: "bytes \<Rightarrow> nat \<Rightarrow> nat \<Rightarrow> nat" where
  "gear_cut body avg start =
    (let bits = log2_round avg;
         ns = min (bits + 2) 63; nl = max (bits - 2) 1;
         hard = min (start + avg * 4) (length body);
         h = foldl gear_step 0 (slice body start (start + avg div 4));
         normal = min (start + avg) hard
     in find_cut body ns nl normal hard (start + avg div 4) h)"

partial_function (option) gear_loop :: "bytes \<Rightarrow> nat \<Rightarrow> nat \<Rightarrow> range list \<Rightarrow> range list option" where
  "gear_loop body avg start out =
    (if start < length body then
       if length body - start \<le> avg div 4 then Some (out @ [(True, start, length body)])
       else gear_loop body avg (gear_cut body avg start) (out @ [(True, start, gear_cut body avg start)])
     else Some out)"

definition gear_ranges :: "bytes \<Rightarrow> nat \<Rightarrow> range list option" where
  "gear_ranges body avg = gear_loop body avg 0 []"

section \<open>The carve\<close>

fun message_loop :: "bytes \<Rightarrow> nat option \<Rightarrow> nat \<Rightarrow> (nat \<times> nat) list \<Rightarrow> range list \<Rightarrow> (nat \<times> range list) option" where
  "message_loop body intra cur [] out = Some (cur, out)"
| "message_loop body intra cur ((a, b) # elems) out =
    (let out = (if a > cur then out @ [(False, cur, a)] else out)
     in case intra of
          Some big \<Rightarrow>
            if b - a > big then
              (case gear_ranges (slice body a b) (max big 64) of
                 None \<Rightarrow> None
               | Some subs \<Rightarrow>
                   message_loop body intra b elems (out @ map (\<lambda>(_, x, y). (True, a + x, a + y)) subs))
            else message_loop body intra b elems (out @ [(True, a, b)])
        | None \<Rightarrow> message_loop body intra b elems (out @ [(True, a, b)]))"

definition carve_ranges :: "carve \<Rightarrow> bytes \<Rightarrow> range list option" where
  "carve_ranges strategy body =
    (if body = [] then Some []
     else case strategy of
       Inline \<Rightarrow> Some [(False, 0, length body)]
     | Whole \<Rightarrow> Some [(True, 0, length body)]
     | Cdc target \<Rightarrow> gear_ranges body (max target 64)
     | Messages intra \<Rightarrow>
         (case split_json_array body of
            Some elems \<Rightarrow>
              if elems \<noteq> [] then
                (case message_loop body intra 0 elems [] of
                   None \<Rightarrow> None
                 | Some (cur, out) \<Rightarrow>
                     Some (if cur < length body then out @ [(False, cur, length body)] else out))
              else gear_ranges body 4096
          | None \<Rightarrow> gear_ranges body 4096))"

definition carve_spans :: "carve \<Rightarrow> bytes \<Rightarrow> span list option" where
  "carve_spans strategy body =
     map_option (map (\<lambda>(foldable, a, b). if foldable then SPiece (slice body a b) else SLit (slice body a b)))
       (carve_ranges strategy body)"

fun span_bytes :: "span \<Rightarrow> bytes" where
  "span_bytes (SPiece b) = b"
| "span_bytes (SLit b) = b"

section \<open>Tilings\<close>

text \<open>Non-empty ranges that follow one another from \<open>a\<close> to \<open>b\<close>.\<close>

fun tiles :: "nat \<Rightarrow> range list \<Rightarrow> nat \<Rightarrow> bool" where
  "tiles a [] b \<longleftrightarrow> a = b"
| "tiles a ((f, x, y) # rs) b \<longleftrightarrow> x = a \<and> x < y \<and> tiles y rs b"

lemma tiles_append: "tiles a (rs @ rs') c \<longleftrightarrow> (\<exists>b. tiles a rs b \<and> tiles b rs' c)"
  by (induction a rs c rule: tiles.induct) auto

lemma tiles_le: "tiles a rs b \<Longrightarrow> a \<le> b"
  by (induction a rs b rule: tiles.induct) auto

lemma tiles_bytes:
  "tiles a rs b \<Longrightarrow> b \<le> length body \<Longrightarrow> concat (map (\<lambda>(f, x, y). slice body x y) rs) = slice body a b"
proof (induction a rs b rule: tiles.induct)
  case (2 a f x y rs b)
  then have "y \<le> b" using tiles_le by auto
  with 2 show ?case by (simp add: slice_append)
qed simp

lemma tiles_shift: "tiles x rs y \<Longrightarrow> tiles (a + x) (map (\<lambda>(_, x, y). (True, a + x, a + y)) rs) (a + y)"
  by (induction x rs y rule: tiles.induct) auto

section \<open>Chunk sizes\<close>

lemma find_cut_bounds: "i \<le> hard \<Longrightarrow> (i < hard \<longrightarrow> i < find_cut body ns nl normal hard i h) \<and>
    i \<le> find_cut body ns nl normal hard i h \<and> find_cut body ns nl normal hard i h \<le> hard"
proof (induction body ns nl normal hard i h rule: find_cut.induct)
  case (1 body ns nl normal hard i h)
  show ?case
  proof (cases "i < hard")
    case True
    let ?h = "gear_step h (body ! i)" and ?n = "if i < normal then ns else nl"
    have e: "find_cut body ns nl normal hard i h =
        (if drop_bit (64 - ?n) ?h = 0 then i + 1 else find_cut body ns nl normal hard (i + 1) ?h)"
      using True by (subst find_cut.simps) (simp add: Let_def)
    show ?thesis
    proof (cases "drop_bit (64 - ?n) ?h = 0")
      case t: True
      then show ?thesis using True unfolding e by simp
    next
      case False
      then show ?thesis using "1.IH" [OF True refl refl False] True unfolding e by simp
    qed
  next
    case False
    then have "find_cut body ns nl normal hard i h = hard" by (subst find_cut.simps) simp
    then show ?thesis using "1.prems" by simp
  qed
qed

lemma gear_cut_bounds:
  assumes "start < length body" and "avg div 4 < length body - start" and "0 < avg"
  shows "start < gear_cut body avg start" and "start + avg div 4 < gear_cut body avg start"
    and "gear_cut body avg start \<le> length body" and "gear_cut body avg start \<le> start + avg * 4"
proof -
  let ?hard = "min (start + avg * 4) (length body)"
  have i: "start + avg div 4 < ?hard" using assms by auto
  have c: "start + avg div 4 < gear_cut body avg start \<and> gear_cut body avg start \<le> ?hard"
    unfolding gear_cut_def Let_def by (intro conjI, use find_cut_bounds [OF less_imp_le [OF i]] i in \<open>blast+\<close>)
  then show "start < gear_cut body avg start" "start + avg div 4 < gear_cut body avg start"
    "gear_cut body avg start \<le> length body" "gear_cut body avg start \<le> start + avg * 4" by auto
qed

text \<open>Every chunk but the last is longer than a quarter of the target; none is longer than four times
  it.\<close>

definition chunk_sizes_ok :: "nat \<Rightarrow> range list \<Rightarrow> bool" where
  "chunk_sizes_ok avg rs \<longleftrightarrow> list_all (\<lambda>(f, x, y). f \<and> y - x \<le> avg * 4) rs \<and>
     list_all (\<lambda>(f, x, y). avg div 4 < y - x) (butlast rs)"

lemma gear_loop_spec:
  assumes "0 < avg"
  shows "start \<le> length body \<Longrightarrow> \<exists>rs. gear_loop body avg start out = Some (out @ rs) \<and>
    tiles start rs (length body) \<and> chunk_sizes_ok avg rs"
proof (induction "length body - start" arbitrary: start out rule: less_induct)
  case less
  show ?case
  proof (cases "start < length body")
    case False
    then have "gear_loop body avg start out = Some out" by (subst gear_loop.simps) simp
    then show ?thesis using False less.prems by (intro exI [of _ "[]"]) (simp add: chunk_sizes_ok_def)
  next
    case True
    show ?thesis
    proof (cases "length body - start \<le> avg div 4")
      case short: True
      then have "gear_loop body avg start out = Some (out @ [(True, start, length body)])"
        using True by (subst gear_loop.simps) simp
      moreover have "avg div 4 \<le> avg * 4" by simp
      ultimately show ?thesis
        using True short by (intro exI [of _ "[(True, start, length body)]"]) (simp add: chunk_sizes_ok_def)
    next
      case False
      let ?cut = "gear_cut body avg start"
      have b: "start < ?cut" "start + avg div 4 < ?cut" "?cut \<le> length body" "?cut \<le> start + avg * 4"
        using gear_cut_bounds [OF True _ assms] False by auto
      have "gear_loop body avg start out = gear_loop body avg ?cut (out @ [(True, start, ?cut)])"
        using True False by (subst gear_loop.simps) simp
      moreover obtain rs where "gear_loop body avg ?cut (out @ [(True, start, ?cut)]) = Some ((out @ [(True, start, ?cut)]) @ rs)"
        "tiles ?cut rs (length body)" "chunk_sizes_ok avg rs"
        using less.hyps [of ?cut "out @ [(True, start, ?cut)]"] b True by (meson diff_less_mono2)
      ultimately show ?thesis
        using b by (intro exI [of _ "(True, start, ?cut) # rs"]) (auto simp: chunk_sizes_ok_def)
    qed
  qed
qed

lemma gear_ranges_spec:
  "0 < avg \<Longrightarrow> \<exists>rs. gear_ranges body avg = Some rs \<and> tiles 0 rs (length body) \<and> chunk_sizes_ok avg rs"
  using gear_loop_spec [of avg 0 body "[]"] by (auto simp: gear_ranges_def)

section \<open>Elements in order\<close>

fun ordered :: "nat \<Rightarrow> (nat \<times> nat) list \<Rightarrow> nat \<Rightarrow> bool" where
  "ordered lo [] hi \<longleftrightarrow> lo \<le> hi"
| "ordered lo ((a, b) # xs) hi \<longleftrightarrow> lo \<le> a \<and> a < b \<and> ordered b xs hi"

lemma ordered_mono: "ordered lo xs m \<Longrightarrow> m \<le> hi \<Longrightarrow> ordered lo xs hi"
  by (induction lo xs m rule: ordered.induct) auto

lemma ordered_snoc: "ordered lo xs m \<Longrightarrow> m \<le> a \<Longrightarrow> a < b \<Longrightarrow> ordered lo (xs @ [(a, b)]) b"
  by (induction lo xs m rule: ordered.induct) auto

text \<open>The open element, when there is one, starts after the last closed one and before the position.\<close>

definition start_ok :: "nat option \<Rightarrow> nat \<Rightarrow> nat \<Rightarrow> bool" where
  "start_ok start m i \<longleftrightarrow> (case start of None \<Rightarrow> m \<le> i | Some st \<Rightarrow> m \<le> st \<and> st < i)"

lemma start_ok_Suc: "start_ok start m i \<Longrightarrow> start_ok start m (i + 1)"
  by (auto simp: start_ok_def split: option.splits)

lemma start_ok_set: "start_ok start m i \<Longrightarrow> start_ok (set_start start i) m (i + 1)"
  by (auto simp: start_ok_def set_start_def split: option.splits)

lemma ordered_take_start:
  "ordered lo out m \<Longrightarrow> start_ok start m i \<Longrightarrow> ordered lo (out @ take_start start i) i"
  by (cases start) (auto simp: start_ok_def take_start_def intro: ordered_snoc ordered_mono)

lemma split_loop_ordered:
  "split_loop s i depth in_str esc start out = Some xs \<Longrightarrow> ordered lo out m \<Longrightarrow> start_ok start m i \<Longrightarrow>
   ordered lo xs (i + length s)"
proof (induction s i depth in_str esc start out arbitrary: m rule: split_loop.induct)
  case (2 c s i depth in_str esc start out)
  note t = ordered_take_start [OF "2.prems"(2,3)]
  have n: "start_ok None i (i + 1)" by (simp add: start_ok_def)
  consider (str) "in_str" | (sep) "\<not> in_str" "c = 0x2C" "depth = 0" | (stop) "\<not> in_str" "c = 0x5D" "depth = 0"
    | (other) "\<not> in_str" "\<not> (c = 0x2C \<and> depth = 0)" "\<not> (c = 0x5D \<and> depth = 0)" by blast
  then show ?case
  proof cases
    case str
    show ?thesis
      using "2.IH"(1-4) [of m] "2.prems" str start_ok_Suc [of start m i] by (auto split: if_splits)
  next
    case sep
    have "ordered lo xs (i + 1 + length s)"
      by (rule "2.IH"(8) [OF _ _ _ _ _ _ t n]) (use sep "2.prems" in simp_all)
    then show ?thesis by simp
  next
    case stop
    then have "xs = out @ take_start start i" using "2.prems"(1) by simp
    then show ?thesis using ordered_mono [OF t] by simp
  next
    case other
    show ?thesis
      using "2.IH"(5-7,9,10) [of m] "2.prems" other start_ok_Suc [of start m i] start_ok_set [of start m i]
      by (auto split: if_splits)
  qed
qed simp

lemma split_json_array_ordered: "split_json_array s = Some xs \<Longrightarrow> ordered 0 xs (length s)"
proof -
  assume a: "split_json_array s = Some xs"
  let ?i = "length (takeWhile is_ws s)"
  from a have i: "?i < length s" and l: "split_loop (drop (?i + 1) s) (?i + 1) 0 False False None [] = Some xs"
    by (auto simp: split_json_array_def Let_def split: if_splits)
  have "ordered 0 xs (?i + 1 + length (drop (?i + 1) s))"
    by (rule split_loop_ordered [OF l, where m = 0]) (simp_all add: start_ok_def)
  moreover have "?i + 1 + length (drop (?i + 1) s) = length s" using i by simp
  ultimately show "ordered 0 xs (length s)" by (simp only:)
qed

lemma max_64_pos: "0 < max n (64 :: nat)"
  by (simp add: max_def)

lemma message_loop_tiles:
  "ordered cur elems (length body) \<Longrightarrow> \<exists>cur' rs. message_loop body intra cur elems out = Some (cur', out @ rs) \<and>
     tiles cur rs cur' \<and> cur' \<le> length body"
proof (induction body intra cur elems out rule: message_loop.induct)
  case (1 body intra cur out)
  then show ?case by (intro exI [of _ cur] exI [of _ "[]"]) simp
next
  case (2 body intra cur a b elems out)
  have o: "cur \<le> a" "a < b" "ordered b elems (length body)" using "2.prems" by simp_all
  have b: "b \<le> length body"
    using o(3) by (induction b elems "length body" rule: ordered.induct) auto
  let ?lead = "if a > cur then [(False, cur, a)] else []"
  have lead: "tiles cur ?lead a" using o by simp
  have out: "(if a > cur then out @ [(False, cur, a)] else out) = out @ ?lead" by simp
  have finish: "\<exists>cur' rs. message_loop body intra b elems ((out @ ?lead) @ mid) = Some (cur', out @ rs) \<and>
      tiles cur rs cur' \<and> cur' \<le> length body"
    if IH: "\<exists>cur' rs. message_loop body intra b elems ((out @ ?lead) @ mid) = Some (cur', ((out @ ?lead) @ mid) @ rs) \<and>
      tiles b rs cur' \<and> cur' \<le> length body" and mid: "tiles a mid b" for mid
  proof -
    from IH obtain cur' rs where r: "message_loop body intra b elems ((out @ ?lead) @ mid) = Some (cur', ((out @ ?lead) @ mid) @ rs)"
      "tiles b rs cur'" "cur' \<le> length body" by blast
    have "tiles cur (?lead @ mid @ rs) cur'" using lead mid r(2) unfolding tiles_append by blast
    then show ?thesis using r by (intro exI [of _ cur'] exI [of _ "?lead @ mid @ rs"]) simp
  qed
  have single: "tiles a [(True, a, b)] b" using o by simp
  show ?case
  proof (cases intra)
    case None
    have e: "message_loop body intra cur ((a, b) # elems) out = message_loop body intra b elems ((out @ ?lead) @ [(True, a, b)])"
      unfolding message_loop.simps Let_def out None by simp
    show ?thesis unfolding e by (rule finish [OF _ single]) (rule "2.IH"(1) [OF out [symmetric] None o(3), unfolded out])
  next
    case (Some big)
    show ?thesis
    proof (cases "b - a > big")
      case True
      obtain subs where subs: "gear_ranges (slice body a b) (max big 64) = Some subs" "tiles 0 subs (b - a)"
        using gear_ranges_spec [OF max_64_pos [of big], of "slice body a b"] o(2) b by auto
      have mid: "tiles a (map (\<lambda>(_, x, y). (True, a + x, a + y)) subs) b"
        using tiles_shift [OF subs(2), of a] o(2) by simp
      have e: "message_loop body intra cur ((a, b) # elems) out =
          message_loop body intra b elems ((out @ ?lead) @ map (\<lambda>(_, x, y). (True, a + x, a + y)) subs)"
        unfolding message_loop.simps Let_def out Some using True subs(1) by simp
      show ?thesis unfolding e
        by (rule finish [OF _ mid]) (rule "2.IH"(2) [OF out [symmetric] Some True subs(1) o(3), unfolded out])
    next
      case False
      have e: "message_loop body intra cur ((a, b) # elems) out = message_loop body intra b elems ((out @ ?lead) @ [(True, a, b)])"
        unfolding message_loop.simps Let_def out Some using False by simp
      show ?thesis unfolding e by (rule finish [OF _ single]) (rule "2.IH"(3) [OF out [symmetric] Some False o(3), unfolded out])
    qed
  qed
qed

lemma carve_ranges_tiles: "\<exists>rs. carve_ranges strategy body = Some rs \<and> tiles 0 rs (length body)"
proof (cases "body = []")
  case False
  note g = gear_ranges_spec [of _ body]
  show ?thesis
  proof (cases strategy)
    case (Messages intra)
    show ?thesis
    proof (cases "\<exists>elems. split_json_array body = Some elems \<and> elems \<noteq> []")
      case True
      then obtain elems where e: "split_json_array body = Some elems" "elems \<noteq> []" by blast
      obtain cur rs where r: "message_loop body intra 0 elems [] = Some (cur, [] @ rs)" "tiles 0 rs cur" "cur \<le> length body"
        using message_loop_tiles [OF split_json_array_ordered [OF e(1)], of intra "[]"] by blast
      have "tiles 0 (if cur < length body then rs @ [(False, cur, length body)] else rs) (length body)"
        using r(2,3) by (auto simp: tiles_append)
      then show ?thesis using Messages False e r(1) by (simp add: carve_ranges_def)
    next
      case no_elems: False
      then have "carve_ranges strategy body = gear_ranges body 4096"
        using Messages False by (auto simp: carve_ranges_def split: option.splits)
      then show ?thesis using g [of 4096] by auto
    qed
  next
    case (Cdc target)
    have "carve_ranges strategy body = gear_ranges body (max target 64)" using Cdc False by (simp add: carve_ranges_def)
    then show ?thesis using g [OF max_64_pos [of target]] by auto
  qed (use False in \<open>simp_all add: carve_ranges_def\<close>)
qed (simp add: carve_ranges_def)

section \<open>Array elements\<close>

text \<open>
  What an element may be: it starts with a byte that is neither white space nor a closing brace, and
  reading it on its own from depth zero ends at depth zero, outside a string, without meeting a comma
  or a closing bracket at depth zero. Every JSON value, with or without white space after it, is one.
\<close>

fun elem_run :: "bytes \<Rightarrow> int \<Rightarrow> bool \<Rightarrow> bool \<Rightarrow> bool" where
  "elem_run [] depth in_str esc \<longleftrightarrow> depth = 0 \<and> \<not> in_str \<and> \<not> esc"
| "elem_run (c # s) depth in_str esc \<longleftrightarrow>
    (if in_str then
       (if esc then elem_run s depth True False
        else if c = 0x5C then elem_run s depth True True
        else if c = 0x22 then elem_run s depth False esc
        else elem_run s depth True esc)
     else if c = 0x22 then elem_run s depth True esc
     else if c = 0x5B \<or> c = 0x7B then elem_run s (depth + 1) False esc
     else if c = 0x5D \<or> c = 0x7D then \<not> (depth = 0 \<and> c = 0x5D) \<and> elem_run s (depth - 1) False esc
     else if c = 0x2C \<and> depth = 0 then False
     else elem_run s depth False esc)"

definition element :: "bytes \<Rightarrow> bool" where
  "element e \<longleftrightarrow> elem_run e 0 False False \<and> (case e of [] \<Rightarrow> False | c # _ \<Rightarrow> \<not> is_ws c \<and> c \<noteq> 0x7D)"

lemma set_start_Some [simp]: "set_start (Some st) i = Some st"
  by (simp add: set_start_def)

lemma split_loop_element:
  "elem_run e depth in_str esc \<Longrightarrow>
   split_loop (e @ rest) i depth in_str esc (Some st) out = split_loop rest (i + length e) 0 False False (Some st) out"
proof (induction e depth in_str esc arbitrary: i rule: elem_run.induct)
  case (2 c s depth in_str esc)
  then show ?case by (auto split: if_splits)
qed simp

lemma ws_bytes:
  assumes "is_ws c"
  shows "c \<noteq> 0x22" "c \<noteq> 0x5B" "c \<noteq> 0x7B" "c \<noteq> 0x5D" "c \<noteq> 0x7D" "c \<noteq> 0x2C"
  using assms by (auto simp: is_ws_def)

lemma split_loop_ws:
  "list_all is_ws w \<Longrightarrow> split_loop (w @ rest) i depth False esc start out = split_loop rest (i + length w) depth False esc start out"
  by (induction w arbitrary: i) (simp_all add: ws_bytes)

lemma split_loop_first:
  assumes "element e" and "list_all is_ws w"
  shows "split_loop (w @ e @ rest) i 0 False False None out
    = split_loop rest (i + length w + length e) 0 False False (Some (i + length w)) out"
proof -
  obtain c s where e: "e = c # s" and c: "\<not> is_ws c" "c \<noteq> 0x7D" and r: "elem_run (c # s) 0 False False"
    using assms(1) by (auto simp: element_def split: list.splits)
  have st: "set_start None j = Some j" for j by (simp add: set_start_def)
  have first: "split_loop ((c # s) @ rest) j 0 False False None out
      = split_loop ((c # s) @ rest) j 0 False False (Some j) out" for j
    using c r by (auto simp: st)
  have "split_loop (w @ e @ rest) i 0 False False None out = split_loop ((c # s) @ rest) (i + length w) 0 False False None out"
    using split_loop_ws [OF assms(2), of "e @ rest"] by (simp only: e)
  also have "\<dots> = split_loop rest (i + length w + length (c # s)) 0 False False (Some (i + length w)) out"
    unfolding first by (rule split_loop_element [OF r])
  finally show ?thesis by (simp only: e)
qed

text \<open>The elements of an array with the white space before each, as they stand between the brackets.\<close>

fun join_elems :: "(bytes \<times> bytes) list \<Rightarrow> bytes" where
  "join_elems [] = []"
| "join_elems [(w, e)] = w @ e"
| "join_elems ((w, e) # es) = w @ e @ 0x2C # join_elems es"

fun elem_ranges :: "nat \<Rightarrow> (bytes \<times> bytes) list \<Rightarrow> (nat \<times> nat) list" where
  "elem_ranges i [] = []"
| "elem_ranges i ((w, e) # es) = (i + length w, i + length w + length e) # elem_ranges (i + length w + length e + 1) es"

lemma split_loop_elems:
  "list_all (\<lambda>(w, e). list_all is_ws w \<and> element e) es \<Longrightarrow>
   split_loop (join_elems es @ 0x5D # tail) i 0 False False None out = Some (out @ elem_ranges i es)"
proof (induction es arbitrary: i out rule: join_elems.induct)
  case 1
  then show ?case by (simp add: take_start_def)
next
  case (2 w e)
  then have f: "element e" "list_all is_ws w" by simp_all
  show ?case using split_loop_first [OF f, of "0x5D # tail" i out] by (simp add: take_start_def)
next
  case (3 w e x es)
  then have f: "element e" "list_all is_ws w" by simp_all
  have "split_loop (join_elems ((w, e) # x # es) @ 0x5D # tail) i 0 False False None out
      = split_loop (0x2C # join_elems (x # es) @ 0x5D # tail) (i + length w + length e) 0 False False (Some (i + length w)) out"
    using split_loop_first [OF f, of "0x2C # join_elems (x # es) @ 0x5D # tail" i out] by simp
  also have "\<dots> = split_loop (join_elems (x # es) @ 0x5D # tail) (i + length w + length e + 1) 0 False False None
      (out @ [(i + length w, i + length w + length e)])"
    by (simp add: take_start_def)
  also have "\<dots> = Some ((out @ [(i + length w, i + length w + length e)]) @ elem_ranges (i + length w + length e + 1) (x # es))"
    by (rule "3.IH") (use "3.prems" in simp)
  finally show ?case by simp
qed

section \<open>The spans of an array\<close>

text \<open>The spans an array should become. An element is one piece, or, where chunking inside elements is asked
  for and the element is over the limit, the pieces of its own chunks; what stands between the elements is
  literal: the bytes up to the opening bracket, one comma each, the rest from the closing bracket on, and
  before each element its white space.\<close>

definition elem_pieces :: "nat option \<Rightarrow> bytes \<Rightarrow> span list" where
  "elem_pieces intra e = (case intra of
     None \<Rightarrow> [SPiece e]
   | Some big \<Rightarrow>
       if length e > big then map (\<lambda>(_, x, y). SPiece (slice e x y)) (the (gear_ranges e (max big 64)))
       else [SPiece e])"

fun array_spans :: "nat option \<Rightarrow> bytes \<Rightarrow> (bytes \<times> bytes) list \<Rightarrow> bytes \<Rightarrow> span list" where
  "array_spans intra gap [] end = [SLit (gap @ end)]"
| "array_spans intra gap ((w, e) # es) end =
     SLit (gap @ w) # elem_pieces intra e @ array_spans intra (if es = [] then [] else [0x2C]) es end"

definition span_of :: "bytes \<Rightarrow> range \<Rightarrow> span" where
  "span_of body = (\<lambda>(foldable, a, b). if foldable then SPiece (slice body a b) else SLit (slice body a b))"

lemma carve_spans_of: "carve_spans strategy body = map_option (map (span_of body)) (carve_ranges strategy body)"
  by (simp add: carve_spans_def span_of_def)

lemma slice_prefix: "drop i body = p @ q \<Longrightarrow> j = i + length p \<Longrightarrow> slice body i j = p"
  by (simp add: slice_def)

lemma drop_past: "drop i body = p @ q \<Longrightarrow> j = i + length p \<Longrightarrow> drop j body = q"
  by (metis add.commute append_eq_conv_conj drop_drop)

lemma tiles_end: "tiles a rs b \<Longrightarrow> (f, x, y) \<in> set rs \<Longrightarrow> y \<le> b"
  by (induction a rs b rule: tiles.induct) (auto dest: tiles_le)

lemma slice_within: "y \<le> length e \<Longrightarrow> slice body a (a + length e) = e \<Longrightarrow> slice body (a + x) (a + y) = slice e x y"
  using slice_sub [of y "length e" body a x] by simp

lemma message_loop_step:
  assumes "slice body a b = e" and "b = a + length e" and "cur < a"
  shows "\<exists>mid. map (span_of body) mid = SLit (slice body cur a) # elem_pieces intra e \<and>
    message_loop body intra cur ((a, b) # elems) out = message_loop body intra b elems (out @ mid)"
proof (cases "\<exists>big. intra = Some big \<and> length e > big")
  case True
  then obtain big where big: "intra = Some big" "length e > big" by blast
  obtain subs where subs: "gear_ranges e (max big 64) = Some subs" "tiles 0 subs (length e)"
    using gear_ranges_spec [OF max_64_pos [of big], of e] by blast
  have "span_of body (True, a + x, a + y) = SPiece (slice e x y)" if "(f, x, y) \<in> set subs" for f x y
    using slice_within [OF tiles_end [OF subs(2) that]] assms(1,2) by (simp add: span_of_def)
  then have "map (span_of body) (map (\<lambda>(_, x, y). (True, a + x, a + y)) subs) = elem_pieces intra e"
    using big subs(1) by (auto simp: elem_pieces_def)
  moreover have "message_loop body intra cur ((a, b) # elems) out =
      message_loop body intra b elems (out @ (False, cur, a) # map (\<lambda>(_, x, y). (True, a + x, a + y)) subs)"
    using big subs(1) assms by simp
  ultimately show ?thesis
    by (intro exI [of _ "(False, cur, a) # map (\<lambda>(_, x, y). (True, a + x, a + y)) subs"]) (simp add: span_of_def)
next
  case False
  then have "elem_pieces intra e = [SPiece e]" by (auto simp: elem_pieces_def split: option.splits)
  moreover have "message_loop body intra cur ((a, b) # elems) out = message_loop body intra b elems (out @ [(False, cur, a), (True, a, b)])"
    using False assms by (auto simp: Let_def split: option.splits)
  ultimately show ?thesis
    using assms(1) by (intro exI [of _ "[(False, cur, a), (True, a, b)]"]) (simp add: span_of_def)
qed

lemma message_loop_spans:
  "drop cur body = gap @ join_elems es @ end \<Longrightarrow> end \<noteq> [] \<Longrightarrow> (es \<noteq> [] \<Longrightarrow> gap \<noteq> []) \<Longrightarrow>
   \<exists>cur' rs. message_loop body intra cur (elem_ranges (cur + length gap) es) out = Some (cur', out @ rs) \<and> cur' < length body \<and>
     map (span_of body) (rs @ [(False, cur', length body)]) = array_spans intra gap es end"
proof (induction es arbitrary: cur gap out)
  case Nil
  then have d: "drop cur body = gap @ end" by simp
  have "cur < length body" using d Nil.prems(2) by (metis append_is_Nil_conv drop_all leI)
  moreover have "slice body cur (length body) = gap @ end" using d by (simp add: slice_def flip: d)
  ultimately show ?case by (intro exI [of _ cur] exI [of _ "[]"]) (simp add: span_of_def)
next
  case (Cons x es)
  obtain w e where x: "x = (w, e)" by (cases x)
  let ?a = "cur + length gap + length w" and ?g = "if es = [] then [] else [0x2C :: byte]"
  let ?b = "?a + length e"
  have j: "join_elems (x # es) = w @ e @ ?g @ join_elems es" by (cases es) (simp_all add: x)
  have d: "drop cur body = (gap @ w) @ e @ ?g @ join_elems es @ end" using Cons.prems(1) unfolding j by simp
  have da: "drop ?a body = e @ ?g @ join_elems es @ end" by (rule drop_past [OF d]) simp
  have db: "drop ?b body = ?g @ join_elems es @ end" by (rule drop_past [OF da]) simp
  have lit: "slice body cur ?a = gap @ w" by (rule slice_prefix [OF d]) simp
  have el: "slice body ?a ?b = e" by (rule slice_prefix [OF da]) simp
  have lt: "cur < ?a" using Cons.prems(3) by simp
  obtain mid where mid: "map (span_of body) mid = SLit (slice body cur ?a) # elem_pieces intra e"
      "message_loop body intra cur ((?a, ?b) # elem_ranges (?b + length ?g) es) out =
       message_loop body intra ?b (elem_ranges (?b + length ?g) es) (out @ mid)"
    using message_loop_step [OF el refl lt, where intra = intra and elems = "elem_ranges (?b + length ?g) es" and out = out]
    by (elim exE conjE) (rule that)
  obtain cur' rs where r: "message_loop body intra ?b (elem_ranges (?b + length ?g) es) (out @ mid) = Some (cur', (out @ mid) @ rs)"
      "cur' < length body" "map (span_of body) (rs @ [(False, cur', length body)]) = array_spans intra ?g es end"
    using Cons.IH [OF db Cons.prems(2), of "out @ mid"] by (auto split: if_splits)
  have "elem_ranges (cur + length gap) (x # es) = (?a, ?b) # elem_ranges (?b + length ?g) es" by (cases es) (simp_all add: x)
  then have "message_loop body intra cur (elem_ranges (cur + length gap) (x # es)) out = Some (cur', out @ mid @ rs)"
    using mid(2) r(1) by simp
  moreover have "map (span_of body) ((mid @ rs) @ [(False, cur', length body)]) = array_spans intra gap (x # es) end"
    using mid(1) r(3) lit by (simp add: x)
  ultimately show ?case using r(2) by (intro exI [of _ cur'] exI [of _ "mid @ rs"]) simp
qed

section \<open>Properties\<close>

text \<open>C18. Every strategy reproduces the body: for every strategy and every body the carve terminates, its
  ranges are non-empty and follow one another from the first byte to the last, and concatenating the
  spans yields the body.\<close>

theorem carve_reassembles:
  "\<exists>rs spans. carve_ranges strategy body = Some rs \<and> tiles 0 rs (length body) \<and>
     carve_spans strategy body = Some spans \<and> concat (map span_bytes spans) = body"
proof -
  obtain rs where rs: "carve_ranges strategy body = Some rs" "tiles 0 rs (length body)"
    using carve_ranges_tiles by blast
  let ?span = "\<lambda>(foldable, a, b). if foldable then SPiece (slice body a b) else SLit (slice body a b)"
  have "map span_bytes (map ?span rs) = map (\<lambda>(f, x, y). slice body x y) rs"
    by (auto simp: comp_def)
  then have "concat (map span_bytes (map ?span rs)) = body"
    using tiles_bytes [OF rs(2) le_refl] by (simp only: slice_full)
  moreover have "carve_spans strategy body = Some (map ?span rs)" using rs by (simp add: carve_spans_def)
  ultimately show ?thesis using rs by blast
qed

text \<open>C31. The message strategy cuts a top-level JSON array exactly at its elements, whatever stands around
  them: in a non-empty array whose elements are well-bracketed values, with any white space before each
  and any bytes after the array, each element is one piece holding exactly its bytes, or the pieces of
  its own chunks where chunking inside elements is on and the element is over that limit, and everything
  between the elements is literal. So the pieces of a repeated message are the same in every resend.\<close>

theorem array_elements_are_pieces:
  assumes "list_all is_ws lead" and "list_all (\<lambda>(w, e). list_all is_ws w \<and> element e) es" and "es \<noteq> []"
    and "body = lead @ 0x5B # join_elems es @ 0x5D # rest"
  shows "carve_spans (Messages intra) body = Some (array_spans intra (lead @ [0x5B]) es (0x5D # rest))"
proof -
  have n: "\<not> is_ws 0x5B" by (simp add: is_ws_def)
  have l: "takeWhile is_ws body = lead"
    using assms(1) n by (simp add: assms(4) list_all_iff)
  have "split_json_array body = split_loop (join_elems es @ 0x5D # rest) (length lead + 1) 0 False False None []"
    unfolding split_json_array_def Let_def l by (simp add: assms(4) nth_append)
  also have "\<dots> = Some ([] @ elem_ranges (length lead + 1) es)" by (rule split_loop_elems [OF assms(2)])
  finally have s: "split_json_array body = Some (elem_ranges (length lead + 1) es)" by simp
  have "drop 0 body = (lead @ [0x5B]) @ join_elems es @ 0x5D # rest" by (simp add: assms(4))
  then obtain cur rs where m: "message_loop body intra 0 (elem_ranges (length lead + 1) es) [] = Some (cur, rs)" "cur < length body"
      "map (span_of body) (rs @ [(False, cur, length body)]) = array_spans intra (lead @ [0x5B]) es (0x5D # rest)"
    using message_loop_spans [of 0 body "lead @ [0x5B]" es "0x5D # rest" intra "[]"] by auto
  have "elem_ranges (length lead + 1) es \<noteq> []" "body \<noteq> []" using assms(3,4) by (cases es; auto)+
  then have "carve_ranges (Messages intra) body = Some (rs @ [(False, cur, length body)])"
    using s m(1,2) by (simp add: carve_ranges_def)
  then show ?thesis using m(3) by (simp add: carve_spans_of)
qed

theorem array_elements_are_pieces_witness:
  "carve_spans (Messages None) [0x5B, 0x22, 0x2C, 0x22, 0x2C, 0x20, 0x7B, 0x5D, 0x5B, 0x7D, 0x5D, 0x0A] =
     Some [SLit [0x5B], SPiece [0x22, 0x2C, 0x22], SLit [0x2C, 0x20], SPiece [0x7B, 0x5D, 0x5B, 0x7D], SLit [0x5D, 0x0A]]"
proof -
  have "list_all (\<lambda>(w, e). list_all is_ws w \<and> element e) [([], [0x22, 0x2C, 0x22]), ([0x20], [0x7B, 0x5D, 0x5B, 0x7D])]"
    by (simp add: element_def is_ws_def)
  from array_elements_are_pieces [OF _ this _ refl, of "[]" None "[0x0A]"] show ?thesis by (simp add: elem_pieces_def)
qed

text \<open>C32. Content-defined chunks respect the bounds of the effective target, which is the target but never
  less than 64 bytes: for every target and every body the chunker terminates and tiles the body with
  foldable chunks, none longer than four times the effective target, and all but the last one longer than
  a quarter of it.\<close>

theorem chunks_within_bounds:
  "\<exists>rs. carve_ranges (Cdc target) body = Some rs \<and> tiles 0 rs (length body) \<and>
     (\<forall>(f, x, y) \<in> set rs. f \<and> y - x \<le> max target 64 * 4) \<and>
     (\<forall>(f, x, y) \<in> set (butlast rs). max target 64 div 4 < y - x)"
proof (cases "body = []")
  case True
  then show ?thesis by (simp add: carve_ranges_def)
next
  case False
  then show ?thesis
    using gear_ranges_spec [OF max_64_pos [of target], of body]
    by (auto simp: carve_ranges_def chunk_sizes_ok_def list_all_iff)
qed

theorem chunks_within_bounds_witness:
  "\<exists>rs. carve_ranges (Cdc 64) (replicate 200 1) = Some rs \<and> tiles 0 rs 200 \<and>
     (\<forall>(f, x, y) \<in> set rs. f \<and> y - x \<le> 256) \<and> (\<forall>(f, x, y) \<in> set (butlast rs). 16 < y - x)"
  using chunks_within_bounds [of 64 "replicate 200 1"] by simp

text \<open>The bounds are not those of the target itself: asked for chunks of at most four bytes, the chunker
  makes one of ten.\<close>

lemma small_target_overrun: "carve_ranges (Cdc 1) (replicate 10 b) = Some [(True, 0, 10)]"
proof -
  have "gear_loop (replicate 10 b) 64 0 [] = Some ([] @ [(True, 0, length (replicate 10 b))])"
    by (subst gear_loop.simps) simp
  then show ?thesis by (simp add: carve_ranges_def gear_ranges_def replicate_numeral)
qed

end
