(* ===== verification/WalRecord.thy ===== *)
theory WalRecord
  imports Types
begin

text \<open>
  The payload of a write-ahead-log record frame (the first part of \<open>src/src/store/wal.rs\<close>): the record's
  id, its named content programs with their identities, its attributes, and the bytes of the pieces
  that were new when it was written. BLAKE3 is the parameter \<open>blake3\<close>; an incremental hasher is the
  digest of the concatenated updates.
\<close>

type_synonym novel_pieces = "(digest \<times> bytes) list"
type_synonym carved_record = "trace_record \<times> novel_pieces"

section \<open>Fields\<close>

definition put_bytes :: "bytes \<Rightarrow> bytes" where
  "put_bytes b = put_varint (word_of_nat (length b)) @ b"

definition get_bytes :: "bytes \<Rightarrow> nat \<Rightarrow> (bytes \<times> nat) outcome" where
  "get_bytes b at =
     bind_res (get_varint b at) (\<lambda>(n, at).
     if unat n > length b - at then Inl (Bail ''wal: byte string runs past the frame'')
     else Inr (slice b at (at + unat n), at + unat n))"

definition take_field :: "nat \<Rightarrow> bytes \<Rightarrow> nat \<Rightarrow> (bytes \<times> nat) outcome" where
  "take_field n b at =
    (if n > length b - at then Inl (Bail ''wal: field runs past the frame'')
     else Inr (slice b at (at + n), at + n))"

definition get_string :: "bytes \<Rightarrow> nat \<Rightarrow> (bytes \<times> nat) outcome" where
  "get_string b at = bind_res (get_bytes b at) (\<lambda>(s, at). bind_res (from_utf8 s) (\<lambda>s. Inr (s, at)))"

section \<open>Content programs\<close>

fun put_op :: "content_op \<Rightarrow> bytes" where
  "put_op (Lit b) = 0 # put_bytes b"
| "put_op (Piece h n) = 1 # h @ put_varint (ucast n)"

definition put_ops :: "content_op list \<Rightarrow> bytes" where
  "put_ops xs = put_varint (word_of_nat (length xs)) @ concat (map put_op xs)"

definition get_op :: "bytes \<Rightarrow> nat \<Rightarrow> (content_op \<times> nat) outcome" where
  "get_op b at =
     bind_res (ok_or (Bail ''wal: truncated content op'') (get_at b at)) (\<lambda>tag.
     let at = at + 1 in
     if tag = 0 then bind_res (get_bytes b at) (\<lambda>(x, at). Inr (Lit x, at))
     else if tag = 1 then
       bind_res (take_field 32 b at) (\<lambda>(h, at).
       bind_res (get_varint b at) (\<lambda>(n, at).
       if unat n > u32_max then Inl (Bail ''wal: piece length exceeds the format's u32 limit'')
       else if n = 0 then Inl (Bail ''wal: piece length must be non-zero'')
       else Inr (Piece h (ucast n), at)))
     else Inl (Bail ''wal: unknown content op tag''))"

definition get_ops :: "bytes \<Rightarrow> nat \<Rightarrow> (content_op list \<times> nat) outcome" where
  "get_ops b at = bind_res (get_varint b at) (\<lambda>(n, at). get_n get_op (unat n) b at)"

section \<open>Attributes\<close>

fun put_value :: "attr_value \<Rightarrow> bytes" where
  "put_value (AStr s) = put_bytes s"
| "put_value (AInt i) = le64 i"
| "put_value (AFloat f) = le64 f"
| "put_value (ABool b) = [if b then 1 else 0]"
| "put_value (AUInt i) = le64 i"
| "put_value (ABytes b) = put_bytes b"
| "put_value (ATimestampNs i) = le64 i"
| "put_value ANull = []"

definition put_attrs :: "(bytes \<times> attr_value) list \<Rightarrow> bytes" where
  "put_attrs xs = put_varint (word_of_nat (length xs))
     @ concat (map (\<lambda>(k, v). put_bytes k @ type_tag v # put_value v) xs)"

definition get_value :: "byte \<Rightarrow> bytes \<Rightarrow> nat \<Rightarrow> (attr_value \<times> nat) outcome" where
  "get_value tag b at =
    (if tag = 0 then bind_res (get_string b at) (\<lambda>(s, at). Inr (AStr s, at))
     else if tag = 1 then bind_res (take_field 8 b at) (\<lambda>(x, at). Inr (AInt (u64_of_le x), at))
     else if tag = 2 then bind_res (take_field 8 b at) (\<lambda>(x, at). Inr (AFloat (u64_of_le x), at))
     else if tag = 3 then bind_res (take_field 1 b at) (\<lambda>(x, at).
       if x ! 0 = 0 then Inr (ABool False, at)
       else if x ! 0 = 1 then Inr (ABool True, at)
       else Inl (Bail ''wal: invalid boolean byte''))
     else if tag = 4 then bind_res (take_field 8 b at) (\<lambda>(x, at). Inr (AUInt (u64_of_le x), at))
     else if tag = 5 then bind_res (get_bytes b at) (\<lambda>(x, at). Inr (ABytes x, at))
     else if tag = 6 then bind_res (take_field 8 b at) (\<lambda>(x, at). Inr (ATimestampNs (u64_of_le x), at))
     else if tag = 7 then Inr (ANull, at)
     else Inl (Bail ''wal: unknown attr type tag''))"

definition get_attr :: "bytes \<Rightarrow> nat \<Rightarrow> ((bytes \<times> attr_value) \<times> nat) outcome" where
  "get_attr b at =
     bind_res (get_string b at) (\<lambda>(key, at).
     if key = [] then Inl (Bail ''wal: attribute name must not be empty'')
     else bind_res (ok_or (Bail ''wal: truncated attr'') (get_at b at)) (\<lambda>tag.
       bind_res (get_value tag b (at + 1)) (\<lambda>(v, at). Inr ((key, v), at))))"

definition get_attrs :: "bytes \<Rightarrow> nat \<Rightarrow> ((bytes \<times> attr_value) list \<times> nat) outcome" where
  "get_attrs b at = bind_res (get_varint b at) (\<lambda>(n, at). get_n get_attr (unat n) b at)"

section \<open>Novel pieces\<close>

definition put_novel :: "novel_pieces \<Rightarrow> bytes" where
  "put_novel xs = put_varint (word_of_nat (length xs)) @ concat (map (\<lambda>(h, b). h @ put_bytes b) xs)"

definition get_novel_piece :: "(bytes \<Rightarrow> digest) \<Rightarrow> bytes \<Rightarrow> nat \<Rightarrow> ((digest \<times> bytes) \<times> nat) outcome" where
  "get_novel_piece blake3 b at =
     bind_res (take_field 32 b at) (\<lambda>(h, at).
     bind_res (get_bytes b at) (\<lambda>(x, at).
     if x = [] then Inl (Bail ''wal: novel piece bytes must be non-empty'')
     else if piece_hash blake3 x \<noteq> h then
       Inl (Bail ''wal: novel piece bytes do not match their BLAKE3 identity'')
     else Inr ((h, x), at)))"

definition get_novel :: "(bytes \<Rightarrow> digest) \<Rightarrow> bytes \<Rightarrow> nat \<Rightarrow> (novel_pieces \<times> nat) outcome" where
  "get_novel blake3 b at = bind_res (get_varint b at) (\<lambda>(n, at). get_n (get_novel_piece blake3) (unat n) b at)"

section \<open>Identities\<close>

fun novel_map :: "novel_pieces \<Rightarrow> (digest \<Rightarrow> bytes option) \<Rightarrow> (digest \<Rightarrow> bytes option) outcome" where
  "novel_map [] pieces = Inr pieces"
| "novel_map ((h, b) # xs) pieces =
    (if pieces h \<noteq> None then Inl (Bail ''wal: duplicate novel piece identity'')
     else novel_map xs (pieces(h \<mapsto> b)))"

text \<open>The bytes given to the hasher so far, and whether every piece was at hand.\<close>

fun replay_ops :: "(digest \<Rightarrow> bytes option) \<Rightarrow> content_op list \<Rightarrow> bytes \<Rightarrow> bool \<Rightarrow> (bytes \<times> bool) outcome" where
  "replay_ops pieces [] hashed complete = Inr (hashed, complete)"
| "replay_ops pieces (Lit b # xs) hashed complete = replay_ops pieces xs (hashed @ b) complete"
| "replay_ops pieces (Piece h n # xs) hashed complete =
    (case pieces h of
       Some b \<Rightarrow>
         if length b \<noteq> unat n then Inl (Bail ''wal: content declares another piece length'')
         else replay_ops pieces xs (hashed @ b) complete
     | None \<Rightarrow> replay_ops pieces xs hashed False)"

definition verify_content_identity :: "(bytes \<Rightarrow> digest) \<Rightarrow> (digest \<Rightarrow> bytes option) \<Rightarrow> content \<Rightarrow> unit outcome" where
  "verify_content_identity blake3 pieces c =
     bind_res (replay_ops pieces (cops c) [] True) (\<lambda>(hashed, complete).
     if complete then
       bind_res (ok_or (Bail ''wal: content has no identity'') (cidentity c)) (\<lambda>declared.
       if content_hash blake3 hashed \<noteq> declared then
         Inl (Bail ''wal: content identity differs from the reconstructed bytes'')
       else Inr ())
     else Inr ())"

fun each_ok :: "('a \<Rightarrow> unit outcome) \<Rightarrow> 'a list \<Rightarrow> unit outcome" where
  "each_ok f [] = Inr ()"
| "each_ok f (x # xs) = bind_res (f x) (\<lambda>_. each_ok f xs)"

definition verify_frame_local_identities :: "(bytes \<Rightarrow> digest) \<Rightarrow> trace_record \<Rightarrow> novel_pieces \<Rightarrow> unit outcome" where
  "verify_frame_local_identities blake3 r novel =
     bind_res (novel_map novel (\<lambda>_. None)) (\<lambda>pieces.
     each_ok (verify_content_identity blake3 pieces) (rcontents r))"

section \<open>Records\<close>

fun validate_novel :: "(bytes \<Rightarrow> digest) \<Rightarrow> digest set \<Rightarrow> novel_pieces \<Rightarrow> unit outcome" where
  "validate_novel blake3 identities [] = Inr ()"
| "validate_novel blake3 identities ((h, b) # xs) =
    (if b = [] then Inl (Bail ''novel piece bytes must be non-empty'')
     else if piece_hash blake3 b \<noteq> h then Inl (Bail ''novel piece bytes do not match their BLAKE3 identity'')
     else if h \<in> identities then Inl (Bail ''duplicate novel piece identity'')
     else validate_novel blake3 (insert h identities) xs)"

definition validate_record_for_wal :: "(bytes \<Rightarrow> digest) \<Rightarrow> trace_record \<Rightarrow> novel_pieces \<Rightarrow> unit outcome" where
  "validate_record_for_wal blake3 r novel =
     bind_res (validate_contents (rcontents r)) (\<lambda>_.
     if rid r = [] then Inl (Bail ''record id must not be empty'')
     else if list_ex (\<lambda>(k, _). k = []) (rattrs r) then Inl (Bail ''attribute name must not be empty'')
     else bind_res (validate_novel blake3 {} novel) (\<lambda>_.
       verify_frame_local_identities blake3 r novel))"

fun put_contents :: "content list \<Rightarrow> bytes outcome" where
  "put_contents [] = Inr []"
| "put_contents (c # cs) =
     bind_res (ok_or (Bail ''content has no reconstructed-byte identity'') (cidentity c)) (\<lambda>identity.
     bind_res (put_contents cs) (\<lambda>rest.
     Inr (put_bytes (cname c) @ identity @ put_ops (cops c) @ rest)))"

definition encode_record :: "(bytes \<Rightarrow> digest) \<Rightarrow> trace_record \<Rightarrow> novel_pieces \<Rightarrow> bytes outcome" where
  "encode_record blake3 r novel =
     bind_res (validate_record_for_wal blake3 r novel) (\<lambda>_.
     bind_res (put_contents (sort_key cname (rcontents r))) (\<lambda>contents.
     Inr (put_bytes (rid r) @ put_varint (word_of_nat (length (rcontents r))) @ contents
          @ put_attrs (rattrs r) @ put_novel novel)))"

fun get_contents :: "nat \<Rightarrow> bytes option \<Rightarrow> bytes \<Rightarrow> nat \<Rightarrow> (content list \<times> nat) outcome" where
  "get_contents 0 previous b at = Inr ([], at)"
| "get_contents (Suc n) previous b at =
     bind_res (get_bytes b at) (\<lambda>(name, at).
     if (case previous of None \<Rightarrow> False | Some p \<Rightarrow> p \<ge> name) then
       Inl (Bail ''wal: content names are duplicated or out of canonical UTF-8 order'')
     else bind_res (from_utf8 name) (\<lambda>name.
       bind_res (take_field 32 b at) (\<lambda>(h, at).
       bind_res (get_ops b at) (\<lambda>(xs, at).
       bind_res (get_contents n (Some name) b at) (\<lambda>(cs, at).
       Inr (identified_content name xs h # cs, at))))))"

definition decode_record :: "(bytes \<Rightarrow> digest) \<Rightarrow> bytes \<Rightarrow> carved_record outcome" where
  "decode_record blake3 b =
     bind_res (get_string b 0) (\<lambda>(i, at).
     bind_res (get_varint b at) (\<lambda>(n, at).
     bind_res (get_contents (unat n) None b at) (\<lambda>(contents, at).
     bind_res (get_attrs b at) (\<lambda>(attrs, at).
     bind_res (get_novel blake3 b at) (\<lambda>(novel, at).
     if at \<noteq> length b then Inl (Bail ''wal: record has trailing bytes'')
     else bind_res (new_record i contents attrs) (\<lambda>r.
       bind_res (verify_frame_local_identities blake3 r novel) (\<lambda>_.
       Inr (r, novel))))))))"

section \<open>The fields are exact\<close>

lemma exact_bytes: "exact_wire put_bytes get_bytes short"
proof unfold_locales
  fix at b x rest
  assume d: "drop at b = put_bytes x @ rest" and at: "at \<le> length b" and ok: "short x"
  have d1: "drop at b = put_varint (word_of_nat (length x)) @ (x @ rest)" using d by (simp add: put_bytes_def)
  note v = varint.get_put [OF d1 at TrueI] and c = cursor_advance [OF d1 at]
  note c2 = cursor_advance [OF c(1,2)]
  show "get_bytes b at = Inr (x, at + length (put_bytes x))"
    using c2(3,4) ok by (simp add: get_bytes_def v put_bytes_def add.assoc)
next
  fix b at x at'
  assume g: "get_bytes b at = Inr (x, at')" and at: "at \<le> length b"
  then obtain n at1 where n: "get_varint b at = Inr (n, at1)" and l: "unat n \<le> length b - at1"
    and x: "x = slice b at1 (at1 + unat n)" "at' = at1 + unat n"
    by (auto simp: get_bytes_def bind_res_Inr_iff split: prod.splits if_splits)
  note e = varint.get_exact [OF n at] and a = varint.get_advances [OF n at]
  have le: "at' \<le> length b" using l a x(2) by linarith
  have lx: "length x = unat n" using le a x by simp
  have "drop at1 b = x @ drop at' b" using slice_cursor [of at1 at' b] le x by simp
  moreover have "short x" using lx unat_u64_le_max by (simp add: short_def)
  ultimately show "short x \<and> drop at b = put_bytes x @ drop at' b \<and> at' = at + length (put_bytes x)"
    using e lx x by (simp add: put_bytes_def)
qed

lemma take_field_fixed: "take_field n = get_fixed (Bail ''wal: field runs past the frame'') n"
  by (intro ext) (simp add: take_field_def get_fixed_def)

lemma exact_field: "exact_wire (\<lambda>x. x) (take_field n) (\<lambda>x. length x = n)"
  unfolding take_field_fixed by (rule exact_wire_fixed)

definition string_ok :: "bytes \<Rightarrow> bool" where
  "string_ok s \<longleftrightarrow> utf8_ok s \<and> short s"

lemma exact_string: "exact_wire put_bytes get_string string_ok"
proof -
  have "get_string = get_map from_utf8 get_bytes" by (intro ext) (simp add: get_string_def get_map_def)
  moreover have "exact_wire put_bytes (get_map from_utf8 get_bytes) string_ok"
    by (rule exact_wire_map [OF exact_bytes]) (auto simp: from_utf8_def string_ok_def split: if_splits)
  ultimately show ?thesis by simp
qed

definition op_ok :: "content_op \<Rightarrow> bool" where
  "op_ok x \<longleftrightarrow> (case x of Lit b \<Rightarrow> short b | Piece h n \<Rightarrow> length h = 32 \<and> n \<noteq> 0)"

fun op_tag :: "content_op \<Rightarrow> byte" where
  "op_tag (Lit b) = 0"
| "op_tag (Piece h n) = 1"

fun op_body :: "content_op \<Rightarrow> bytes" where
  "op_body (Lit b) = put_bytes b"
| "op_body (Piece h n) = h @ put_varint (ucast n)"

definition op_payload :: "byte \<Rightarrow> bytes \<Rightarrow> nat \<Rightarrow> (content_op \<times> nat) outcome" where
  "op_payload t =
    (if t = 0 then get_map (\<lambda>x. Inr (Lit x)) get_bytes
     else if t = 1 then
       get_map (\<lambda>(h, n). if unat n > u32_max then Inl (Bail ''wal: piece length exceeds the format's u32 limit'')
         else if n = 0 then Inl (Bail ''wal: piece length must be non-zero'') else Inr (Piece h (ucast n)))
         (get_pair (take_field 32) get_varint)
     else (\<lambda>b at. Inl (Bail ''wal: unknown content op tag'')))"

lemma get_op_tagged: "get_op = get_tagged (Bail ''wal: truncated content op'') op_payload"
proof -
  have "op_payload t b at =
     (if t = 0 then bind_res (get_bytes b at) (\<lambda>(x, at). Inr (Lit x, at))
     else if t = 1 then
       bind_res (take_field 32 b at) (\<lambda>(h, at).
       bind_res (get_varint b at) (\<lambda>(n, at).
       if unat n > u32_max then Inl (Bail ''wal: piece length exceeds the format's u32 limit'')
       else if n = 0 then Inl (Bail ''wal: piece length must be non-zero'')
       else Inr (Piece h (ucast n), at)))
     else Inl (Bail ''wal: unknown content op tag''))" for t b at
    by (auto simp: op_payload_def get_map_def get_pair_def bind_res_assoc split: bind_res_splits)
  then show ?thesis by (intro ext) (simp add: get_op_def get_tagged_def Let_def)
qed

lemma ucast_u32_small: "unat (n :: u64) \<le> u32_max \<Longrightarrow> ucast (ucast n :: u32) = n"
proof -
  assume "unat n \<le> u32_max"
  then have "unat n < 2 ^ 32" by (simp add: u32_max_def)
  then have "unat (ucast (ucast n :: u32) :: u64) = unat n"
    by (simp add: unsigned_ucast_eq unsigned_take_bit_eq take_bit_nat_eq_self)
  then show ?thesis by (rule word_unat_eq_iff [THEN iffD2])
qed

lemma unat_ucast_u64 [simp]: "unat (ucast (n :: u32) :: u64) = unat n"
  using unat_less [of n] by (simp add: unsigned_ucast_eq unsigned_take_bit_eq take_bit_nat_eq_self_iff)

lemma ucast_u64_zero [simp]: "(ucast (n :: u32) :: u64) = 0 \<longleftrightarrow> n = 0"
  by (metis unat_ucast_u64 unat_eq_zero)

lemma ucast_u32_u64 [simp]: "(ucast (ucast (n :: u32) :: u64) :: u32) = n"
  by (rule bit_word_eqI) (auto simp: bit_simps)

lemma exact_op: "exact_wire put_op get_op op_ok"
proof -
  have pair: "exact_wire (\<lambda>(h, n). h @ put_varint n) (get_pair (take_field 32) get_varint) (\<lambda>(h, n). length h = 32 \<and> True)"
    by (rule exact_wire_pair [OF exact_field varint.exact_wire_axioms])
  have "exact_wire op_body (op_payload t) (\<lambda>x. op_ok x \<and> op_tag x = t)" for t
  proof -
    consider "t = 0" | "t = 1" | "t \<noteq> 0" "t \<noteq> 1" by blast
    then show ?thesis
    proof cases
      case 1
      have "exact_wire op_body (get_map (\<lambda>x. Inr (Lit x)) get_bytes) (\<lambda>x. op_ok x \<and> op_tag x = 0)"
      proof (rule exact_wire_map [OF exact_bytes])
        fix y assume "op_ok y \<and> op_tag y = 0"
        then show "\<exists>x. short x \<and> Inr (Lit x) = Inr y \<and> op_body y = put_bytes x" by (cases y) (auto simp: op_ok_def)
      qed (auto simp: op_ok_def)
      then show ?thesis by (simp add: op_payload_def 1)
    next
      case 2
      have "exact_wire op_body (op_payload 1) (\<lambda>x. op_ok x \<and> op_tag x = 1)"
        unfolding op_payload_def
      proof (simp, rule exact_wire_map [OF pair])
        fix x :: "bytes \<times> u64" and y
        assume "case x of (h, n) \<Rightarrow> length h = 32 \<and> True"
          "(case x of (h, n) \<Rightarrow> if u32_max < unat n then Inl (Bail ''wal: piece length exceeds the format's u32 limit'')
              else if n = 0 then Inl (Bail ''wal: piece length must be non-zero'') else Inr (Piece h (ucast n))) = Inr y"
        moreover obtain h n where "x = (h, n)" by (cases x)
        ultimately have y: "x = (h, n)" "y = Piece h (ucast n)" "unat n \<le> u32_max" "n \<noteq> 0" "length h = 32"
          by (auto split: if_splits)
        have e: "ucast (ucast n :: u32) = n" by (rule ucast_u32_small [OF y(3)])
        have "(ucast n :: u32) \<noteq> 0"
        proof
          assume z: "(ucast n :: u32) = 0"
          show False using e y(4) unfolding z by simp
        qed
        then show "(op_ok y \<and> op_tag y = 1) \<and> op_body y = (case x of (h, n) \<Rightarrow> h @ put_varint n)"
          using y e by (simp add: op_ok_def)
      next
        fix y
        assume "op_ok y \<and> op_tag y = 1"
        then obtain h n where y: "y = Piece h n" "length h = 32" "n \<noteq> 0" by (cases y) (auto simp: op_ok_def)
        have "unat (ucast n :: u64) \<le> u32_max" "(ucast (ucast n :: u64) :: u32) = n"
          using unat_u32_le_max [of n] by simp_all
        then show "\<exists>x. (case x of (h, n) \<Rightarrow> length h = 32 \<and> True) \<and>
          (case x of (h, n) \<Rightarrow> if u32_max < unat n then Inl (Bail ''wal: piece length exceeds the format's u32 limit'')
              else if n = 0 then Inl (Bail ''wal: piece length must be non-zero'') else Inr (Piece h (ucast n))) = Inr y \<and>
          op_body y = (case x of (h, n) \<Rightarrow> h @ put_varint n)"
          using y by (intro exI [of _ "(h, ucast n)"]) simp
      qed
      then show ?thesis by (simp only: 2)
    next
      case 3
      then have "\<not> (op_ok x \<and> op_tag x = t)" for x by (cases x) auto
      then show ?thesis using 3 by (simp add: op_payload_def exact_wire_fail)
    qed
  qed
  from exact_wire_tagged [OF this] have "exact_wire (\<lambda>x. op_tag x # op_body x) get_op op_ok" unfolding get_op_tagged .
  moreover have "(\<lambda>x. op_tag x # op_body x) = put_op"
  proof
    fix x show "op_tag x # op_body x = put_op x" by (cases x) simp_all
  qed
  ultimately show ?thesis by simp
qed

definition ops_ok :: "content_op list \<Rightarrow> bool" where
  "ops_ok xs \<longleftrightarrow> list_all op_ok xs \<and> length xs \<le> u64_max"

lemma exact_ops: "exact_wire put_ops get_ops ops_ok"
proof -
  have "put_ops = put_list put_op" "get_ops = get_list get_op"
    by (auto simp: fun_eq_iff put_ops_def put_list_def get_ops_def get_list_def)
  then show ?thesis using exact_wire_list [OF exact_op] by (simp add: ops_ok_def [abs_def])
qed

definition value_ok :: "attr_value \<Rightarrow> bool" where
  "value_ok v \<longleftrightarrow> (case v of AStr s \<Rightarrow> string_ok s | ABytes b \<Rightarrow> short b | _ \<Rightarrow> True)"

lemma exact_le64:
  assumes "\<And>w. put_value (C w) = le64 w" and "\<And>v. ok v \<longleftrightarrow> (\<exists>w. v = C w)"
  shows "exact_wire put_value (get_map (\<lambda>x. Inr (C (u64_of_le x))) (take_field 8)) ok"
proof (rule exact_wire_map [OF exact_field])
  fix y assume "ok y"
  then obtain w where "y = C w" using assms(2) by blast
  then show "\<exists>x. length x = 8 \<and> Inr (C (u64_of_le x)) = Inr y \<and> put_value y = x"
    using assms(1) by (intro exI [of _ "le64 w"]) simp
qed (use assms in \<open>auto simp: le64_u64_of_le\<close>)

lemma value_ok_tag:
  "value_ok v \<and> type_tag v = 1 \<longleftrightarrow> (\<exists>w. v = AInt w)" "value_ok v \<and> type_tag v = 2 \<longleftrightarrow> (\<exists>w. v = AFloat w)"
  "value_ok v \<and> type_tag v = 4 \<longleftrightarrow> (\<exists>w. v = AUInt w)" "value_ok v \<and> type_tag v = 6 \<longleftrightarrow> (\<exists>w. v = ATimestampNs w)"
  by (cases v; simp add: value_ok_def)+

lemma exact_value: "exact_wire put_value (get_value t) (\<lambda>v. value_ok v \<and> type_tag v = t)"
proof -
  consider "t = 0" | "t = 1" | "t = 2" | "t = 3" | "t = 4" | "t = 5" | "t = 6" | "t = 7"
    | "t \<notin> {0, 1, 2, 3, 4, 5, 6, 7}" by blast
  then show ?thesis
  proof cases
    case 1
    have "exact_wire put_value (get_map (\<lambda>s. Inr (AStr s)) get_string) (\<lambda>v. value_ok v \<and> type_tag v = 0)"
    proof (rule exact_wire_map [OF exact_string])
      fix y assume "value_ok y \<and> type_tag y = 0"
      then show "\<exists>x. string_ok x \<and> Inr (AStr x) = Inr y \<and> put_value y = put_bytes x"
        by (cases y) (auto simp: value_ok_def)
    qed (auto simp: value_ok_def)
    moreover have "get_value t = get_map (\<lambda>s. Inr (AStr s)) get_string"
      by (intro ext) (simp add: get_value_def 1 get_map_def)
    ultimately show ?thesis by (simp add: 1)
  next
    case 2
    have "get_value t = get_map (\<lambda>x. Inr (AInt (u64_of_le x))) (take_field 8)"
      by (intro ext) (simp add: get_value_def 2 get_map_def)
    then show ?thesis using exact_le64 [of AInt] value_ok_tag(1) by (simp add: 2)
  next
    case 3
    have "get_value t = get_map (\<lambda>x. Inr (AFloat (u64_of_le x))) (take_field 8)"
      by (intro ext) (simp add: get_value_def 3 get_map_def)
    then show ?thesis using exact_le64 [of AFloat] value_ok_tag(2) by (simp add: 3)
  next
    case 4
    let ?c = "\<lambda>x :: bytes. if x ! 0 = 0 then Inr (ABool False) else if x ! 0 = 1 then Inr (ABool True)
       else Inl (Bail ''wal: invalid boolean byte'')"
    have "exact_wire put_value (get_map ?c (take_field 1)) (\<lambda>v. value_ok v \<and> type_tag v = 3)"
    proof (rule exact_wire_map [OF exact_field])
      fix x y
      assume l: "length x = 1" and c: "?c x = Inr y"
      then obtain a where a: "x = [a]" by (auto simp: length_Suc_conv)
      show "(value_ok y \<and> type_tag y = 3) \<and> put_value y = x"
        using c unfolding a by (auto simp: value_ok_def split: if_splits)
    next
      fix y
      assume "value_ok y \<and> type_tag y = 3"
      then obtain p where "y = ABool p" by (cases y) simp_all
      then show "\<exists>x. length x = 1 \<and> ?c x = Inr y \<and> put_value y = x"
        by (intro exI [of _ "[if p then 1 else 0]"]) simp
    qed
    moreover have "get_value t = get_map ?c (take_field 1)"
      by (intro ext) (auto simp: get_value_def 4 get_map_def bind_res_if intro: arg_cong [where f = "bind_res _"] split: bind_res_splits)
    ultimately show ?thesis by (simp add: 4)
  next
    case 5
    have "get_value t = get_map (\<lambda>x. Inr (AUInt (u64_of_le x))) (take_field 8)"
      by (intro ext) (simp add: get_value_def 5 get_map_def)
    then show ?thesis using exact_le64 [of AUInt] value_ok_tag(3) by (simp add: 5)
  next
    case 6
    have "exact_wire put_value (get_map (\<lambda>s. Inr (ABytes s)) get_bytes) (\<lambda>v. value_ok v \<and> type_tag v = 5)"
    proof (rule exact_wire_map [OF exact_bytes])
      fix y assume "value_ok y \<and> type_tag y = 5"
      then show "\<exists>x. short x \<and> Inr (ABytes x) = Inr y \<and> put_value y = put_bytes x"
        by (cases y) (auto simp: value_ok_def)
    qed (auto simp: value_ok_def)
    moreover have "get_value t = get_map (\<lambda>s. Inr (ABytes s)) get_bytes"
      by (intro ext) (simp add: get_value_def 6 get_map_def)
    ultimately show ?thesis by (simp add: 6)
  next
    case 7
    have "get_value t = get_map (\<lambda>x. Inr (ATimestampNs (u64_of_le x))) (take_field 8)"
      by (intro ext) (simp add: get_value_def 7 get_map_def)
    then show ?thesis using exact_le64 [of ATimestampNs] value_ok_tag(4) by (simp add: 7)
  next
    case 8
    have v: "value_ok v \<and> type_tag v = 7 \<longleftrightarrow> v = ANull" for v by (cases v) (simp_all add: value_ok_def)
    have "get_value t = (\<lambda>b at. Inr (ANull, at))" by (intro ext) (simp add: get_value_def 8)
    then show ?thesis unfolding 8 v by unfold_locales auto
  next
    case 9
    then have "\<not> (value_ok v \<and> type_tag v = t)" for v by (cases v) auto
    moreover have "get_value t = (\<lambda>b at. Inl (Bail ''wal: unknown attr type tag''))"
      using 9 by (intro ext) (simp add: get_value_def)
    ultimately show ?thesis by (simp add: exact_wire_fail)
  qed
qed

definition attr_ok :: "bytes \<times> attr_value \<Rightarrow> bool" where
  "attr_ok x \<longleftrightarrow> string_ok (fst x) \<and> fst x \<noteq> [] \<and> value_ok (snd x)"

lemma exact_attr: "exact_wire (\<lambda>(k, v). put_bytes k @ type_tag v # put_value v) get_attr attr_ok"
proof -
  let ?c = "\<lambda>k :: bytes. if k = [] then Inl (Bail ''wal: attribute name must not be empty'') else Inr k"
  have key: "exact_wire put_bytes (get_map ?c get_string) (\<lambda>k. string_ok k \<and> k \<noteq> [])"
    by (rule exact_wire_map [OF exact_string]) (auto split: if_splits)
  note w = exact_wire_pair [OF key exact_wire_tagged [OF exact_value, of "Bail ''wal: truncated attr''"]]
  have g: "get_attr = get_pair (get_map ?c get_string) (get_tagged (Bail ''wal: truncated attr'') get_value)"
    by (intro ext) (auto simp: get_attr_def get_pair_def get_map_def get_tagged_def bind_res_assoc split: bind_res_splits)
  have o: "attr_ok = (\<lambda>(k, v). (string_ok k \<and> k \<noteq> []) \<and> value_ok v)" by (auto simp: attr_ok_def fun_eq_iff)
  show ?thesis unfolding g o by (rule w)
qed

lemma exact_attrs: "exact_wire put_attrs get_attrs (\<lambda>xs. list_all attr_ok xs \<and> length xs \<le> u64_max)"
proof -
  have "put_attrs = put_list (\<lambda>(k, v). put_bytes k @ type_tag v # put_value v)" "get_attrs = get_list get_attr"
    by (auto simp: fun_eq_iff put_attrs_def put_list_def get_attrs_def get_list_def)
  then show ?thesis using exact_wire_list [OF exact_attr] by simp
qed

definition novel_ok :: "(bytes \<Rightarrow> digest) \<Rightarrow> digest \<times> bytes \<Rightarrow> bool" where
  "novel_ok blake3 x \<longleftrightarrow> length (fst x) = 32 \<and> short (snd x) \<and> snd x \<noteq> [] \<and> piece_hash blake3 (snd x) = fst x"

lemma exact_novel:
  "exact_wire put_novel (get_novel blake3) (\<lambda>xs. list_all (novel_ok blake3) xs \<and> length xs \<le> u64_max)"
proof -
  let ?c = "\<lambda>(h, x). if x = [] then Inl (Bail ''wal: novel piece bytes must be non-empty'')
     else if piece_hash blake3 x \<noteq> h then Inl (Bail ''wal: novel piece bytes do not match their BLAKE3 identity'')
     else Inr (h, x)"
  have p: "exact_wire (\<lambda>(h, x). h @ put_bytes x) (get_map ?c (get_pair (take_field 32) get_bytes)) (novel_ok blake3)"
  proof (rule exact_wire_map [OF exact_wire_pair [OF exact_field exact_bytes]])
    fix y assume "novel_ok blake3 y"
    then show "\<exists>x. (case x of (h, x) \<Rightarrow> length h = 32 \<and> short x) \<and> ?c x = Inr y \<and>
        (case y of (h, x) \<Rightarrow> h @ put_bytes x) = (case x of (h, x) \<Rightarrow> h @ put_bytes x)"
      by (intro exI [of _ y]) (auto simp: novel_ok_def split: prod.splits)
  qed (auto simp: novel_ok_def split: if_splits)
  have g: "get_novel_piece blake3 = get_map ?c (get_pair (take_field 32) get_bytes)"
    by (intro ext) (auto simp: get_novel_piece_def get_pair_def get_map_def bind_res_assoc split: bind_res_splits)
  have "put_novel = put_list (\<lambda>(h, x). h @ put_bytes x)" "get_novel blake3 = get_list (get_novel_piece blake3)"
    by (auto simp: fun_eq_iff put_novel_def put_list_def get_novel_def get_list_def)
  then show ?thesis using exact_wire_list [OF p] by (simp add: g)
qed

section \<open>Contents\<close>

definition content_ok :: "content \<Rightarrow> bool" where
  "content_ok c \<longleftrightarrow> string_ok (cname c) \<and> ops_ok (cops c) \<and> (\<exists>h. cidentity c = Some h \<and> length h = 32)"

definition put_content :: "content \<Rightarrow> bytes" where
  "put_content c = put_bytes (cname c) @ (case cidentity c of Some h \<Rightarrow> h | None \<Rightarrow> []) @ put_ops (cops c)"

definition get_content :: "bytes \<Rightarrow> nat \<Rightarrow> (content \<times> nat) outcome" where
  "get_content = get_map (\<lambda>(name, h, xs). Inr (identified_content name xs h))
     (get_pair get_string (get_pair (take_field 32) get_ops))"

lemma exact_content: "exact_wire put_content get_content content_ok"
  unfolding get_content_def
proof (rule exact_wire_map [OF exact_wire_pair [OF exact_string exact_wire_pair [OF exact_field exact_ops]]])
  fix c
  assume "content_ok c"
  then obtain h where "cidentity c = Some h" "length h = 32" "string_ok (cname c)" "ops_ok (cops c)"
    by (auto simp: content_ok_def)
  then show "\<exists>x. (case x of (x, y) \<Rightarrow> string_ok x \<and> (case y of (x, y) \<Rightarrow> length x = 32 \<and> ops_ok y)) \<and>
      (case x of (name, h, xs) \<Rightarrow> Inr (identified_content name xs h)) = Inr c \<and>
      put_content c = (case x of (x, y) \<Rightarrow> put_bytes x @ (case y of (x, y) \<Rightarrow> x @ put_ops y))"
    by (intro exI [of _ "(cname c, h, cops c)"]) (simp add: identified_content_def put_content_def)
qed (auto simp: identified_content_def content_ok_def put_content_def)

text \<open>The loop reads the counted contents and checks that their names ascend.\<close>

definition ascending_from :: "bytes option \<Rightarrow> content list \<Rightarrow> bool" where
  "ascending_from previous cs \<longleftrightarrow> sorted_wrt (<) (map cname cs) \<and>
     (case previous of None \<Rightarrow> True | Some p \<Rightarrow> list_all (\<lambda>c. p < cname c) cs)"

lemma get_contents_step:
  "get_contents (Suc n) previous b at = Inr (cs, at') \<longleftrightarrow>
    (\<exists>c at1 ds. get_content b at = Inr (c, at1) \<and> cs = c # ds \<and>
       (case previous of None \<Rightarrow> True | Some p \<Rightarrow> p < cname c) \<and>
       get_contents n (Some (cname c)) b at1 = Inr (ds, at'))"
proof -
  have gc: "get_content b at = bind_res (get_bytes b at) (\<lambda>(name, at). bind_res (from_utf8 name) (\<lambda>name.
      bind_res (take_field 32 b at) (\<lambda>(h, at). bind_res (get_ops b at) (\<lambda>(xs, at).
      Inr (identified_content name xs h, at)))))"
    by (auto simp: get_content_def get_map_def get_pair_def get_string_def bind_res_assoc split: bind_res_splits)
  show ?thesis
    unfolding gc get_contents.simps
    by (cases previous; cases "get_bytes b at")
      (auto simp: bind_res_Inr_iff from_utf8_def identified_content_def not_le split: prod.splits if_splits)
qed

lemma get_contents_iff:
  "get_contents n previous b at = Inr (cs, at') \<longleftrightarrow> get_n get_content n b at = Inr (cs, at') \<and> ascending_from previous cs"
proof (induction n arbitrary: previous at cs)
  case 0
  then show ?case by (auto simp: ascending_from_def split: option.splits)
next
  case (Suc n)
  have a: "ascending_from previous (c # ds) \<longleftrightarrow>
      (case previous of None \<Rightarrow> True | Some p \<Rightarrow> p < cname c) \<and> ascending_from (Some (cname c)) ds" for c ds
    by (auto simp: ascending_from_def list_all_iff split: option.splits)
  show ?case
    unfolding get_contents_step Suc.IH
    by (auto simp: bind_res_Inr_iff a split: prod.splits)
qed

section \<open>Validation\<close>

lemma novel_map_ok:
  "is_ok (novel_map xs m) \<longleftrightarrow> distinct (map fst xs) \<and> (\<forall>h \<in> fst ` set xs. m h = None)"
proof (induction xs m rule: novel_map.induct)
  case (2 h b xs pieces)
  have "is_ok (novel_map ((h, b) # xs) pieces) \<longleftrightarrow> pieces h = None \<and> is_ok (novel_map xs (pieces(h \<mapsto> b)))" by simp
  also have "\<dots> \<longleftrightarrow> pieces h = None \<and> distinct (map fst xs) \<and> (\<forall>k \<in> fst ` set xs. (pieces(h \<mapsto> b)) k = None)"
    by (rule conj_cong [OF refl], rule 2) simp
  also have "\<dots> \<longleftrightarrow> distinct (map fst ((h, b) # xs)) \<and> (\<forall>k \<in> fst ` set ((h, b) # xs). pieces k = None)"
    by (auto split: if_splits)
  finally show ?case .
qed simp

lemma fst_mem: "(a, b) \<in> S \<Longrightarrow> a \<in> fst ` S"
  by force

lemma validate_novel_ok:
  "validate_novel blake3 hs xs = Inr () \<longleftrightarrow>
    list_all (\<lambda>(h, b). b \<noteq> [] \<and> piece_hash blake3 b = h) xs \<and> distinct (map fst xs) \<and> (\<forall>h \<in> fst ` set xs. h \<notin> hs)"
  by (induction blake3 hs xs rule: validate_novel.induct) (auto dest: fst_mem)

lemma verify_distinct: "verify_frame_local_identities blake3 r novel = Inr () \<Longrightarrow> distinct (map fst novel)"
proof -
  assume "verify_frame_local_identities blake3 r novel = Inr ()"
  then have "is_ok (novel_map novel (\<lambda>_. None))"
    by (auto simp: verify_frame_local_identities_def bind_res_Inr_iff is_ok_iff)
  then show ?thesis by (simp add: novel_map_ok)
qed

lemma put_contents_ok: "list_all content_ok cs \<Longrightarrow> put_contents cs = Inr (concat (map put_content cs))"
proof (induction cs)
  case (Cons c cs)
  then obtain h where "cidentity c = Some h" by (auto simp: content_ok_def)
  then show ?case using Cons by (simp add: put_content_def)
qed simp

text \<open>What the types of the code guarantee of a record: strings are UTF-8, digests have 32 bytes, and every
  length fits 64 bits; and what the writer establishes, that every content carries an identity.\<close>

definition wal_typed :: "trace_record \<Rightarrow> novel_pieces \<Rightarrow> bool" where
  "wal_typed r novel \<longleftrightarrow> string_ok (rid r) \<and> list_all content_ok (rcontents r) \<and> length (rcontents r) \<le> u64_max \<and>
     list_all (\<lambda>(k, v). string_ok k \<and> value_ok v) (rattrs r) \<and> length (rattrs r) \<le> u64_max \<and>
     list_all (\<lambda>(h, x). length h = 32 \<and> short x) novel \<and> length novel \<le> u64_max"

section \<open>The whole payload\<close>

type_synonym body = "bytes \<times> content list \<times> (bytes \<times> attr_value) list \<times> novel_pieces"

definition put_body :: "body \<Rightarrow> bytes" where
  "put_body = (\<lambda>(i, cs, attrs, novel). put_bytes i @ put_list put_content cs @ put_attrs attrs @ put_novel novel)"

definition get_body :: "(bytes \<Rightarrow> digest) \<Rightarrow> bytes \<Rightarrow> nat \<Rightarrow> (body \<times> nat) outcome" where
  "get_body blake3 = get_pair get_string (get_pair (get_list get_content) (get_pair get_attrs (get_novel blake3)))"

definition body_ok :: "(bytes \<Rightarrow> digest) \<Rightarrow> body \<Rightarrow> bool" where
  "body_ok blake3 = (\<lambda>(i, cs, attrs, novel). string_ok i \<and> (list_all content_ok cs \<and> length cs \<le> u64_max) \<and>
     (list_all attr_ok attrs \<and> length attrs \<le> u64_max) \<and> list_all (novel_ok blake3) novel \<and> length novel \<le> u64_max)"

lemma exact_body: "exact_wire put_body (get_body blake3) (body_ok blake3)"
  unfolding get_body_def body_ok_def put_body_def
  using exact_wire_pair [OF exact_string exact_wire_pair [OF exact_wire_list [OF exact_content]
      exact_wire_pair [OF exact_attrs exact_novel [of blake3]]]]
  by (simp add: case_prod_unfold)

lemma decode_record_body:
  "decode_record blake3 b = Inr (r, novel) \<longleftrightarrow>
    (\<exists>i cs attrs. get_body blake3 b 0 = Inr ((i, cs, attrs, novel), length b) \<and> ascending_from None cs \<and>
       new_record i cs attrs = Inr r \<and> verify_frame_local_identities blake3 r novel = Inr ())"
proof -
  have "decode_record blake3 b = Inr (r, novel) \<longleftrightarrow>
    (\<exists>i at1 n at2 cs at3 attrs at4. get_string b 0 = Inr (i, at1) \<and> get_varint b at1 = Inr (n, at2) \<and>
       get_contents (unat n) None b at2 = Inr (cs, at3) \<and> get_attrs b at3 = Inr (attrs, at4) \<and>
       get_novel blake3 b at4 = Inr (novel, length b) \<and> new_record i cs attrs = Inr r \<and>
       verify_frame_local_identities blake3 r novel = Inr ())"
    by (auto simp: decode_record_def bind_res_Inr_iff split: prod.splits if_splits)
  also have "\<dots> \<longleftrightarrow> (\<exists>i cs attrs. get_body blake3 b 0 = Inr ((i, cs, attrs, novel), length b) \<and> ascending_from None cs \<and>
       new_record i cs attrs = Inr r \<and> verify_frame_local_identities blake3 r novel = Inr ())"
    unfolding get_contents_iff
    by (auto simp: get_body_def get_pair_def get_list_def bind_res_Inr_iff split: prod.splits)
  finally show ?thesis .
qed

lemma encode_record_typed:
  assumes "wal_typed r novel"
  shows "encode_record blake3 r novel = Inr out \<longleftrightarrow>
    validate_record_for_wal blake3 r novel = Inr () \<and> out = put_body (rid r, sort_key cname (rcontents r), rattrs r, novel)"
proof -
  have "list_all content_ok (sort_key cname (rcontents r))" using assms by (simp add: wal_typed_def list_all_iff)
  from put_contents_ok [OF this] show ?thesis
    by (auto simp: encode_record_def bind_res_Inr_iff put_body_def put_list_def)
qed

lemma validate_record_ok:
  "validate_record_for_wal blake3 r novel = Inr () \<longleftrightarrow>
    contents_ok (rcontents r) \<and> rid r \<noteq> [] \<and> list_all (\<lambda>(k, _). k \<noteq> []) (rattrs r) \<and>
    list_all (\<lambda>(h, b). b \<noteq> [] \<and> piece_hash blake3 b = h) novel \<and>
    verify_frame_local_identities blake3 r novel = Inr ()"
proof -
  have "list_ex (\<lambda>(k, _). k = []) (rattrs r) \<longleftrightarrow> \<not> list_all (\<lambda>(k, _). k \<noteq> []) (rattrs r)"
    by (auto simp: list_ex_iff list_all_iff)
  then show ?thesis
    using verify_distinct [of blake3 r novel]
    by (auto simp: validate_record_for_wal_def bind_res_Inr_iff validate_novel_ok)
qed

lemma body_ok_split:
  "body_ok blake3 (rid r, rcontents r, rattrs r, novel) \<longleftrightarrow>
     wal_typed r novel \<and> list_all (\<lambda>(k, _). k \<noteq> []) (rattrs r) \<and> list_all (\<lambda>(h, b). b \<noteq> [] \<and> piece_hash blake3 b = h) novel"
  by (auto simp: body_ok_def wal_typed_def list_all_iff attr_ok_def novel_ok_def)

text \<open>A record as \<open>Record::new\<close> leaves it.\<close>

definition canonical_record :: "trace_record \<Rightarrow> bool" where
  "canonical_record r \<longleftrightarrow> sorted_wrt (<) (map cname (rcontents r))"

lemma canonical_new:
  assumes "canonical_record r"
  shows "new_record (rid r) (rcontents r) (rattrs r) = Inr r \<longleftrightarrow> rid r \<noteq> [] \<and> contents_ok (rcontents r)"
  using assms by (auto simp: new_record_Inr_iff canonical_record_def strict_sorted_iff sort_key_sorted_id)

lemma payload_exact:
  assumes "canonical_record r"
  shows "decode_record blake3 b = Inr (r, novel) \<longleftrightarrow> encode_record blake3 r novel = Inr b \<and> wal_typed r novel"
proof
  assume "decode_record blake3 b = Inr (r, novel)"
  then obtain i cs attrs where g: "get_body blake3 b 0 = Inr ((i, cs, attrs, novel), length b)"
    and n: "new_record i cs attrs = Inr r" and v: "verify_frame_local_identities blake3 r novel = Inr ()"
    and asc: "ascending_from None cs"
    unfolding decode_record_body by blast
  have w: "body_ok blake3 (i, cs, attrs, novel)" "b = put_body (i, cs, attrs, novel)"
    using exact_wire.get_whole [OF exact_body] g by blast+
  have "sort_key cname cs = cs" using asc by (simp add: ascending_from_def strict_sorted_iff sort_key_sorted_id)
  then have r: "rid r = i" "rcontents r = cs" "rattrs r = attrs" "contents_ok cs" "i \<noteq> []"
    using n by (simp_all add: new_record_Inr_iff)
  have s: "sort_key cname (rcontents r) = rcontents r" using \<open>sort_key cname cs = cs\<close> r by simp
  have ok: "body_ok blake3 (rid r, rcontents r, rattrs r, novel)" using w r by simp
  then have t: "wal_typed r novel" by (simp add: body_ok_split)
  have "validate_record_for_wal blake3 r novel = Inr ()"
    using ok [unfolded body_ok_split] v r by (simp add: validate_record_ok)
  then show "encode_record blake3 r novel = Inr b \<and> wal_typed r novel"
    using t w(2) r s by (simp add: encode_record_typed)
next
  assume e: "encode_record blake3 r novel = Inr b \<and> wal_typed r novel"
  have s: "sort_key cname (rcontents r) = rcontents r"
    using assms by (simp add: canonical_record_def strict_sorted_iff sort_key_sorted_id)
  have v: "validate_record_for_wal blake3 r novel = Inr ()" "b = put_body (rid r, rcontents r, rattrs r, novel)"
    using encode_record_typed [of r novel blake3 b, OF conjunct2 [OF e]] conjunct1 [OF e] unfolding s by simp_all
  then have "body_ok blake3 (rid r, rcontents r, rattrs r, novel)" using e by (simp add: validate_record_ok body_ok_split)
  then have "get_body blake3 b 0 = Inr ((rid r, rcontents r, rattrs r, novel), length b)"
    using exact_wire.get_whole [OF exact_body] v(2) by blast
  moreover have "ascending_from None (rcontents r)" using assms by (simp add: ascending_from_def canonical_record_def)
  moreover have "new_record (rid r) (rcontents r) (rattrs r) = Inr r"
    using canonical_new [OF assms] v(1) by (simp add: validate_record_ok)
  moreover have "verify_frame_local_identities blake3 r novel = Inr ()" using v(1) by (simp add: validate_record_ok)
  ultimately show "decode_record blake3 b = Inr (r, novel)" unfolding decode_record_body by blast
qed

lemma decoded_canonical: "decode_record blake3 b = Inr (r, novel) \<Longrightarrow> canonical_record r"
proof -
  assume "decode_record blake3 b = Inr (r, novel)"
  then obtain i cs attrs where "new_record i cs attrs = Inr r" unfolding decode_record_body by blast
  then show ?thesis using strictly_sorted_names by (auto simp: new_record_Inr_iff canonical_record_def)
qed

section \<open>What a decoded payload carries\<close>

text \<open>The bytes a program denotes, when every piece it names is at hand.\<close>

fun content_bytes :: "(digest \<Rightarrow> bytes option) \<Rightarrow> content_op list \<Rightarrow> bytes option" where
  "content_bytes pieces [] = Some []"
| "content_bytes pieces (Lit b # xs) = map_option ((@) b) (content_bytes pieces xs)"
| "content_bytes pieces (Piece h n # xs) =
    (case pieces h of None \<Rightarrow> None | Some b \<Rightarrow> map_option ((@) b) (content_bytes pieces xs))"

lemma replay_ops_bytes:
  "replay_ops pieces xs acc complete = Inr (hashed, complete') \<Longrightarrow>
    (case content_bytes pieces xs of
       Some b \<Rightarrow> complete' = complete \<and> hashed = acc @ b
     | None \<Rightarrow> \<not> complete')"
proof (induction pieces xs acc complete rule: replay_ops.induct)
  case (3 pieces h n xs hashed complete)
  have "\<not> complete'" if "replay_ops pieces ys a False = Inr (b, complete')" for ys a b
    using that by (induction pieces ys a False rule: replay_ops.induct) (auto split: option.splits if_splits)
  then show ?case using 3 by (fastforce split: option.splits if_splits)
qed (fastforce split: option.splits)+

lemma novel_map_result: "novel_map xs m = Inr m' \<Longrightarrow> m' = m ++ map_of xs"
proof (induction xs m rule: novel_map.induct)
  case (2 h b xs m)
  then have e: "m h = None" "novel_map xs (m(h \<mapsto> b)) = Inr m'" by (auto split: if_splits)
  then have "is_ok (novel_map xs (m(h \<mapsto> b)))" by simp
  then have "h \<notin> fst ` set xs" by (auto simp: novel_map_ok)
  then have "h \<notin> dom (map_of xs)" by (simp add: dom_map_of_conv_image_fst)
  then have "m(h \<mapsto> b) ++ map_of xs = (m ++ map_of xs)(h \<mapsto> b)" by (rule map_add_upd_left)
  moreover have "m' = m(h \<mapsto> b) ++ map_of xs" by (rule 2(1) [OF _ e(2)]) (simp add: e(1))
  ultimately show ?case by (auto simp: fun_eq_iff map_add_def split: option.splits)
qed simp

lemma each_ok_iff: "each_ok f xs = Inr () \<longleftrightarrow> list_all (\<lambda>x. f x = Inr ()) xs"
  by (induction xs) (auto simp: bind_res_Inr_iff)

lemma verified_contents:
  assumes "verify_frame_local_identities blake3 r novel = Inr ()"
  shows "list_all (\<lambda>c. case content_bytes (map_of novel) (cops c) of
      Some b \<Rightarrow> cidentity c = Some (blake3 b) | None \<Rightarrow> True) (rcontents r)"
proof -
  obtain m where m: "novel_map novel Map.empty = Inr m" and v: "list_all (\<lambda>c. verify_content_identity blake3 m c = Inr ()) (rcontents r)"
    using assms by (auto simp: verify_frame_local_identities_def bind_res_Inr_iff each_ok_iff)
  have "m = map_of novel" using novel_map_result [OF m] by simp
  moreover have "case content_bytes m (cops c) of Some b \<Rightarrow> cidentity c = Some (blake3 b) | None \<Rightarrow> True"
    if ok: "verify_content_identity blake3 m c = Inr ()" for c
  proof -
    obtain hashed complete where s: "replay_ops m (cops c) [] True = Inr (hashed, complete)"
      using ok by (cases "replay_ops m (cops c) [] True") (auto simp: verify_content_identity_def)
    then have "complete \<Longrightarrow> cidentity c = Some (blake3 hashed)"
      using ok by (auto simp: verify_content_identity_def bind_res_Inr_iff content_hash_def split: if_splits)
    then show ?thesis using replay_ops_bytes [OF s] by (auto split: option.splits)
  qed
  ultimately show ?thesis using v by (simp add: list_all_iff)
qed

text \<open>A record with a body of one literal and one new piece.\<close>

definition sample_record :: trace_record where
  "sample_record = \<lparr> rid = [65], rcontents = [identified_content [98] [Lit [91], Piece (replicate 32 7) 2] (replicate 32 7)],
     rattrs = [([107], AUInt 5)] \<rparr>"

definition sample_novel :: novel_pieces where
  "sample_novel = [(replicate 32 7, [1, 2])]"

lemma sample_encodes:
  "\<exists>b. encode_record (\<lambda>_. replicate 32 7) sample_record sample_novel = Inr b \<and> b ! 1 = 65 \<and>
     wal_typed sample_record sample_novel \<and> canonical_record sample_record"
proof -
  have c: "canonical_record sample_record" by (simp add: canonical_record_def sample_record_def)
  have t: "wal_typed sample_record sample_novel"
    by (simp add: wal_typed_def sample_record_def sample_novel_def string_ok_def short_def u64_max_def content_ok_def
        ops_ok_def op_ok_def value_ok_def identified_content_def)
  have "validate_record_for_wal (\<lambda>_. replicate 32 7) sample_record sample_novel = Inr ()"
    by (simp add: validate_record_ok sample_record_def sample_novel_def identified_content_def contents_ok_def
        piece_nonempty_def piece_hash_def content_hash_def verify_frame_local_identities_def verify_content_identity_def)
  then show ?thesis
    using c t encode_record_typed [OF t, of "\<lambda>_. replicate 32 7"]
    by (auto simp: put_body_def put_bytes_def sample_record_def put_varint_byte)
qed

section \<open>Properties\<close>

text \<open>C11. The payload of a record frame is exact: for a record as the constructor leaves it and typed
  pieces, the decoder yields a pair from exactly the one byte string the encoder writes for it. So an
  accepted pair survives the log, nothing the encoder refuses can be replayed, and no second spelling of a
  payload is accepted.\<close>

theorem wal_payload_exact:
  assumes "canonical_record r"
  shows "decode_record blake3 b = Inr (r, novel) \<longleftrightarrow> encode_record blake3 r novel = Inr b \<and> wal_typed r novel"
  by (rule payload_exact [OF assms])

lemma wal_payload_exact_witness:
  "\<exists>b. decode_record (\<lambda>_. replicate 32 7) b = Inr (sample_record, sample_novel) \<and> b ! 1 = 65"
  using sample_encodes wal_payload_exact [of sample_record "\<lambda>_. replicate 32 7" _ sample_novel] by blast

text \<open>C12. What a replayed payload carries has been checked: the record is as the constructor leaves it
  (contents in strictly increasing name order, valid and identified), each new piece is non-empty, is
  carried once and has the BLAKE3 identity it is filed under, and every content whose pieces all travel with
  the frame has the identity of the bytes its program denotes.\<close>

theorem replayed_payload_is_verified:
  assumes "decode_record blake3 b = Inr (r, novel)"
  shows "canonical_record r \<and> rid r \<noteq> [] \<and> contents_ok (rcontents r) \<and> distinct (map fst novel) \<and>
    list_all (\<lambda>(h, x). x \<noteq> [] \<and> blake3 x = h) novel \<and>
    list_all (\<lambda>c. case content_bytes (map_of novel) (cops c) of
      Some x \<Rightarrow> cidentity c = Some (blake3 x) | None \<Rightarrow> True) (rcontents r)"
proof -
  have c: "canonical_record r" using assms by (rule decoded_canonical)
  have "validate_record_for_wal blake3 r novel = Inr ()"
    using payload_exact [OF c, of blake3 b novel] assms encode_record_typed [of r novel blake3 b] by blast
  then have v: "contents_ok (rcontents r)" "rid r \<noteq> []"
      "list_all (\<lambda>(h, b). b \<noteq> [] \<and> piece_hash blake3 b = h) novel"
      "verify_frame_local_identities blake3 r novel = Inr ()"
    by (simp_all add: validate_record_ok)
  show ?thesis using c v verify_distinct [OF v(4)] verified_contents [OF v(4)] by (simp add: piece_hash_def)
qed

lemma replayed_payload_is_verified_witness:
  "\<exists>b. list_all (\<lambda>(h, x). x \<noteq> [] \<and> h = replicate 32 7) sample_novel \<and>
     decode_record (\<lambda>_. replicate 32 7) b = Inr (sample_record, sample_novel)"
proof -
  obtain b where "encode_record (\<lambda>_. replicate 32 7) sample_record sample_novel = Inr b"
    "wal_typed sample_record sample_novel" "canonical_record sample_record"
    using sample_encodes by blast
  then have d: "decode_record (\<lambda>_. replicate 32 7) b = Inr (sample_record, sample_novel)"
    using payload_exact by blast
  show ?thesis using replayed_payload_is_verified [OF d] d by (auto simp: list_all_iff)
qed

end
