(* ===== verification/Vfs.thy ===== *)
theory Vfs
  imports Limits ReadAt
begin

text \<open>
  The file seam (\<open>src/src/vfs.rs\<close>) as the writers use it: positioned writes, truncation to a
  length and the sync barrier, on one open file. \<open>image\<close> is what a reader of the live file sees
  and \<open>durable\<close> is what the last successful barrier made crash-proof.

  Every operation may fail. \<open>plan\<close> decides the faults to come, as the fault injection of the
  crash harness does: a failed write has written a prefix of its bytes (the loop of \<open>pwrite\<close>
  calls stopped there), a failed barrier has made nothing durable. Past the end of the plan
  everything works, so the empty plan is the run without faults.
\<close>

section \<open>Operations that may fail and change the state\<close>

type_synonym ('s, 'a) op = "'s \<Rightarrow> 'a outcome \<times> 's"

text \<open>\<open>bind_op m f\<close> is \<open>?\<close> in a method on \<open>&mut self\<close>: an error returns at once and keeps
  the state reached so far.\<close>

definition bind_op :: "('s, 'a) op \<Rightarrow> ('a \<Rightarrow> ('s, 'b) op) \<Rightarrow> ('s, 'b) op" where
  "bind_op m f s = (case m s of (Inl e, s') \<Rightarrow> (Inl e, s') | (Inr x, s') \<Rightarrow> f x s')"

text \<open>\<open>ask f\<close> computes from the state without changing it; \<open>change f\<close> is an assignment.\<close>

definition ask :: "('s \<Rightarrow> 'a outcome) \<Rightarrow> ('s, 'a) op" where
  "ask f s = (f s, s)"

definition change :: "('s \<Rightarrow> 's) \<Rightarrow> ('s, unit) op" where
  "change f s = (Inr (), f s)"

lemma bind_op_ask [simp]:
  "bind_op (ask f) g s = (case f s of Inl e \<Rightarrow> (Inl e, s) | Inr x \<Rightarrow> g x s)"
  by (simp add: bind_op_def ask_def split: sum.splits)

lemma bind_op_change [simp]: "bind_op (change f) g s = g () (f s)"
  by (simp add: bind_op_def change_def)

lemma bind_op_run:
  "m s = (r, s') \<Longrightarrow> bind_op m f s = (case r of Inl e \<Rightarrow> (Inl e, s') | Inr x \<Rightarrow> f x s')"
  by (simp add: bind_op_def)

lemma bind_op_Inr:
  "bind_op m f s = (Inr y, s') \<longleftrightarrow> (\<exists>x s1. m s = (Inr x, s1) \<and> f x s1 = (Inr y, s'))"
  by (auto simp: bind_op_def split: prod.splits sum.splits)

lemma bind_op_Inl:
  "bind_op m f s = (Inl e, s') \<longleftrightarrow>
    m s = (Inl e, s') \<or> (\<exists>x s1. m s = (Inr x, s1) \<and> f x s1 = (Inl e, s'))"
  by (auto simp: bind_op_def split: prod.splits sum.splits)

lemma ask_eq [simp]: "ask f s = (r, s') \<longleftrightarrow> r = f s \<and> s' = s"
  by (auto simp: ask_def)

lemma change_eq [simp]: "change f s = (r, s') \<longleftrightarrow> r = Inr () \<and> s' = f s"
  by (auto simp: change_def)

text \<open>An invariant that every part keeps, whether it succeeds or fails, is kept by the whole.\<close>

lemma bind_op_keeps:
  assumes "P s" and "\<And>r s'. P s \<Longrightarrow> m s = (r, s') \<Longrightarrow> P s'"
    and "\<And>x s1 r s'. P s1 \<Longrightarrow> m s = (Inr x, s1) \<Longrightarrow> f x s1 = (r, s') \<Longrightarrow> P s'"
    and "bind_op m f s = (r, s')"
  shows "P s'"
proof (cases "m s")
  case (Pair r1 s1)
  then have "P s1" using assms(1,2) by blast
  then show ?thesis using assms(3,4) Pair by (cases r1) (auto simp: bind_op_def)
qed

section \<open>One open file\<close>

datatype fault = Works | Fails nat

record disk =
  image :: bytes
  durable :: bytes
  plan :: "fault list"

definition next_fault :: "disk \<Rightarrow> fault \<times> disk" where
  "next_fault d = (case plan d of [] \<Rightarrow> (Works, d) | f # fs \<Rightarrow> (f, d\<lparr>plan := fs\<rparr>))"

text \<open>Writing past the end leaves a gap of zeros, as a sparse file reads; writing nothing changes nothing.\<close>

definition overlay :: "bytes \<Rightarrow> nat \<Rightarrow> bytes \<Rightarrow> bytes" where
  "overlay b off data = (if data = [] then b
     else take off (b @ replicate (off - length b) 0) @ data @ drop (off + length data) b)"

definition write_fails :: failure where "write_fails = ReadFault ''write failed''"
definition sync_fails :: failure where "sync_fails = ReadFault ''sync failed''"

definition vfs_write_all_at :: "bytes \<Rightarrow> nat \<Rightarrow> (disk, unit) op" where
  "vfs_write_all_at data off d =
    (case next_fault d of
       (Works, d) \<Rightarrow> (Inr (), d\<lparr>image := overlay (image d) off data\<rparr>)
     | (Fails n, d) \<Rightarrow> (Inl write_fails, d\<lparr>image := overlay (image d) off (take n data)\<rparr>))"

definition vfs_set_len :: "nat \<Rightarrow> (disk, unit) op" where
  "vfs_set_len n d =
    (case next_fault d of
       (Works, d) \<Rightarrow> (Inr (), d\<lparr>image := take n (image d @ replicate (n - length (image d)) 0)\<rparr>)
     | (Fails _, d) \<Rightarrow> (Inl write_fails, d))"

definition vfs_sync_file :: "(disk, unit) op" where
  "vfs_sync_file d =
    (case next_fault d of
       (Works, d) \<Rightarrow> (Inr (), d\<lparr>durable := image d\<rparr>)
     | (Fails _, d) \<Rightarrow> (Inl sync_fails, d))"

text \<open>A punched range reads as zeros and the file keeps its length.\<close>

definition vfs_punch_hole :: "nat \<Rightarrow> nat \<Rightarrow> (disk, unit) op" where
  "vfs_punch_hole off len d =
    (case next_fault d of
       (Works, d) \<Rightarrow> (Inr (), d\<lparr>image := take off (image d) @ replicate (min len (length (image d) - off)) 0 @
         drop (off + len) (image d)\<rparr>)
     | (Fails _, d) \<Rightarrow> (Inl write_fails, d))"

lemma overlay_Nil [simp]: "overlay b off [] = b"
  by (simp add: overlay_def)

lemma overlay_append [simp]: "overlay b (length b) data = b @ data"
  by (simp add: overlay_def)

lemma overlay_at:
  "off \<le> length b \<Longrightarrow> overlay b off data = take off b @ data @ drop (off + length data) b"
  by (simp add: overlay_def)

lemma length_overlay: "length (overlay b off data) = (if data = [] then length b else max (length b) (off + length data))"
  by (auto simp: overlay_def)

lemma overlay_inside:
  assumes "off + length data \<le> length b"
  shows "length (overlay b off data) = length b"
  using assms by (simp add: length_overlay)

lemma take_overlay: "n \<le> off \<Longrightarrow> n \<le> length b \<Longrightarrow> take n (overlay b off data) = take n b"
  by (simp add: overlay_def)

lemma next_fault_image [simp]:
  "next_fault d = (f, d') \<Longrightarrow> image d' = image d"
  "next_fault d = (f, d') \<Longrightarrow> durable d' = durable d"
  by (auto simp: next_fault_def split: list.splits)

lemma next_fault_none [simp]: "plan d = [] \<Longrightarrow> next_fault d = (Works, d)"
  by (simp add: next_fault_def)

end
