(* ===== verification/Wal.thy ===== *)
theory Wal
  imports WalRecord Vfs
begin

text \<open>
  The write-ahead log (\<open>src/src/store/wal.rs\<close>): framing, the append buffer, the acknowledgement
  barrier, truncation, and replay with its holding pen for the members of a batch. CRC-32 is the
  parameter \<open>crc\<close>; an incremental hasher is the checksum of the concatenated updates. The scratch
  buffer of the code holds no state between calls and is left out, and so is the refusal of an
  allocation.
\<close>

section \<open>Frames\<close>

definition TOMB_TAG :: byte where "TOMB_TAG = 0xD1"
definition BATCH_COMPLETE_TAG :: byte where "BATCH_COMPLETE_TAG = 0xD2"
definition BATCH_TOMB_TAG :: byte where "BATCH_TOMB_TAG = 0xD3"
definition RECORD_TAG :: byte where "RECORD_TAG = 0xD4"
definition BATCH_RECORD_TAG :: byte where "BATCH_RECORD_TAG = 0xD5"
definition WAL_HDR :: nat where "WAL_HDR = 13"
definition WAL_CRC :: nat where "WAL_CRC = 4"
definition BUF_FLUSH :: nat where "BUF_FLUSH = 2 ^ 20"

lemmas tag_defs = TOMB_TAG_def BATCH_COMPLETE_TAG_def BATCH_TOMB_TAG_def RECORD_TAG_def BATCH_RECORD_TAG_def

record wal_frame =
  ftomb :: bool
  fseq :: u64
  frecord :: trace_record
  fnovel :: novel_pieces

type_synonym framed_record = "trace_record \<times> novel_pieces \<times> bool"

definition frame_hdr :: "byte \<Rightarrow> u64 \<Rightarrow> bytes \<Rightarrow> bytes" where
  "frame_hdr tag seq payload = tag # le64 seq @ le32 (word_of_nat (length payload))"

definition frame_bytes :: "(bytes \<Rightarrow> u32) \<Rightarrow> byte \<Rightarrow> u64 \<Rightarrow> bytes \<Rightarrow> bytes" where
  "frame_bytes crc tag seq payload =
     frame_hdr tag seq payload @ payload @ le32 (crc (frame_hdr tag seq payload @ payload))"

section \<open>The handle\<close>

record wal =
  wdisk :: disk
  wfile_len :: nat
  wbuf :: bytes
  wread_limits :: read_limits
  wframe_count :: nat

record replay_state =
  rframes :: "wal_frame list"
  rphysical :: nat
  rvalid :: nat

definition admit_additional_frames :: "nat \<Rightarrow> wal \<Rightarrow> unit outcome" where
  "admit_additional_frames additional w =
     bind_res (ok_or (Bail ''WAL frame count overflow'') (checked_add (wframe_count w) additional)) (\<lambda>proposed.
     admitted (admit_wal_frames (wread_limits w) proposed))"

definition on_disk :: "(disk, 'a) op \<Rightarrow> (wal, 'a) op" where
  "on_disk m w = (case m (wdisk w) of (r, d) \<Rightarrow> (r, w\<lparr>wdisk := d\<rparr>))"

definition flush_buf :: "(wal, unit) op" where
  "flush_buf w =
    (if wbuf w = [] then (Inr (), w)
     else bind_op (on_disk (vfs_write_all_at (wbuf w) (wfile_len w))) (\<lambda>_.
       bind_op (ask (\<lambda>w. ok_or (Bail ''WAL byte length overflow'') (checked_add (wfile_len w) (length (wbuf w))))) (\<lambda>n.
       change (\<lambda>w. w\<lparr>wfile_len := n, wbuf := []\<rparr>))) w)"

definition append_frame :: "(bytes \<Rightarrow> u32) \<Rightarrow> byte \<Rightarrow> u64 \<Rightarrow> bytes \<Rightarrow> (wal, unit) op" where
  "append_frame crc tag seq payload =
     bind_op (ask (\<lambda>_. require (length payload \<le> u32_max) (Bail ''wal frame payload exceeds the u32 length field''))) (\<lambda>_.
     bind_op (ask (admit_additional_frames 1)) (\<lambda>_.
     bind_op (ask (\<lambda>_. ok_or (Bail ''WAL frame allocation length overflow'')
       (case checked_add WAL_HDR (length payload) of None \<Rightarrow> None | Some n \<Rightarrow> checked_add n WAL_CRC))) (\<lambda>frame_len.
     bind_op (ask (\<lambda>w. ok_or (Bail ''WAL buffer length overflow'') (checked_add (length (wbuf w)) frame_len))) (\<lambda>projected.
     bind_op (\<lambda>w. if wbuf w \<noteq> [] \<and> projected \<ge> BUF_FLUSH then flush_buf w else (Inr (), w)) (\<lambda>_.
     bind_op (change (\<lambda>w. w\<lparr>wbuf := wbuf w @ frame_bytes crc tag seq payload\<rparr>)) (\<lambda>_.
     bind_op (ask (\<lambda>w. ok_or (Bail ''WAL frame count overflow'') (checked_add (wframe_count w) 1))) (\<lambda>n.
     change (\<lambda>w. w\<lparr>wframe_count := n\<rparr>))))))))"

definition append_tomb :: "(bytes \<Rightarrow> u32) \<Rightarrow> u64 \<Rightarrow> bytes \<Rightarrow> (wal, unit) op" where
  "append_tomb crc seq i =
     bind_op (ask (\<lambda>_. require (i \<noteq> []) (Bail ''record id must not be empty''))) (\<lambda>_.
     append_frame crc TOMB_TAG seq i)"

definition wal_append ::
  "(bytes \<Rightarrow> u32) \<Rightarrow> (bytes \<Rightarrow> digest) \<Rightarrow> u64 \<Rightarrow> trace_record \<Rightarrow> novel_pieces \<Rightarrow> (wal, unit) op" where
  "wal_append crc blake3 seq r novel =
     bind_op (ask (\<lambda>_. encode_record blake3 r novel)) (\<lambda>payload.
     append_frame crc RECORD_TAG seq payload)"

fun validate_items :: "(bytes \<Rightarrow> digest) \<Rightarrow> framed_record list \<Rightarrow> unit outcome" where
  "validate_items blake3 [] = Inr ()"
| "validate_items blake3 ((r, novel, tomb) # items) =
    (if rid r = [] then Inl (Bail ''record id must not be empty'')
     else bind_res
       (if tomb then
          if rcontents r \<noteq> [] \<or> rattrs r \<noteq> [] \<or> novel \<noteq> [] then
            Inl (Bail ''a WAL tombstone may carry only its record id'') else Inr ()
        else validate_record_for_wal blake3 r novel) (\<lambda>_.
     validate_items blake3 items))"

fun append_members ::
  "(bytes \<Rightarrow> u32) \<Rightarrow> (bytes \<Rightarrow> digest) \<Rightarrow> u64 \<Rightarrow> framed_record list \<Rightarrow> (wal, unit) op" where
  "append_members crc blake3 seq [] = ask (\<lambda>_. Inr ())"
| "append_members crc blake3 seq ((r, novel, tomb) # items) =
     bind_op (if tomb then append_frame crc BATCH_TOMB_TAG seq (rid r)
       else bind_op (ask (\<lambda>_. encode_record blake3 r novel)) (\<lambda>payload.
         append_frame crc BATCH_RECORD_TAG seq payload)) (\<lambda>_.
     append_members crc blake3 seq items)"

definition append_batch ::
  "(bytes \<Rightarrow> u32) \<Rightarrow> (bytes \<Rightarrow> digest) \<Rightarrow> u64 \<Rightarrow> framed_record list \<Rightarrow> (wal, unit) op" where
  "append_batch crc blake3 seq items =
     bind_op (ask (\<lambda>_. require (items \<noteq> []) (Bail ''a WAL batch must contain at least one mutation''))) (\<lambda>_.
     bind_op (ask (\<lambda>_. validate_items blake3 items)) (\<lambda>_.
     bind_op (ask (\<lambda>_. ok_or (Bail ''WAL batch frame count overflow'') (checked_add (length items) 1))) (\<lambda>batch_frames.
     bind_op (ask (admit_additional_frames batch_frames)) (\<lambda>_.
     bind_op (append_members crc blake3 seq items) (\<lambda>_.
     append_frame crc BATCH_COMPLETE_TAG seq (put_varint (word_of_nat (length items))))))))"

definition wal_sync :: "(wal, unit) op" where
  "wal_sync = bind_op flush_buf (\<lambda>_. on_disk vfs_sync_file)"

definition wal_truncate :: "(wal, unit) op" where
  "wal_truncate =
     bind_op (change (\<lambda>w. w\<lparr>wbuf := []\<rparr>)) (\<lambda>_.
     bind_op (on_disk (vfs_set_len 0)) (\<lambda>_.
     bind_op (change (\<lambda>w. w\<lparr>wfile_len := 0, wframe_count := 0\<rparr>)) (\<lambda>_.
     on_disk vfs_sync_file)))"

definition wal_bytes :: "wal \<Rightarrow> nat" where
  "wal_bytes w = wfile_len w + length (wbuf w)"

section \<open>Opening\<close>

text \<open>\<open>created\<close> says that the file did not exist; its directory is then synced, which may fail.\<close>

definition wal_open_recovered :: "bool \<Rightarrow> read_limits \<Rightarrow> nat \<Rightarrow> nat \<Rightarrow> disk \<Rightarrow> wal outcome \<times> disk" where
  "wal_open_recovered created limits frames valid =
     bind_op (ask (\<lambda>_. admitted (validate_limits limits))) (\<lambda>limits.
     bind_op (ask (\<lambda>_. admitted (admit_wal_frames limits frames))) (\<lambda>_.
     bind_op (\<lambda>d. if created then (case next_fault d of (Works, d) \<Rightarrow> (Inr (), d) | (Fails _, d) \<Rightarrow> (Inl sync_fails, d))
              else (Inr (), d)) (\<lambda>_.
     bind_op (ask (\<lambda>d. require (valid \<le> length (image d)) (Bail ''WAL replay boundary runs past the file''))) (\<lambda>_.
     bind_op (\<lambda>d. if valid < length (image d)
       then bind_op (vfs_set_len valid) (\<lambda>_. vfs_sync_file) d else (Inr (), d)) (\<lambda>_.
     ask (\<lambda>d. Inr \<lparr> wdisk = d, wfile_len = valid, wbuf = [], wread_limits = limits, wframe_count = frames \<rparr>))))))"

section \<open>Replay\<close>

text \<open>The frames accepted so far, the holding pen, and where the pen began.\<close>

type_synonym replay_acc = "wal_frame list \<times> wal_frame list \<times> (nat \<times> nat) option"

definition hold :: "bool \<Rightarrow> nat \<Rightarrow> nat \<Rightarrow> wal_frame \<Rightarrow> replay_acc \<Rightarrow> replay_acc" where
  "hold in_batch off physical fr = (\<lambda>(out, pending, pending_start).
    if in_batch then (out, pending @ [fr], if pending = [] then Some (off, physical) else pending_start)
    else (out @ [fr], [], None))"

definition replay_apply ::
  "(bytes \<Rightarrow> digest) \<Rightarrow> byte \<Rightarrow> u64 \<Rightarrow> bytes \<Rightarrow> nat \<Rightarrow> nat \<Rightarrow> replay_acc \<Rightarrow> replay_acc outcome" where
  "replay_apply blake3 tag seq payload off physical acc =
    (if tag = BATCH_COMPLETE_TAG then
       bind_res (get_varint payload 0) (\<lambda>(n, at).
       if at \<noteq> length payload then Inl (Bail ''wal batch completion has trailing bytes'')
       else case acc of (out, pending, pending_start) \<Rightarrow>
         if n = 0 then Inl (Bail ''wal batch completion marker cannot name zero members'')
         else if unat n > length pending then Inl (Bail ''wal batch completion names more frames than precede it'')
         else let start = length pending - unat n in
           if list_ex (\<lambda>m. fseq m \<noteq> seq) (drop start pending) then
             Inl (Bail ''wal batch completion sequence differs from a member sequence'')
           else Inr (out @ drop start pending, [], None))
     else if tag = TOMB_TAG \<or> tag = BATCH_TOMB_TAG then
       bind_res (from_utf8 payload) (\<lambda>i.
       if i = [] then Inl (Bail ''wal tombstone id is empty'')
       else Inr (hold (tag = BATCH_TOMB_TAG) off physical
         \<lparr> ftomb = True, fseq = seq, frecord = \<lparr> rid = i, rcontents = [], rattrs = [] \<rparr>, fnovel = [] \<rparr> acc))
     else bind_res (decode_record blake3 payload) (\<lambda>(record, novel).
       Inr (hold (tag = BATCH_RECORD_TAG) off physical
         \<lparr> ftomb = False, fseq = seq, frecord = record, fnovel = novel \<rparr> acc)))"

definition known_tag :: "byte \<Rightarrow> bool" where
  "known_tag t \<longleftrightarrow> t \<in> {TOMB_TAG, BATCH_COMPLETE_TAG, BATCH_TOMB_TAG, RECORD_TAG, BATCH_RECORD_TAG}"

definition wal_frame_end :: "nat \<Rightarrow> nat \<Rightarrow> nat outcome" where
  "wal_frame_end off plen = ok_or (Bail ''WAL frame end overflows'')
    (case checked_add off WAL_HDR of None \<Rightarrow> None | Some e \<Rightarrow>
      (case checked_add e plen of None \<Rightarrow> None | Some e \<Rightarrow> checked_add e WAL_CRC))"

text \<open>An uncommitted run at the end of the log is a batch that never completed: the valid part ends
  where the pen began.\<close>

definition replay_done :: "nat \<Rightarrow> nat \<Rightarrow> replay_acc \<Rightarrow> replay_state" where
  "replay_done off physical = (\<lambda>(out, pending, pending_start).
     case pending_start of
       None \<Rightarrow> \<lparr> rframes = out, rphysical = physical, rvalid = off \<rparr>
     | Some (o', p) \<Rightarrow> \<lparr> rframes = out, rphysical = p, rvalid = o' \<rparr>)"

lemma wal_frame_end_Inr: "wal_frame_end off plen = Inr e \<longleftrightarrow> e = off + 17 + plen \<and> off + 17 + plen \<le> u64_max"
  by (auto simp: wal_frame_end_def checked_add_def WAL_HDR_def WAL_CRC_def)

function replay_loop ::
  "(bytes \<Rightarrow> u32) \<Rightarrow> (bytes \<Rightarrow> digest) \<Rightarrow> reader \<Rightarrow> nat \<Rightarrow> read_limits \<Rightarrow> nat \<Rightarrow> nat \<Rightarrow> replay_acc \<Rightarrow> replay_state outcome" where
  "replay_loop crc blake3 f len limits off physical acc =
    (if len - off < WAL_HDR + WAL_CRC then Inr (replay_done off physical acc)
     else bind_res (f off WAL_HDR) (\<lambda>hdr.
       let seq = u64_of_le (slice hdr 1 9);
           plen = unat (u32_of_le (slice hdr 9 13))
       in bind_res (wal_frame_end off plen) (\<lambda>frame_stop.
       if frame_stop > len then Inr (replay_done off physical acc)
       else
         bind_res (admitted (admit_wal_frames limits (sat_add physical 1))) (\<lambda>_.
         bind_res (admitted (admit limits ''WAL frame'' plen plen)) (\<lambda>_.
         bind_res (f (off + WAL_HDR) plen) (\<lambda>payload.
         bind_res (f (off + WAL_HDR + plen) WAL_CRC) (\<lambda>cb.
         if crc (hdr @ payload) \<noteq> u32_of_le cb then
           if frame_stop = len then Inr (replay_done off physical acc)
           else Inl (Bail ''wal frame fails its checksum with later bytes present'')
         else if \<not> known_tag (hdr ! 0) then Inl (Bail ''wal frame tag is not a type this build knows'')
         else bind_res (replay_apply blake3 (hdr ! 0) seq payload off physical acc) (\<lambda>acc.
           replay_loop crc blake3 f len limits frame_stop (physical + 1) acc))))))))"
  by pat_completeness auto
termination
  by (relation "measure (\<lambda>(_, _, _, len, _, off, _, _). len - off)")
    (auto simp: wal_frame_end_Inr WAL_HDR_def WAL_CRC_def)

declare replay_loop.simps [simp del]

text \<open>\<open>None\<close> is a log that does not exist.\<close>

definition replay_state_with_limits ::
  "(bytes \<Rightarrow> u32) \<Rightarrow> (bytes \<Rightarrow> digest) \<Rightarrow> (reader \<times> nat) option \<Rightarrow> read_limits \<Rightarrow> replay_state outcome" where
  "replay_state_with_limits crc blake3 src limits =
     bind_res (admitted (validate_limits limits)) (\<lambda>limits.
     case src of
       None \<Rightarrow> Inr \<lparr> rframes = [], rphysical = 0, rvalid = 0 \<rparr>
     | Some (f, len) \<Rightarrow> replay_loop crc blake3 f len limits 0 0 ([], [], None))"

definition replay_with_limits ::
  "(bytes \<Rightarrow> u32) \<Rightarrow> (bytes \<Rightarrow> digest) \<Rightarrow> (reader \<times> nat) option \<Rightarrow> read_limits \<Rightarrow> wal_frame list outcome" where
  "replay_with_limits crc blake3 src limits =
     bind_res (replay_state_with_limits crc blake3 src limits) (\<lambda>st. Inr (rframes st))"

definition wal_replay ::
  "(bytes \<Rightarrow> u32) \<Rightarrow> (bytes \<Rightarrow> digest) \<Rightarrow> (reader \<times> nat) option \<Rightarrow> wal_frame list outcome" where
  "wal_replay crc blake3 src = replay_with_limits crc blake3 src default_limits"

text \<open>\<open>Wal::open\<close>: the file it opens is the one it replayed.\<close>

definition wal_open :: "(bytes \<Rightarrow> u32) \<Rightarrow> (bytes \<Rightarrow> digest) \<Rightarrow> bool \<Rightarrow> disk \<Rightarrow> wal outcome \<times> disk" where
  "wal_open crc blake3 created =
     bind_op (ask (\<lambda>d. replay_state_with_limits crc blake3
       (if created then None else Some (mem_read (image d), length (image d))) default_limits)) (\<lambda>st.
     wal_open_recovered created default_limits (rphysical st) (rvalid st))"

section \<open>Frames on disk\<close>

type_synonym phys = "byte \<times> u64 \<times> bytes"

abbreviation enc :: "(bytes \<Rightarrow> u32) \<Rightarrow> phys \<Rightarrow> bytes" where
  "enc crc q \<equiv> frame_bytes crc (fst q) (fst (snd q)) (snd (snd q))"

abbreviation log_bytes :: "(bytes \<Rightarrow> u32) \<Rightarrow> phys list \<Rightarrow> bytes" where
  "log_bytes crc ps \<equiv> concat (map (enc crc) ps)"

definition fits :: "read_limits \<Rightarrow> nat \<Rightarrow> bool" where
  "fits limits n \<longleftrightarrow> n \<le> max_stored_frame_bytes limits \<and> n \<le> max_decoded_frame_bytes limits"

definition phys_ok :: "read_limits \<Rightarrow> phys \<Rightarrow> bool" where
  "phys_ok limits q \<longleftrightarrow> known_tag (fst q) \<and> length (snd (snd q)) \<le> u32_max \<and> fits limits (length (snd (snd q)))"

lemma length_frame_hdr [simp]: "length (frame_hdr t s p) = 13"
  by (simp add: frame_hdr_def)

lemma length_frame_bytes [simp]: "length (frame_bytes crc t s p) = 17 + length p"
  by (simp add: frame_bytes_def)

lemma frame_hdr_fields:
  assumes "length p \<le> u32_max"
  shows "frame_hdr t s p ! 0 = t" "u64_of_le (slice (frame_hdr t s p) 1 9) = s"
    "unat (u32_of_le (slice (frame_hdr t s p) 9 13)) = length p"
proof -
  have u: "unat (word_of_nat (length p) :: u32) = length p" using assms by (simp add: unat_of_nat u32_max_def)
  have "slice (frame_hdr t s p) 1 9 = le64 s"
    using slice_append_mid [of 1 "[t]" 9 "le64 s" "le32 (word_of_nat (length p))"] by (simp add: frame_hdr_def)
  then show "u64_of_le (slice (frame_hdr t s p) 1 9) = s" by simp
  have "slice (frame_hdr t s p) 9 13 = le32 (word_of_nat (length p))"
    using slice_append_mid [of 9 "t # le64 s" 13 "le32 (word_of_nat (length p))" "[]"] by (simp add: frame_hdr_def)
  then show "unat (u32_of_le (slice (frame_hdr t s p) 9 13)) = length p" using u by simp
qed (simp add: frame_hdr_def)

lemma mem_read_drop:
  assumes "drop off data = x @ rest" and "off \<le> length data"
  shows "mem_read data off (length x) = Inr x"
proof -
  have "length data = off + length x + length rest"
    using arg_cong [OF assms(1), of length] assms(2) by simp
  moreover have "slice data off (off + length x) = x" using assms(1) by (simp add: slice_def)
  ultimately show ?thesis by (simp add: mem_read_Inr_iff)
qed

section \<open>Replay of whole frames and of a torn one\<close>

lemma replay_frame:
  assumes d: "drop off data = enc crc q @ rest" and off: "off \<le> length data" and len: "length data \<le> u64_max"
    and ok: "phys_ok limits q" and n: "physical + 1 \<le> max_wal_frames limits" and l: "limits_ok limits"
  shows "replay_loop crc blake3 (mem_read data) (length data) limits off physical acc =
    bind_res (replay_apply blake3 (fst q) (fst (snd q)) (snd (snd q)) off physical acc)
      (\<lambda>acc. replay_loop crc blake3 (mem_read data) (length data) limits (off + 17 + length (snd (snd q))) (physical + 1) acc)"
proof -
  obtain t s p where q: "q = (t, s, p)" by (cases q) auto
  have p: "known_tag t" "length p \<le> u32_max" "fits limits (length p)" using ok by (simp_all add: phys_ok_def q)
  let ?h = "frame_hdr t s p" and ?c = "le32 (crc (frame_hdr t s p @ p))"
  have d1: "drop off data = ?h @ p @ ?c @ rest" using d by (simp add: q frame_bytes_def)
  have d2: "drop (off + 13) data = p @ ?c @ rest"
    using arg_cong [OF d1, of "drop 13"] by (simp add: add.commute)
  have d3: "drop (off + 13 + length p) data = ?c @ rest"
    using arg_cong [OF d2, of "drop (length p)"] by (simp add: add.commute)
  have L: "length data = off + 17 + length p + length rest"
    using arg_cong [OF d1, of length] off by simp
  have r1: "mem_read data off 13 = Inr ?h" using mem_read_drop [OF d1 off] by simp
  have r2: "mem_read data (off + 13) (length p) = Inr p" by (rule mem_read_drop [OF d2]) (use L in simp)
  have r3: "mem_read data (off + 13 + length p) 4 = Inr ?c" using mem_read_drop [OF d3] L by simp
  have e: "wal_frame_end off (length p) = Inr (off + 17 + length p)" using L len by (simp add: wal_frame_end_Inr)
  have s: "sat_add physical 1 \<le> max_wal_frames limits" using n l by (simp add: sat_add_def limits_ok_def)
  have a1: "admitted (admit_wal_frames limits (sat_add physical 1)) = Inr ()" using s by simp
  have a2: "admitted (admit limits ''WAL frame'' (length p) (length p)) = Inr ()" using p(3) by (simp add: fits_def)
  have nl: "\<not> length data - off < 13 + 4" "\<not> length data < off + 17 + length p" using L by simp_all
  note u = replay_loop.simps [of crc blake3 "mem_read data" "length data" limits off physical acc,
      unfolded WAL_HDR_def WAL_CRC_def if_not_P [OF nl(1)] r1 bind_res.simps Let_def frame_hdr_fields [OF p(2)]
        e if_not_P [OF nl(2)] a1 a2 r2 r3 u32_of_le_le32]
  show ?thesis using u p(1) by (simp add: q)
qed

text \<open>The meaning of a list of frames, as replay folds it.\<close>

fun apply_frames ::
  "(bytes \<Rightarrow> digest) \<Rightarrow> phys list \<Rightarrow> nat \<Rightarrow> nat \<Rightarrow> replay_acc \<Rightarrow> (nat \<times> nat \<times> replay_acc) outcome" where
  "apply_frames blake3 [] off physical acc = Inr (off, physical, acc)"
| "apply_frames blake3 ((t, s, p) # ps) off physical acc =
     bind_res (replay_apply blake3 t s p off physical acc) (\<lambda>acc.
     apply_frames blake3 ps (off + 17 + length p) (physical + 1) acc)"

lemma apply_frames_append:
  "apply_frames blake3 (ps @ qs) off physical acc =
    bind_res (apply_frames blake3 ps off physical acc) (\<lambda>(off, physical, acc). apply_frames blake3 qs off physical acc)"
  by (induction blake3 ps off physical acc rule: apply_frames.induct)
    (auto simp: bind_res_assoc intro!: bind_res_cong)

lemma replay_frames:
  assumes "drop off data = log_bytes crc ps @ rest" and "off \<le> length data" and "length data \<le> u64_max"
    and "list_all (phys_ok limits) ps" and "physical + length ps \<le> max_wal_frames limits" and "limits_ok limits"
  shows "replay_loop crc blake3 (mem_read data) (length data) limits off physical acc =
    bind_res (apply_frames blake3 ps off physical acc) (\<lambda>(off, physical, acc).
      replay_loop crc blake3 (mem_read data) (length data) limits off physical acc)"
  using assms
proof (induction ps arbitrary: off physical acc)
  case (Cons q ps)
  obtain t s p where q: "q = (t, s, p)" by (cases q) auto
  have d: "drop off data = enc crc q @ (log_bytes crc ps @ rest)" using Cons.prems(1) by simp
  have L: "length data = off + 17 + length p + length (log_bytes crc ps @ rest)"
    using arg_cong [OF d, of length] Cons.prems(2) by (simp add: q)
  have d': "drop (off + 17 + length p) data = log_bytes crc ps @ rest"
    using arg_cong [OF d, of "drop (17 + length p)"] by (simp add: q add.commute add.left_commute)
  have "replay_loop crc blake3 (mem_read data) (length data) limits (off + 17 + length p) (physical + 1) acc' =
      bind_res (apply_frames blake3 ps (off + 17 + length p) (physical + 1) acc') (\<lambda>(off, physical, acc).
        replay_loop crc blake3 (mem_read data) (length data) limits off physical acc)" for acc'
    by (rule Cons.IH [OF d']) (use L Cons.prems in simp_all)
  then show ?case
    using replay_frame [OF d Cons.prems(2,3), of limits physical blake3 acc] Cons.prems(4-6)
    by (simp add: q bind_res_assoc)
qed simp

lemma replay_torn:
  assumes d: "drop off data = take k (enc crc q)" and off: "off \<le> length data" and k: "k < length (enc crc q)"
    and fit: "off + length (enc crc q) \<le> u64_max" and p: "length (snd (snd q)) \<le> u32_max"
  shows "replay_loop crc blake3 (mem_read data) (length data) limits off physical acc = Inr (replay_done off physical acc)"
proof -
  obtain t s p where q: "q = (t, s, p)" by (cases q) auto
  have L: "length data = off + k" using arg_cong [OF d, of length] off k by simp
  show ?thesis
  proof (cases "k < 17")
    case True
    then show ?thesis using L by (subst replay_loop.simps) (simp add: WAL_HDR_def WAL_CRC_def)
  next
    case False
    have h: "drop off data = frame_hdr t s p @ take (k - 13) (p @ le32 (crc (frame_hdr t s p @ p)))"
      using d False by (simp add: q frame_bytes_def)
    have r: "mem_read data off 13 = Inr (frame_hdr t s p)" using mem_read_drop [OF h off] by simp
    have e: "wal_frame_end off (length p) = Inr (off + 17 + length p)"
      using fit by (simp add: wal_frame_end_Inr q)
    have "length data < off + 17 + length p" using L k by (simp add: q)
    then show ?thesis
      using False L p
      by (subst replay_loop.simps)
        (simp add: WAL_HDR_def WAL_CRC_def r e frame_hdr_fields q Let_def)
  qed
qed

text \<open>Where a cut falls in a log.\<close>

lemma cut_log:
  "n \<le> length (log_bytes crc ps) \<Longrightarrow>
    \<exists>k rest. k \<le> length ps \<and> take n (log_bytes crc ps) = log_bytes crc (take k ps) @ rest \<and>
      (rest = [] \<or> k < length ps \<and> (\<exists>m. m < length (enc crc (ps ! k)) \<and> rest = take m (enc crc (ps ! k))))"
proof (induction ps arbitrary: n)
  case (Cons q ps)
  show ?case
  proof (cases "n < length (enc crc q)")
    case True
    then show ?thesis by (intro exI [of _ 0] exI [of _ "take n (enc crc q)"]) auto
  next
    case False
    then have "n - length (enc crc q) \<le> length (log_bytes crc ps)" using Cons.prems by simp
    from Cons.IH [OF this] obtain k rest where k: "k \<le> length ps"
      "take (n - length (enc crc q)) (log_bytes crc ps) = log_bytes crc (take k ps) @ rest"
      "rest = [] \<or> k < length ps \<and> (\<exists>m. m < length (enc crc (ps ! k)) \<and> rest = take m (enc crc (ps ! k)))" by blast
    then show ?thesis using False by (intro exI [of _ "Suc k"] exI [of _ rest]) simp
  qed
qed simp

section \<open>What a log means\<close>

text \<open>The frame that a physical frame carries; the flag says whether its tag is an in-batch tag.\<close>

definition tomb_frame :: "u64 \<Rightarrow> bytes \<Rightarrow> wal_frame" where
  "tomb_frame s i = \<lparr> ftomb = True, fseq = s, frecord = \<lparr> rid = i, rcontents = [], rattrs = [] \<rparr>, fnovel = [] \<rparr>"

definition record_frame :: "u64 \<Rightarrow> trace_record \<Rightarrow> novel_pieces \<Rightarrow> wal_frame" where
  "record_frame s r novel = \<lparr> ftomb = False, fseq = s, frecord = r, fnovel = novel \<rparr>"

definition carries :: "(bytes \<Rightarrow> digest) \<Rightarrow> bool \<Rightarrow> phys \<Rightarrow> wal_frame \<Rightarrow> bool" where
  "carries blake3 in_batch = (\<lambda>(t, s, p) fr.
     t = (if in_batch then BATCH_TOMB_TAG else TOMB_TAG) \<and> utf8_ok p \<and> p \<noteq> [] \<and> fr = tomb_frame s p \<or>
     t = (if in_batch then BATCH_RECORD_TAG else RECORD_TAG) \<and>
       (\<exists>r novel. decode_record blake3 p = Inr (r, novel) \<and> fr = record_frame s r novel))"

text \<open>\<open>log_of ps acc pen\<close>: the physical frames \<open>ps\<close> are a log whose accepted mutations are the groups
  \<open>acc\<close> (one group per standalone frame, one per completed batch) and which ends in the unfinished
  members \<open>pen\<close>.\<close>

inductive log_of :: "(bytes \<Rightarrow> digest) \<Rightarrow> phys list \<Rightarrow> wal_frame list list \<Rightarrow> wal_frame list \<Rightarrow> bool"
  for blake3 :: "bytes \<Rightarrow> digest"
where
  start: "log_of blake3 [] [] []"
| single: "log_of blake3 ps acc pen \<Longrightarrow> carries blake3 False q fr \<Longrightarrow> log_of blake3 (ps @ [q]) (acc @ [[fr]]) []"
| member: "log_of blake3 ps acc pen \<Longrightarrow> carries blake3 True q fr \<Longrightarrow> log_of blake3 (ps @ [q]) acc (pen @ [fr])"
| marker: "log_of blake3 ps acc (pen @ ms) \<Longrightarrow> ms \<noteq> [] \<Longrightarrow> list_all (\<lambda>m. fseq m = s) ms \<Longrightarrow> length ms \<le> u64_max \<Longrightarrow>
    log_of blake3 (ps @ [(BATCH_COMPLETE_TAG, s, put_varint (word_of_nat (length ms)))]) (acc @ [ms]) []"

inductive_cases log_ofE: "log_of blake3 ps acc pen"

lemma apply_carries:
  assumes "carries blake3 in_batch (t, s, p) fr"
  shows "replay_apply blake3 t s p off physical acc = Inr (hold in_batch off physical fr acc)"
  using assms by (cases in_batch)
    (auto simp: carries_def replay_apply_def tag_defs from_utf8_def tomb_frame_def record_frame_def)

lemma apply_marker:
  assumes "ms \<noteq> []" and "list_all (\<lambda>m. fseq m = s) ms" and "length ms \<le> u64_max"
  shows "replay_apply blake3 BATCH_COMPLETE_TAG s (put_varint (word_of_nat (length ms))) off physical
      (out, pen @ ms, ps) = Inr (out @ ms, [], None)"
proof -
  let ?n = "word_of_nat (length ms) :: u64"
  have u: "unat ?n = length ms" using assms(3) by (simp add: unat_of_nat u64_max_def)
  then have z: "?n \<noteq> 0" using assms(1) by (metis length_0_conv unat_0)
  have g: "get_varint (put_varint ?n) 0 = Inr (?n, length (put_varint ?n))"
    using varint.get_put [of 0 "put_varint ?n" ?n "[]"] by simp
  have "\<not> list_ex (\<lambda>m. fseq m \<noteq> s) ms" using assms(2) by (auto simp: list_ex_iff list_all_iff)
  then show ?thesis using u z by (simp add: replay_apply_def g)
qed

text \<open>Replay of a whole log, and where its unfinished run began.\<close>

definition pen_start :: "(bytes \<Rightarrow> digest) \<Rightarrow> phys list \<Rightarrow> wal_frame list list \<Rightarrow> wal_frame list \<Rightarrow> (nat \<times> nat) option \<Rightarrow> bool" where
  "pen_start blake3 ps acc pen st \<longleftrightarrow>
    (case st of None \<Rightarrow> pen = []
     | Some (off, k) \<Rightarrow> pen \<noteq> [] \<and> k \<le> length ps \<and> log_of blake3 (take k ps) acc [] \<and>
         off = (\<Sum>q \<leftarrow> take k ps. 17 + length (snd (snd q))))"

definition log_len :: "phys list \<Rightarrow> nat" where
  "log_len ps = (\<Sum>q \<leftarrow> ps. 17 + length (snd (snd q)))"

lemma length_log_bytes: "length (log_bytes crc ps) = log_len ps"
  by (induction ps) (simp_all add: log_len_def)

lemma log_of_apply:
  "log_of blake3 ps acc pen \<Longrightarrow>
    \<exists>st. apply_frames blake3 ps 0 0 ([], [], None) = Inr (log_len ps, length ps, (concat acc, pen, st)) \<and>
      pen_start blake3 ps acc pen st"
proof (induction rule: log_of.induct)
  case start
  then show ?case by (simp add: log_len_def pen_start_def)
next
  case (single ps acc pen q fr)
  then obtain st where "apply_frames blake3 ps 0 0 ([], [], None) = Inr (log_len ps, length ps, (concat acc, pen, st))"
    by blast
  then show ?case using apply_carries [of blake3 False "fst q" "fst (snd q)" "snd (snd q)" fr] single(2)
    by (cases q) (simp add: apply_frames_append hold_def log_len_def pen_start_def)
next
  case (member ps acc pen q fr)
  then obtain st where st: "apply_frames blake3 ps 0 0 ([], [], None) = Inr (log_len ps, length ps, (concat acc, pen, st))"
    "pen_start blake3 ps acc pen st" by blast
  let ?st = "if pen = [] then Some (log_len ps, length ps) else st"
  have "pen_start blake3 (ps @ [q]) acc (pen @ [fr]) ?st"
    using st(2) member(1) by (auto simp: pen_start_def log_len_def split: option.splits)
  moreover have "apply_frames blake3 (ps @ [q]) 0 0 ([], [], None) =
      Inr (log_len (ps @ [q]), length (ps @ [q]), (concat acc, pen @ [fr], ?st))"
    using apply_carries [of blake3 True "fst q" "fst (snd q)" "snd (snd q)" fr] member(2) st(1)
    by (cases q) (simp add: apply_frames_append hold_def log_len_def)
  ultimately show ?case by blast
next
  case (marker ps acc pen ms s)
  then obtain st where "apply_frames blake3 ps 0 0 ([], [], None) = Inr (log_len ps, length ps, (concat acc, pen @ ms, st))"
    by blast
  then show ?case using apply_marker [OF marker(2-4)]
    by (simp add: apply_frames_append log_len_def pen_start_def)
qed

text \<open>A log with the part that is known durable: \<open>s\<close> frames and \<open>a\<close> groups. Every cut after that part
  is a log of at least the acknowledged groups, in order.\<close>

definition log_ok :: "(bytes \<Rightarrow> digest) \<Rightarrow> phys list \<Rightarrow> wal_frame list list \<Rightarrow> wal_frame list \<Rightarrow> nat \<Rightarrow> nat \<Rightarrow> bool" where
  "log_ok blake3 ps acc pen s a \<longleftrightarrow> log_of blake3 ps acc pen \<and> s \<le> length ps \<and> a \<le> length acc \<and>
     (\<forall>k. s \<le> k \<and> k \<le> length ps \<longrightarrow> (\<exists>j pen'. a \<le> j \<and> j \<le> length acc \<and> log_of blake3 (take k ps) (take j acc) pen'))"

lemma log_ok_log: "log_ok blake3 ps acc pen s a \<Longrightarrow> log_of blake3 ps acc pen"
  by (simp add: log_ok_def)

lemma log_ok_cut:
  assumes "log_ok blake3 ps acc pen s a" and "s \<le> k" and "k \<le> length ps"
  obtains j pen' where "a \<le> j" "j \<le> length acc" "log_of blake3 (take k ps) (take j acc) pen'"
  using assms unfolding log_ok_def by blast

lemma log_ok_whole: "log_of blake3 ps acc pen \<Longrightarrow> log_ok blake3 ps acc pen (length ps) (length acc)"
  unfolding log_ok_def by (auto intro!: exI [of _ "length acc"])

lemma log_ok_extend:
  assumes "log_ok blake3 ps acc pen s a" and "log_of blake3 (ps @ [q]) (acc @ gs) pen'"
  shows "log_ok blake3 (ps @ [q]) (acc @ gs) pen' s a"
  unfolding log_ok_def
proof (intro conjI allI impI)
  fix k assume k: "s \<le> k \<and> k \<le> length (ps @ [q])"
  show "\<exists>j pen''. a \<le> j \<and> j \<le> length (acc @ gs) \<and> log_of blake3 (take k (ps @ [q])) (take j (acc @ gs)) pen''"
  proof (cases "k \<le> length ps")
    case True
    with k obtain j pen'' where "a \<le> j" "j \<le> length acc" "log_of blake3 (take k ps) (take j acc) pen''"
      using log_ok_cut [OF assms(1), of k] by blast
    then show ?thesis using True by (intro exI [of _ j]) auto
  next
    case False
    then have "take k (ps @ [q]) = ps @ [q]" using k by simp
    then show ?thesis using assms by (intro exI [of _ "length (acc @ gs)"]) (auto simp: log_ok_def)
  qed
qed (use assms in \<open>auto simp: log_ok_def\<close>)

section \<open>What the writer has put down\<close>

text \<open>\<open>wal_log w\<close> is everything appended and not truncated: what the file holds up to the append cursor,
  then the buffer. A failed flush may have left a prefix of the buffer beyond the cursor.\<close>

definition wal_log :: "wal \<Rightarrow> bytes" where
  "wal_log w = take (wfile_len w) (image (wdisk w)) @ wbuf w"

definition file_inv :: "wal \<Rightarrow> bool" where
  "file_inv w \<longleftrightarrow> (\<exists>F m. image (wdisk w) = F @ take m (wbuf w) \<and> wfile_len w = length F)"

definition phys_inv :: "(bytes \<Rightarrow> u32) \<Rightarrow> read_limits \<Rightarrow> nat \<Rightarrow> phys list \<Rightarrow> wal \<Rightarrow> bool" where
  "phys_inv crc limits s ps w \<longleftrightarrow> file_inv w \<and> wal_log w = log_bytes crc ps \<and> s \<le> length ps \<and>
     durable (wdisk w) = log_bytes crc (take s ps) \<and> wframe_count w = length ps \<and>
     length ps \<le> max_wal_frames limits \<and> list_all (phys_ok limits) ps \<and> wread_limits w = limits \<and> limits_ok limits"

lemma flush_write:
  "overlay (F @ take m buf) (length F) (take n buf) = F @ take (max m n) buf"
proof (cases "take n buf = []")
  case True
  then show ?thesis by (auto simp: max_def)
next
  case False
  then have "overlay (F @ take m buf) (length F) (take n buf) = F @ take n buf @ drop (length (take n buf)) (take m buf)"
    by (simp add: overlay_at)
  also have "take n buf @ drop (length (take n buf)) (take m buf) = take (max m n) buf"
  proof (cases "n \<le> m")
    case True
    then have "take n buf = take n (take m buf)" by (simp add: min_def)
    then show ?thesis using True by (metis append_take_drop_id append_take_drop_id drop_all length_take linorder_le_cases max_absorb1 min.absorb2 min.commute take_all)
  next
    case False
    then show ?thesis by (simp add: max_def)
  qed
  finally show ?thesis .
qed

lemma flush_buf_keeps:
  assumes "file_inv w" and "flush_buf w = (r, w')"
  shows "file_inv w'" "wal_log w' = wal_log w" "durable (wdisk w') = durable (wdisk w)"
    "wframe_count w' = wframe_count w" "wread_limits w' = wread_limits w"
    "r = Inr () \<Longrightarrow> wbuf w' = [] \<and> image (wdisk w') = wal_log w"
proof -
  obtain F m where F: "image (wdisk w) = F @ take m (wbuf w)" "wfile_len w = length F"
    using assms(1) by (auto simp: file_inv_def)
  have log: "wal_log w = F @ wbuf w" by (simp add: wal_log_def F)
  have "file_inv w' \<and> wal_log w' = wal_log w \<and> durable (wdisk w') = durable (wdisk w) \<and>
      wframe_count w' = wframe_count w \<and> wread_limits w' = wread_limits w \<and>
      (r = Inr () \<longrightarrow> wbuf w' = [] \<and> image (wdisk w') = wal_log w)"
  proof (cases "wbuf w = []")
    case True
    then show ?thesis using assms F log by (simp add: flush_buf_def)
  next
    case False
    obtain f d where nf: "next_fault (wdisk w) = (f, d)" by (cases "next_fault (wdisk w)")
    then have d: "image d = F @ take m (wbuf w)" "durable d = durable (wdisk w)" using F by simp_all
    have whole: "overlay (image d) (length F) (wbuf w) = F @ wbuf w"
      using flush_write [of F m "wbuf w" "length (wbuf w)"] d(1) by simp
    show ?thesis
    proof (cases f)
      case Works
      then have "vfs_write_all_at (wbuf w) (wfile_len w) (wdisk w) = (Inr (), d\<lparr>image := F @ wbuf w\<rparr>)"
        using nf whole F(2) by (simp add: vfs_write_all_at_def)
      then have e: "flush_buf w =
        (case checked_add (length F) (length (wbuf w)) of
           None \<Rightarrow> (Inl (Bail ''WAL byte length overflow''), w\<lparr>wdisk := d\<lparr>image := F @ wbuf w\<rparr>\<rparr>)
         | Some n \<Rightarrow> (Inr (), w\<lparr>wdisk := d\<lparr>image := F @ wbuf w\<rparr>, wfile_len := n, wbuf := []\<rparr>))"
        using False F(2) by (simp add: flush_buf_def on_disk_def bind_op_def ask_def change_def split: option.splits)
      show ?thesis
      proof (cases "checked_add (length F) (length (wbuf w))")
        case None
        then have "w' = w\<lparr>wdisk := d\<lparr>image := F @ wbuf w\<rparr>\<rparr>" "r \<noteq> Inr ()" using e assms(2) by auto
        then show ?thesis using F d log by (auto simp: file_inv_def wal_log_def intro!: exI [of _ F] exI [of _ "length (wbuf w)"])
      next
        case (Some n)
        then have "n = length (F @ wbuf w)" by (simp add: checked_add_Some_iff)
        moreover have "w' = w\<lparr>wdisk := d\<lparr>image := F @ wbuf w\<rparr>, wfile_len := n, wbuf := []\<rparr>"
          using Some e assms(2) by auto
        ultimately show ?thesis using d log by (auto simp: file_inv_def wal_log_def)
      qed
    next
      case (Fails k)
      have "overlay (image d) (length F) (take k (wbuf w)) = F @ take (max m k) (wbuf w)"
        using flush_write [of F m "wbuf w" k] d(1) by simp
      then have "vfs_write_all_at (wbuf w) (wfile_len w) (wdisk w) = (Inl write_fails, d\<lparr>image := F @ take (max m k) (wbuf w)\<rparr>)"
        using nf F(2) Fails by (simp add: vfs_write_all_at_def)
      then have "w' = w\<lparr>wdisk := d\<lparr>image := F @ take (max m k) (wbuf w)\<rparr>\<rparr>" "r \<noteq> Inr ()"
        using False assms(2) by (auto simp: flush_buf_def on_disk_def bind_op_def)
      then show ?thesis using F d log by (auto simp: file_inv_def wal_log_def)
    qed
  qed
  then show "file_inv w'" "wal_log w' = wal_log w" "durable (wdisk w') = durable (wdisk w)"
    "wframe_count w' = wframe_count w" "wread_limits w' = wread_limits w"
    "r = Inr () \<Longrightarrow> wbuf w' = [] \<and> image (wdisk w') = wal_log w" by blast+
qed

text \<open>One more frame either is in the log or, when the call failed, is not.\<close>

lemma append_frame_step:
  assumes inv: "phys_inv crc limits s ps w" and q: "known_tag t" "fits limits (length p)"
    and run: "append_frame crc t sq p w = (r, w')"
  shows "case r of Inl _ \<Rightarrow> phys_inv crc limits s ps w'
     | Inr _ \<Rightarrow> phys_inv crc limits s (ps @ [(t, sq, p)]) w'"
proof -
  note i = inv [unfolded phys_inv_def]
  define projected where "projected = length (wbuf w) + (17 + length p)"
  define m where "m = (\<lambda>w. if wbuf w \<noteq> [] \<and> projected \<ge> BUF_FLUSH then flush_buf w else (Inr (), w))"
  obtain r1 w1 where m1: "m w = (r1, w1)" by (cases "m w")
  have k: "file_inv w1" "wal_log w1 = wal_log w" "durable (wdisk w1) = durable (wdisk w)"
      "wframe_count w1 = wframe_count w" "wread_limits w1 = wread_limits w"
    using m1 i flush_buf_keeps [of w] unfolding m_def by (auto split: if_splits)
  then have w1: "phys_inv crc limits s ps w1" using i by (simp add: phys_inv_def)
  let ?w2 = "w1\<lparr>wbuf := wbuf w1 @ frame_bytes crc t sq p, wframe_count := length ps + 1\<rparr>"
  have w2: "phys_inv crc limits s (ps @ [(t, sq, p)]) ?w2"
    if "length p \<le> u32_max" "length ps + 1 \<le> max_wal_frames limits"
  proof -
    obtain F n where F: "image (wdisk w1) = F @ take n (wbuf w1)" "wfile_len w1 = length F"
      using w1 by (auto simp: phys_inv_def file_inv_def)
    have "take n (wbuf w1) = take (min n (length (wbuf w1))) (wbuf w1 @ frame_bytes crc t sq p)" by (simp add: min_def)
    then have "file_inv ?w2" using F unfolding file_inv_def
      by (intro exI [of _ F] exI [of _ "min n (length (wbuf w1))"]) simp
    then show ?thesis using w1 that q F by (auto simp: phys_inv_def wal_log_def phys_ok_def)
  qed
  have step: "\<not> is_ok r \<and> w' = w \<or> \<not> is_ok r \<and> w' = w1 \<or>
      r = Inr () \<and> w' = ?w2 \<and> length p \<le> u32_max \<and> length ps + 1 \<le> max_wal_frames limits"
  proof (cases "length p \<le> u32_max \<and> is_ok (admit_additional_frames 1 w) \<and> projected \<le> u64_max")
    case False
    then have "\<exists>e. append_frame crc t sq p w = (Inl e, w)"
      by (cases "admit_additional_frames 1 w")
        (auto simp: append_frame_def projected_def require_def checked_add_def WAL_HDR_def WAL_CRC_def u32_max_def
          u64_max_def)
    then show ?thesis using run by auto
  next
    case True
    then have a: "admit_additional_frames 1 w = Inr ()" by (auto simp: is_ok_iff)
    then have n: "length ps + 1 \<le> max_wal_frames limits" "length ps + 1 \<le> u64_max"
      using i by (auto simp: admit_additional_frames_def bind_res_Inr_iff checked_add_Some_iff)
    have "append_frame crc t sq p w = bind_op m (\<lambda>_.
        bind_op (change (\<lambda>w. w\<lparr>wbuf := wbuf w @ frame_bytes crc t sq p\<rparr>)) (\<lambda>_.
        bind_op (ask (\<lambda>w. ok_or (Bail ''WAL frame count overflow'') (checked_add (wframe_count w) 1))) (\<lambda>n.
        change (\<lambda>w. w\<lparr>wframe_count := n\<rparr>)))) w"
      using True a by (simp add: append_frame_def m_def projected_def checked_add_def WAL_HDR_def WAL_CRC_def u32_max_def
          u64_max_def add.commute add.left_commute)
    then show ?thesis
      using run m1 n True k(4) i by (cases r1) (auto simp: bind_op_def ask_def change_def checked_add_def)
  qed
  then show ?thesis using inv w1 w2 by (cases r) auto
qed

section \<open>The log keeps its promises\<close>

datatype wal_op =
    Put u64 trace_record novel_pieces
  | Delete u64 bytes
  | Batch u64 "framed_record list"
  | Sync

fun wal_do :: "(bytes \<Rightarrow> u32) \<Rightarrow> (bytes \<Rightarrow> digest) \<Rightarrow> wal_op \<Rightarrow> (wal, unit) op" where
  "wal_do crc blake3 (Put s r novel) = wal_append crc blake3 s r novel"
| "wal_do crc blake3 (Delete s i) = append_tomb crc s i"
| "wal_do crc blake3 (Batch s items) = append_batch crc blake3 s items"
| "wal_do crc blake3 Sync = wal_sync"

definition item_frame :: "u64 \<Rightarrow> framed_record \<Rightarrow> wal_frame" where
  "item_frame s = (\<lambda>(r, novel, tomb). if tomb then tomb_frame s (rid r) else record_frame s r novel)"

fun op_frames :: "wal_op \<Rightarrow> wal_frame list list" where
  "op_frames (Put s r novel) = [[record_frame s r novel]]"
| "op_frames (Delete s i) = [[tomb_frame s i]]"
| "op_frames (Batch s items) = [map (item_frame s) items]"
| "op_frames Sync = []"

text \<open>The ghost state: the groups of the calls that returned success, and how many of them the last
  successful barrier acknowledged.\<close>

definition wal_exec ::
  "(bytes \<Rightarrow> u32) \<Rightarrow> (bytes \<Rightarrow> digest) \<Rightarrow> wal_op \<Rightarrow> wal \<times> wal_frame list list \<times> nat \<Rightarrow> wal \<times> wal_frame list list \<times> nat" where
  "wal_exec crc blake3 x = (\<lambda>(w, acc, acked).
     case wal_do crc blake3 x w of
       (Inl _, w) \<Rightarrow> (w, acc, acked)
     | (Inr _, w) \<Rightarrow> (w, acc @ op_frames x, if x = Sync then length acc else acked))"

definition wal_run ::
  "(bytes \<Rightarrow> u32) \<Rightarrow> (bytes \<Rightarrow> digest) \<Rightarrow> wal_op list \<Rightarrow> wal \<times> wal_frame list list \<times> nat \<Rightarrow> wal \<times> wal_frame list list \<times> nat" where
  "wal_run crc blake3 xs st = fold (wal_exec crc blake3) xs st"

text \<open>What the callers guarantee: records are as \<open>Record::new\<close> leaves them, strings are UTF-8, and a frame
  is within the read limits (the store admits a new frame against them before it logs it).\<close>

definition payload_fits :: "(bytes \<Rightarrow> digest) \<Rightarrow> read_limits \<Rightarrow> trace_record \<Rightarrow> novel_pieces \<Rightarrow> bool" where
  "payload_fits blake3 limits r novel \<longleftrightarrow> canonical_record r \<and> wal_typed r novel \<and>
     (case encode_record blake3 r novel of Inl _ \<Rightarrow> True | Inr p \<Rightarrow> fits limits (length p))"

definition item_ok :: "(bytes \<Rightarrow> digest) \<Rightarrow> read_limits \<Rightarrow> framed_record \<Rightarrow> bool" where
  "item_ok blake3 limits = (\<lambda>(r, novel, tomb).
     if tomb then utf8_ok (rid r) \<and> fits limits (length (rid r)) else payload_fits blake3 limits r novel)"

fun wal_op_ok :: "(bytes \<Rightarrow> digest) \<Rightarrow> read_limits \<Rightarrow> wal_op \<Rightarrow> bool" where
  "wal_op_ok blake3 limits (Put s r novel) \<longleftrightarrow> payload_fits blake3 limits r novel"
| "wal_op_ok blake3 limits (Delete s i) \<longleftrightarrow> utf8_ok i \<and> fits limits (length i)"
| "wal_op_ok blake3 limits (Batch s items) \<longleftrightarrow> list_all (item_ok blake3 limits) items"
| "wal_op_ok blake3 limits Sync \<longleftrightarrow> True"

definition wal_inv :: "(bytes \<Rightarrow> u32) \<Rightarrow> (bytes \<Rightarrow> digest) \<Rightarrow> read_limits \<Rightarrow> wal \<times> wal_frame list list \<times> nat \<Rightarrow> bool" where
  "wal_inv crc blake3 limits = (\<lambda>(w, acc, acked).
     \<exists>s ps pen. phys_inv crc limits s ps w \<and> log_ok blake3 ps acc pen s acked)"

text \<open>The same invariant with the unfinished members of a batch in view.\<close>

definition mid_inv ::
  "(bytes \<Rightarrow> u32) \<Rightarrow> (bytes \<Rightarrow> digest) \<Rightarrow> read_limits \<Rightarrow> nat \<Rightarrow> wal_frame list list \<Rightarrow> nat \<Rightarrow> wal_frame list \<Rightarrow> wal \<Rightarrow> bool" where
  "mid_inv crc blake3 limits s acc acked pen w \<longleftrightarrow>
     (\<exists>ps. phys_inv crc limits s ps w \<and> log_ok blake3 ps acc pen s acked)"

lemma append_frame_mid:
  assumes "mid_inv crc blake3 limits s acc acked pen w" and "known_tag t" and "fits limits (length p)"
    and ext: "\<And>ps. log_of blake3 ps acc pen \<Longrightarrow> log_of blake3 (ps @ [(t, sq, p)]) (acc @ gs) pen'"
    and run: "append_frame crc t sq p w = (r, w')"
  shows "case r of Inl _ \<Rightarrow> mid_inv crc blake3 limits s acc acked pen w'
     | Inr _ \<Rightarrow> mid_inv crc blake3 limits s (acc @ gs) acked pen' w'"
proof -
  obtain ps where ps: "phys_inv crc limits s ps w" "log_ok blake3 ps acc pen s acked"
    using assms(1) by (auto simp: mid_inv_def)
  have "log_ok blake3 (ps @ [(t, sq, p)]) (acc @ gs) pen' s acked"
    by (rule log_ok_extend [OF ps(2) ext [OF log_ok_log [OF ps(2)]]])
  then show ?thesis using append_frame_step [OF ps(1) assms(2,3) run] ps(2)
    by (cases r) (auto simp: mid_inv_def)
qed

lemma known_tags [simp]:
  "known_tag TOMB_TAG" "known_tag BATCH_COMPLETE_TAG" "known_tag BATCH_TOMB_TAG" "known_tag RECORD_TAG"
  "known_tag BATCH_RECORD_TAG"
  by (simp_all add: known_tag_def)

lemma carries_record:
  assumes "payload_fits blake3 limits r novel" and "encode_record blake3 r novel = Inr p"
  shows "carries blake3 b (if b then BATCH_RECORD_TAG else RECORD_TAG, s, p) (record_frame s r novel)"
    "fits limits (length p)"
  using assms payload_exact [of r blake3 p novel] by (auto simp: payload_fits_def carries_def)

lemma carries_tomb:
  "utf8_ok i \<Longrightarrow> i \<noteq> [] \<Longrightarrow> carries blake3 b (if b then BATCH_TOMB_TAG else TOMB_TAG, s, i) (tomb_frame s i)"
  by (auto simp: carries_def)

lemma append_members_step:
  assumes "mid_inv crc blake3 limits s acc acked pen w" and "list_all (item_ok blake3 limits) items"
    and "validate_items blake3 items = Inr ()" and "append_members crc blake3 sq items w = (r, w')"
  shows "(\<exists>pen'. mid_inv crc blake3 limits s acc acked pen' w') \<and>
    (r = Inr () \<longrightarrow> mid_inv crc blake3 limits s acc acked (pen @ map (item_frame sq) items) w')"
  using assms
proof (induction items arbitrary: pen w)
  case (Cons x items)
  obtain i novel tomb where x: "x = (i, novel, tomb)" by (cases x)
  have rest: "list_all (item_ok blake3 limits) items" "validate_items blake3 items = Inr ()"
    and item: "item_ok blake3 limits x" "rid i \<noteq> []"
    using Cons.prems(2,3) by (auto simp: x bind_res_Inr_iff split: if_splits)
  define m where "m = (if tomb then append_frame crc BATCH_TOMB_TAG sq (rid i)
      else bind_op (ask (\<lambda>_. encode_record blake3 i novel)) (\<lambda>payload. append_frame crc BATCH_RECORD_TAG sq payload))"
  obtain r1 w1 where m1: "m w = (r1, w1)" by (cases "m w")
  have one: "case r1 of Inl _ \<Rightarrow> mid_inv crc blake3 limits s acc acked pen w1
      | Inr _ \<Rightarrow> mid_inv crc blake3 limits s acc acked (pen @ [item_frame sq x]) w1"
  proof (cases tomb)
    case True
    have "log_of blake3 (ps @ [(BATCH_TOMB_TAG, sq, rid i)]) (acc @ []) (pen @ [tomb_frame sq (rid i)])"
      if "log_of blake3 ps acc pen" for ps
      using log_of.member [OF that, of "(BATCH_TOMB_TAG, sq, rid i)"] carries_tomb [of "rid i" blake3 True sq] item True
      by (simp add: item_ok_def x)
    from append_frame_mid [OF Cons.prems(1) _ _ this] show ?thesis
      using m1 item True by (cases r1) (simp_all add: m_def item_ok_def x item_frame_def)
  next
    case False
    then have f: "payload_fits blake3 limits i novel" using item by (simp add: item_ok_def x)
    show ?thesis
    proof (cases "encode_record blake3 i novel")
      case (Inl e)
      then show ?thesis using m1 False Cons.prems(1) by (auto simp: m_def)
    next
      case (Inr p)
      have "log_of blake3 (ps @ [(BATCH_RECORD_TAG, sq, p)]) (acc @ []) (pen @ [record_frame sq i novel])"
        if "log_of blake3 ps acc pen" for ps
        using log_of.member [OF that, of "(BATCH_RECORD_TAG, sq, p)"] carries_record(1) [OF f Inr, of True sq] by simp
      from append_frame_mid [OF Cons.prems(1) _ _ this] show ?thesis
        using m1 False carries_record(2) [OF f Inr] Inr by (cases r1) (simp_all add: m_def x item_frame_def)
    qed
  qed
  have go: "append_members crc blake3 sq (x # items) w = (case r1 of Inl e \<Rightarrow> (Inl e, w1) | Inr _ \<Rightarrow> append_members crc blake3 sq items w1)"
    using m1 by (simp add: x m_def bind_op_def split: sum.splits)
  show ?case
  proof (cases r1)
    case (Inl e)
    then show ?thesis using one go Cons.prems(4) by auto
  next
    case (Inr u)
    then have "mid_inv crc blake3 limits s acc acked (pen @ [item_frame sq x]) w1" using one by simp
    from Cons.IH [OF this rest] show ?thesis using go Inr Cons.prems(4) by auto
  qed
next
  case Nil
  then show ?case by (intro conjI exI [of _ pen]) simp_all
qed

lemma append_batch_step:
  assumes inv: "mid_inv crc blake3 limits s acc acked pen w" and ok: "list_all (item_ok blake3 limits) items"
    and f: "fits limits 10" and run: "append_batch crc blake3 sq items w = (r, w')"
  shows "\<exists>pen'. mid_inv crc blake3 limits s (if is_ok r then acc @ [map (item_frame sq) items] else acc) acked pen' w'"
proof (cases "items \<noteq> [] \<and> validate_items blake3 items = Inr () \<and> length items < u64_max \<and>
    admit_additional_frames (length items + 1) w = Inr ()")
  case False
  then have "\<exists>e. append_batch crc blake3 sq items w = (Inl e, w)"
    by (cases "validate_items blake3 items"; cases "admit_additional_frames (length items + 1) w")
      (auto simp: append_batch_def require_def checked_add_def)
  then show ?thesis using run inv by auto
next
  case True
  let ?p = "put_varint (word_of_nat (length items))"
  obtain r1 w1 where m1: "append_members crc blake3 sq items w = (r1, w1)" by (cases "append_members crc blake3 sq items w")
  note st = append_members_step [OF inv ok _ m1]
  have go: "append_batch crc blake3 sq items w =
      (case r1 of Inl e \<Rightarrow> (Inl e, w1) | Inr _ \<Rightarrow> append_frame crc BATCH_COMPLETE_TAG sq ?p w1)"
    using True bind_op_run [where m = "append_members crc blake3 sq items", OF m1] by (simp add: append_batch_def require_def checked_add_def)
  show ?thesis
  proof (cases r1)
    case (Inl e)
    then show ?thesis using st True go run by auto
  next
    case (Inr u)
    then have m: "mid_inv crc blake3 limits s acc acked (pen @ map (item_frame sq) items) w1" using st True by simp
    have seqs: "list_all (\<lambda>m. fseq m = sq) (map (item_frame sq) items)"
      by (auto simp: list_all_iff item_frame_def tomb_frame_def record_frame_def)
    have "log_of blake3 (ps @ [(BATCH_COMPLETE_TAG, sq, ?p)]) (acc @ [map (item_frame sq) items]) []"
      if "log_of blake3 ps acc (pen @ map (item_frame sq) items)" for ps
      using log_of.marker [OF that _ seqs] True by simp
    moreover have "fits limits (length ?p)"
      using f length_put_varint_le [of "word_of_nat (length items)"] by (simp add: fits_def)
    ultimately show ?thesis
      using append_frame_mid [OF m, of BATCH_COMPLETE_TAG ?p sq "[map (item_frame sq) items]" "[]" r w'] go Inr run
      by (cases r) auto
  qed
qed

lemma wal_step:
  assumes inv: "wal_inv crc blake3 limits (w, acc, acked)" and ok: "wal_op_ok blake3 limits x" and f: "fits limits 10"
  shows "wal_inv crc blake3 limits (wal_exec crc blake3 x (w, acc, acked))"
proof -
  obtain s ps pen where ps: "phys_inv crc limits s ps w" "log_ok blake3 ps acc pen s acked"
    using inv by (auto simp: wal_inv_def)
  then have m: "mid_inv crc blake3 limits s acc acked pen w" by (auto simp: mid_inv_def)
  obtain r w' where run: "wal_do crc blake3 x w = (r, w')" by (cases "wal_do crc blake3 x w")
  have ex: "wal_exec crc blake3 x (w, acc, acked) =
      (if is_ok r then (w', acc @ op_frames x, if x = Sync then length acc else acked) else (w', acc, acked))"
    by (cases r) (simp_all add: wal_exec_def run)
  have go: ?thesis
    if "\<exists>pen'. mid_inv crc blake3 limits s (if is_ok r then acc @ op_frames x else acc) acked pen' w'" "x \<noteq> Sync"
    using that by (auto simp: ex wal_inv_def mid_inv_def split: if_splits)
  show ?thesis
  proof (cases x)
    case (Put sq i novel)
    then have p: "payload_fits blake3 limits i novel" using ok by simp
    have "\<exists>pen'. mid_inv crc blake3 limits s (if is_ok r then acc @ op_frames x else acc) acked pen' w'"
    proof (cases "encode_record blake3 i novel")
      case (Inl e)
      then have "r = Inl e" "w' = w" using run Put by (simp_all add: wal_append_def)
      then show ?thesis using m by auto
    next
      case (Inr p')
      have "log_of blake3 (ps @ [(RECORD_TAG, sq, p')]) (acc @ [[record_frame sq i novel]]) []" if "log_of blake3 ps acc pen" for ps
        using log_of.single [OF that, of "(RECORD_TAG, sq, p')"] carries_record(1) [OF p Inr, of False sq] by simp
      from append_frame_mid [OF m _ carries_record(2) [OF p Inr] this, of r w'] show ?thesis
        using run Put Inr by (cases r) (auto simp: wal_append_def)
    qed
    then show ?thesis using go Put by simp
  next
    case (Delete sq i)
    have "\<exists>pen'. mid_inv crc blake3 limits s (if is_ok r then acc @ op_frames x else acc) acked pen' w'"
    proof (cases "i = []")
      case True
      then have "\<not> is_ok r" "w' = w" using run Delete by (auto simp: append_tomb_def require_def)
      then show ?thesis using m by auto
    next
      case False
      have "log_of blake3 (ps @ [(TOMB_TAG, sq, i)]) (acc @ [[tomb_frame sq i]]) []" if "log_of blake3 ps acc pen" for ps
        using log_of.single [OF that, of "(TOMB_TAG, sq, i)"] carries_tomb [of i blake3 False sq] ok Delete False by simp
      from append_frame_mid [OF m _ _ this, of r w'] show ?thesis
        using run Delete ok False by (cases r) (auto simp: append_tomb_def)
    qed
    then show ?thesis using go Delete by simp
  next
    case (Batch sq items)
    have e: "op_frames x = [map (item_frame sq) items]" by (simp add: Batch)
    have "\<exists>pen'. mid_inv crc blake3 limits s (if is_ok r then acc @ op_frames x else acc) acked pen' w'"
      unfolding e by (rule append_batch_step [OF m _ f]) (use ok run Batch in simp_all)
    then show ?thesis using go Batch by blast
  next
    case Sync
    obtain r1 w1 where f1: "flush_buf w = (r1, w1)" by (cases "flush_buf w")
    have i: "file_inv w" using ps by (simp add: phys_inv_def)
    note k = flush_buf_keeps [OF i f1]
    have w1: "phys_inv crc limits s ps w1" using ps k by (simp add: phys_inv_def)
    obtain ft d where nf: "next_fault (wdisk w1) = (ft, d)" by (cases "next_fault (wdisk w1)")
    have d: "image d = image (wdisk w1)" "durable d = durable (wdisk w1)" using nf by simp_all
    have r: "(r, w') = (case r1 of Inl e \<Rightarrow> (Inl e, w1) | Inr _ \<Rightarrow>
        (case ft of Works \<Rightarrow> (Inr (), w1\<lparr>wdisk := d\<lparr>durable := image d\<rparr>\<rparr>) | Fails _ \<Rightarrow> (Inl sync_fails, w1\<lparr>wdisk := d\<rparr>)))"
      using run Sync f1 nf
      by (auto simp: wal_sync_def bind_op_def on_disk_def vfs_sync_file_def split: sum.splits fault.splits)
    show ?thesis
    proof (cases "is_ok r")
      case False
      then have "w' = w1 \<or> w' = w1\<lparr>wdisk := d\<rparr>" using r by (auto split: sum.splits fault.splits)
      moreover have "file_inv (w1\<lparr>wdisk := d\<rparr>)" using w1 d(1) unfolding phys_inv_def file_inv_def by simp
      ultimately have "phys_inv crc limits s ps w'" using w1 d by (auto simp: phys_inv_def wal_log_def)
      then show ?thesis using False ps(2) by (auto simp: ex wal_inv_def)
    next
      case True
      then have w': "w' = w1\<lparr>wdisk := d\<lparr>durable := image d\<rparr>\<rparr>" and "r1 = Inr ()"
        using r by (auto split: sum.splits fault.splits)
      then have "image (wdisk w1) = log_bytes crc ps" using k(2,6) ps(1) by (simp add: phys_inv_def)
      then have "phys_inv crc limits (length ps) ps w'"
        using w1 d by (auto simp: w' phys_inv_def file_inv_def wal_log_def)
      moreover have "wal_exec crc blake3 x (w, acc, acked) = (w', acc, length acc)" using ex True Sync by simp
      ultimately show ?thesis using log_ok_whole [OF log_ok_log [OF ps(2)]] by (auto simp: wal_inv_def)
    qed
  qed
qed

lemma wal_run_inv:
  assumes "wal_inv crc blake3 limits st" and "list_all (wal_op_ok blake3 limits) xs" and "fits limits 10"
  shows "wal_inv crc blake3 limits (wal_run crc blake3 xs st)"
  using assms
proof (induction xs arbitrary: st)
  case (Cons x xs)
  obtain w acc acked where st: "st = (w, acc, acked)" by (cases st)
  show ?case using Cons wal_step [of crc blake3 limits w acc acked x] by (simp add: wal_run_def st)
qed (simp add: wal_run_def)

section \<open>Crashes and recovery\<close>

text \<open>A crash leaves the file with some prefix of the log that includes everything the last successful
  barrier covered.\<close>

lemma log_len_take: "k \<le> s \<Longrightarrow> s \<le> length ps \<Longrightarrow> log_len (take k ps) \<le> log_len (take s ps)"
proof -
  assume "k \<le> s" "s \<le> length ps"
  then have "take s ps = take k ps @ take (s - k) (drop k ps)" by (metis le_add_diff_inverse take_add)
  then show ?thesis by (simp add: log_len_def)
qed

lemma log_len_snoc: "k < length ps \<Longrightarrow> log_len (take (Suc k) ps) = log_len (take k ps) + 17 + length (snd (snd (ps ! k)))"
  by (simp add: take_Suc_conv_app_nth log_len_def)

lemma crash_cut:
  assumes inv: "phys_inv crc limits s ps w" "log_ok blake3 ps acc pen s acked"
    and n: "length (durable (wdisk w)) \<le> n" "n \<le> length (wal_log w)" and fit: "length (wal_log w) \<le> u64_max"
  obtains j k pen' st where "acked \<le> j" "j \<le> length acc" "k \<le> length ps" "log_of blake3 (take k ps) (take j acc) pen'"
    "pen_start blake3 (take k ps) (take j acc) pen' st" "log_len (take k ps) \<le> n"
    "take n (wal_log w) = log_bytes crc (take k ps) @ drop (log_len (take k ps)) (take n (wal_log w))"
    "replay_loop crc blake3 (mem_read (take n (wal_log w))) n limits 0 0 ([], [], None)
      = Inr (replay_done (log_len (take k ps)) k (concat (take j acc), pen', st))"
proof -
  let ?data = "take n (wal_log w)"
  have log: "wal_log w = log_bytes crc ps" and dur: "length (durable (wdisk w)) = log_len (take s ps)" and s: "s \<le> length ps"
    and ok: "list_all (phys_ok limits) ps" and cnt: "length ps \<le> max_wal_frames limits" and lim: "limits_ok limits"
    using inv(1) by (simp_all add: phys_inv_def length_log_bytes)
  obtain k rest where k: "k \<le> length ps" "?data = log_bytes crc (take k ps) @ rest"
    and rest: "rest = [] \<or> k < length ps \<and> (\<exists>m. m < length (enc crc (ps ! k)) \<and> rest = take m (enc crc (ps ! k)))"
    using cut_log [of n crc ps] n(2) unfolding log by blast
  have len: "length ?data = n" using n(2) by simp
  have nk: "n = log_len (take k ps) + length rest"
    using arg_cong [OF k(2), of length] len by (simp only: length_append length_log_bytes)
  have "s \<le> k"
  proof (rule ccontr)
    assume "\<not> s \<le> k"
    then have "log_len (take (Suc k) ps) \<le> n" using log_len_take [of "Suc k" s ps] s n(1) dur by simp
    moreover have "k < length ps" using \<open>\<not> s \<le> k\<close> s by simp
    moreover have "length rest < 17 + length (snd (snd (ps ! k)))" using rest by auto
    ultimately show False using nk by (simp add: log_len_snoc)
  qed
  then obtain j pen' where j: "acked \<le> j" "j \<le> length acc" "log_of blake3 (take k ps) (take j acc) pen'"
    using log_ok_cut [OF inv(2) _ k(1)] by blast
  obtain st where st: "apply_frames blake3 (take k ps) 0 0 ([], [], None)
      = Inr (log_len (take k ps), length (take k ps), (concat (take j acc), pen', st))"
    "pen_start blake3 (take k ps) (take j acc) pen' st" using log_of_apply [OF j(3)] by blast
  have okk: "list_all (phys_ok limits) (take k ps)" using ok by (auto simp: list_all_iff dest: in_set_takeD)
  have fitn: "length ?data \<le> u64_max" using fit len n(2) by simp
  have drop: "drop (log_len (take k ps)) ?data = rest"
    unfolding k(2) using length_log_bytes [of crc "take k ps"] by (simp del: length_concat)
  have stop: "replay_loop crc blake3 (mem_read ?data) (length ?data) limits (log_len (take k ps)) k acc'
      = Inr (replay_done (log_len (take k ps)) k acc')" for acc'
  proof (cases "rest = []")
    case True
    then have "length ?data = log_len (take k ps)" using nk len by simp
    then show ?thesis by (subst replay_loop.simps) (simp add: WAL_HDR_def)
  next
    case False
    then obtain m where m: "k < length ps" "m < length (enc crc (ps ! k))" "rest = take m (enc crc (ps ! k))" using rest by blast
    have "phys_ok limits (ps ! k)" using ok m(1) by (simp add: list_all_iff)
    then have u: "length (snd (snd (ps ! k))) \<le> u32_max" by (simp add: phys_ok_def)
    have "log_len (take (Suc k) ps) \<le> log_len (take (length ps) ps)" by (rule log_len_take) (use m in simp_all)
    then have b: "log_len (take k ps) + length (enc crc (ps ! k)) \<le> u64_max"
      using fit by (simp add: log length_log_bytes log_len_snoc [OF m(1)])
    show ?thesis by (rule replay_torn [OF _ _ m(2) b u]) (use m(3) drop nk len in simp_all)
  qed
  have lk: "length (take k ps) = k" using k(1) by simp
  have "replay_loop crc blake3 (mem_read ?data) (length ?data) limits 0 0 ([], [], None) =
      bind_res (apply_frames blake3 (take k ps) 0 0 ([], [], None)) (\<lambda>(off, physical, acc).
        replay_loop crc blake3 (mem_read ?data) (length ?data) limits off physical acc)"
    by (rule replay_frames [where rest = rest]) (use k okk cnt lim fitn in simp_all)
  also have "\<dots> = Inr (replay_done (log_len (take k ps)) k (concat (take j acc), pen', st))"
    unfolding st(1) lk by (simp add: stop del: length_take)
  finally show ?thesis
    by (intro that [OF j(1,2) k(1) j(3) st(2)]) (use nk k(2) drop len in \<open>simp_all del: length_take\<close>)
qed

definition fresh_wal :: "read_limits \<Rightarrow> fault list \<Rightarrow> wal" where
  "fresh_wal limits faults = \<lparr> wdisk = \<lparr> image = [], durable = [], plan = faults \<rparr>, wfile_len = 0, wbuf = [],
     wread_limits = limits, wframe_count = 0 \<rparr>"

lemma fresh_wal_inv: "limits_ok limits \<Longrightarrow> wal_inv crc blake3 limits (fresh_wal limits faults, [], 0)"
proof -
  assume l: "limits_ok limits"
  have "log_ok blake3 [] [] [] 0 0" by (auto simp: log_ok_def intro: log_of.start)
  moreover have "phys_inv crc limits 0 [] (fresh_wal limits faults)"
    using l by (simp add: phys_inv_def file_inv_def fresh_wal_def wal_log_def)
  ultimately show ?thesis by (auto simp: wal_inv_def)
qed

text \<open>A successful truncation starts the log again.\<close>

lemma truncate_restarts:
  assumes "wal_inv crc blake3 limits (w, acc, acked)" and "wal_truncate w = (Inr (), w')"
  shows "wal_inv crc blake3 limits (w', [], 0) \<and> image (wdisk w') = [] \<and> durable (wdisk w') = []"
proof -
  have l: "limits_ok limits" "wread_limits w = limits" using assms(1) by (auto simp: wal_inv_def phys_inv_def)
  have w': "image (wdisk w') = [] \<and> durable (wdisk w') = [] \<and> wbuf w' = [] \<and> wfile_len w' = 0 \<and> wframe_count w' = 0 \<and> wread_limits w' = limits"
    using assms(2) l(2)
    by (auto simp: wal_truncate_def bind_op_def change_def on_disk_def vfs_set_len_def vfs_sync_file_def
        split: prod.splits sum.splits fault.splits)
  then have "phys_inv crc limits 0 [] w'" using l by (simp add: phys_inv_def file_inv_def wal_log_def)
  moreover have "log_ok blake3 [] [] [] 0 0" by (auto simp: log_ok_def intro: log_of.start)
  ultimately show ?thesis using w' by (auto simp: wal_inv_def)
qed

lemma replay_after_crash:
  assumes "wal_inv crc blake3 limits (w, acc, acked)" and "length (durable (wdisk w)) \<le> n" "n \<le> length (wal_log w)"
    and "length (wal_log w) \<le> u64_max"
  obtains st j where "replay_state_with_limits crc blake3 (Some (mem_read (take n (wal_log w)), n)) limits = Inr st"
    "acked \<le> j" "j \<le> length acc" "rframes st = concat (take j acc)" "rvalid st \<le> n" "rphysical st \<le> max_wal_frames limits"
    "\<And>w'. w' = \<lparr> wdisk = \<lparr> image = take (rvalid st) (wal_log w), durable = take (rvalid st) (wal_log w), plan = [] \<rparr>,
       wfile_len = rvalid st, wbuf = [], wread_limits = limits, wframe_count = rphysical st \<rparr> \<Longrightarrow>
       wal_inv crc blake3 limits (w', take j acc, j)"
proof -
  obtain s ps pen where i: "phys_inv crc limits s ps w" "log_ok blake3 ps acc pen s acked"
    using assms(1) by (auto simp: wal_inv_def)
  obtain j k pen' start where j: "acked \<le> j" "j \<le> length acc" "k \<le> length ps" "log_of blake3 (take k ps) (take j acc) pen'"
    and st: "pen_start blake3 (take k ps) (take j acc) pen' start" and kn: "log_len (take k ps) \<le> n"
    and cut: "take n (wal_log w) = log_bytes crc (take k ps) @ drop (log_len (take k ps)) (take n (wal_log w))"
    and run: "replay_loop crc blake3 (mem_read (take n (wal_log w))) n limits 0 0 ([], [], None)
      = Inr (replay_done (log_len (take k ps)) k (concat (take j acc), pen', start))"
    by (rule crash_cut [OF i assms(2-4)])
  have lim: "limits_ok limits" "length ps \<le> max_wal_frames limits" "list_all (phys_ok limits) ps" "wal_log w = log_bytes crc ps"
    using i(1) by (simp_all add: phys_inv_def)
  define st where "st = replay_done (log_len (take k ps)) k (concat (take j acc), pen', start)"
  obtain k' where k': "k' \<le> k" "rphysical st = k'" "rvalid st = log_len (take k' ps)" "log_of blake3 (take k' ps) (take j acc) []"
  proof (cases start)
    case None
    then show ?thesis using that [of k] st j(4) by (simp add: pen_start_def st_def replay_done_def)
  next
    case (Some a)
    then have b: "snd a \<le> k" "log_of blake3 (take (snd a) ps) (take j acc) []" "fst a = log_len (take (snd a) ps)"
      using st j(3) by (auto simp: pen_start_def log_len_def min_absorb1 split: prod.splits)
    then show ?thesis using that [of "snd a"] Some by (simp add: st_def replay_done_def case_prod_beta)
  qed
  have le: "rvalid st \<le> n" using k' kn log_len_take [OF k'(1) j(3)] by simp
  have pre: "take (rvalid st) (wal_log w) = log_bytes crc (take k' ps)"
  proof -
    have "log_bytes crc ps = log_bytes crc (take k' ps) @ log_bytes crc (drop k' ps)"
      by (metis append_take_drop_id concat_append map_append)
    then show ?thesis using k' lim(4) by (simp add: length_log_bytes)
  qed
  show ?thesis
  proof (rule that [of st j])
    show "replay_state_with_limits crc blake3 (Some (mem_read (take n (wal_log w)), n)) limits = Inr st"
      using run lim(1) by (simp add: replay_state_with_limits_def st_def)
    show "rframes st = concat (take j acc)" by (simp add: st_def replay_done_def split: option.splits)
    show "rphysical st \<le> max_wal_frames limits" using k' j lim by simp
    show "wal_inv crc blake3 limits (w', take j acc, j)"
      if "w' = \<lparr> wdisk = \<lparr> image = take (rvalid st) (wal_log w), durable = take (rvalid st) (wal_log w), plan = [] \<rparr>,
       wfile_len = rvalid st, wbuf = [], wread_limits = limits, wframe_count = rphysical st \<rparr>" for w'
    proof -
      have len: "rvalid st = length (log_bytes crc (take k' ps))" by (simp only: k'(3) length_log_bytes)
      have "file_inv w'" "wal_log w' = log_bytes crc (take k' ps)" "durable (wdisk w') = log_bytes crc (take k' ps)"
        unfolding that [unfolded pre] file_inv_def wal_log_def by (simp_all add: len)
      moreover have "list_all (phys_ok limits) (take k' ps)" using lim(3) by (auto simp: list_all_iff dest: in_set_takeD)
      ultimately have "phys_inv crc limits (length (take k' ps)) (take k' ps) w'"
        using k' j lim that by (simp add: phys_inv_def)
      moreover have "log_ok blake3 (take k' ps) (take j acc) [] (length (take k' ps)) j"
        using log_ok_whole [OF k'(4)] j(2) by simp
      ultimately show ?thesis by (auto simp: wal_inv_def)
    qed
  qed (use j le in simp_all)
qed

section \<open>Properties\<close>

text \<open>A run of two deletions, the first of them acknowledged.\<close>

definition sample_ops :: "wal_op list" where
  "sample_ops = [Delete 1 [65], Sync, Delete 2 [66]]"

abbreviation "no_crc \<equiv> (\<lambda>_ :: bytes. 0 :: u32)"
abbreviation "no_hash \<equiv> (\<lambda>_ :: bytes. [] :: digest)"

definition sample_wal :: "bool \<Rightarrow> wal" where
  "sample_wal synced = (let a = frame_bytes no_crc TOMB_TAG 1 [65]; b = frame_bytes no_crc TOMB_TAG 2 [66] in
     if synced then \<lparr> wdisk = \<lparr> image = a @ b, durable = a @ b, plan = [] \<rparr>, wfile_len = 36, wbuf = [],
       wread_limits = default_limits, wframe_count = 2 \<rparr>
     else \<lparr> wdisk = \<lparr> image = a, durable = a, plan = [] \<rparr>, wfile_len = 18, wbuf = b,
       wread_limits = default_limits, wframe_count = 2 \<rparr>)"

lemma frames_not_empty [simp]: "frame_bytes crc t s p \<noteq> []"
  by (simp add: frame_bytes_def frame_hdr_def)

lemma sample_run:
  "wal_run no_crc no_hash sample_ops (fresh_wal default_limits [], [], 0) =
     (sample_wal False, [[tomb_frame 1 [65]], [tomb_frame 2 [66]]], 1)"
  by (simp add: sample_ops_def wal_run_def wal_exec_def append_tomb_def append_frame_def admit_additional_frames_def
      fresh_wal_def checked_add_def u64_max_def u32_max_def admit_wal_frames_def admit_objects_def default_limits_def
      default_max_wal_frames_def WAL_HDR_def WAL_CRC_def BUF_FLUSH_def wal_sync_def flush_buf_def on_disk_def
      vfs_write_all_at_def vfs_sync_file_def bind_op_def ask_def change_def require_def sample_wal_def Let_def overlay_def)

lemma sample_sync: "wal_do no_crc no_hash Sync (sample_wal False) = (Inr (), sample_wal True)"
  by (simp add: wal_sync_def flush_buf_def on_disk_def vfs_write_all_at_def vfs_sync_file_def bind_op_def ask_def
      change_def sample_wal_def Let_def overlay_def checked_add_def u64_max_def)

lemma sample_ops_ok: "list_all (wal_op_ok no_hash default_limits) sample_ops" "fits default_limits 10"
  by (simp_all add: sample_ops_def fits_def default_limits_def default_max_stored_frame_bytes_def
      default_max_decoded_frame_bytes_def)

lemma sample_log: "length (wal_log (sample_wal b)) = 36" "length (durable (wdisk (sample_wal False))) = 18"
  by (simp_all add: wal_log_def sample_wal_def Let_def)

text \<open>C5. Nothing acknowledged is lost, nothing torn is half-applied. Take any sequence of records,
  deletions, batches and barriers on a new log, with any of the writes and barriers failing at any point,
  and a crash that leaves the file with any prefix of the log that includes what the last successful
  barrier made durable. Replay then succeeds and yields, in order, exactly the mutations of some first
  calls among those that reported success: at least every call the barrier acknowledged, each batch whole
  or not at all, and nothing of a call that failed.\<close>

theorem acknowledged_mutations_survive:
  assumes "limits_ok limits" and "fits limits 10" and "list_all (wal_op_ok blake3 limits) xs"
    and "wal_run crc blake3 xs (fresh_wal limits faults, [], 0) = (w, acc, acked)"
    and "length (durable (wdisk w)) \<le> n" and "n \<le> length (wal_log w)" and "length (wal_log w) \<le> u64_max"
  shows "case replay_with_limits crc blake3 (Some (mem_read (take n (wal_log w)), n)) limits of
      Inl _ \<Rightarrow> False
    | Inr frames \<Rightarrow> \<exists>j. acked \<le> j \<and> j \<le> length acc \<and> frames = concat (take j acc)"
proof -
  have "wal_inv crc blake3 limits (w, acc, acked)"
    using wal_run_inv [OF fresh_wal_inv [OF assms(1)] assms(3,2)] assms(4) by metis
  then show ?thesis by (rule replay_after_crash [OF _ assms(5-7)]) (auto simp: replay_with_limits_def)
qed

lemma acknowledged_mutations_survive_witness:
  "case wal_run no_crc no_hash sample_ops (fresh_wal default_limits [], [], 0) of (w, acc, acked) \<Rightarrow>
     acked = 1 \<and> length acc = 2 \<and>
     (case replay_with_limits no_crc no_hash (Some (mem_read (take 20 (wal_log w)), 20)) default_limits of
        Inl _ \<Rightarrow> False | Inr frames \<Rightarrow> \<exists>j. 1 \<le> j \<and> j \<le> 2 \<and> frames = concat (take j acc))"
  using acknowledged_mutations_survive [OF limits_ok_default sample_ops_ok(2,1) sample_run, of 20]
  by (auto simp: sample_run sample_log u64_max_def split: sum.splits)

text \<open>C6. A successful barrier acknowledges everything accepted so far: after it the file is the whole
  log, and replaying it yields exactly the mutations of the calls that reported success, in order,
  whatever failed before.\<close>

theorem synced_log_replays_exactly:
  assumes "limits_ok limits" and "fits limits 10" and "list_all (wal_op_ok blake3 limits) xs"
    and "wal_run crc blake3 xs (fresh_wal limits faults, [], 0) = (w, acc, acked)"
    and "wal_do crc blake3 Sync w = (Inr (), w')" and "length (image (wdisk w')) \<le> u64_max"
  shows "wal_bytes w' = length (image (wdisk w')) \<and> durable (wdisk w') = image (wdisk w') \<and>
    replay_with_limits crc blake3 (Some (mem_read (image (wdisk w')), wal_bytes w')) limits = Inr (concat acc)"
proof -
  have i: "wal_inv crc blake3 limits (w, acc, acked)"
    using wal_run_inv [OF fresh_wal_inv [OF assms(1)] assms(3,2)] assms(4) by metis
  then have f: "file_inv w" by (auto simp: wal_inv_def phys_inv_def)
  have i': "wal_inv crc blake3 limits (w', acc, length acc)"
    using wal_step [OF i _ assms(2), of Sync] assms(5) by (simp add: wal_exec_def)
  obtain w1 d where w1: "flush_buf w = (Inr (), w1)" "next_fault (wdisk w1) = (Works, d)" "w' = w1\<lparr>wdisk := d\<lparr>durable := image d\<rparr>\<rparr>"
    using assms(5) by (auto simp: wal_sync_def bind_op_Inr on_disk_def vfs_sync_file_def split: prod.splits fault.splits)
  have b: "wbuf w' = []" "durable (wdisk w') = image (wdisk w')" using flush_buf_keeps(6) [OF f w1(1)] w1(3) by simp_all
  have "file_inv w'" using i' by (auto simp: wal_inv_def phys_inv_def)
  then have l: "wfile_len w' = length (image (wdisk w'))" using b by (auto simp: file_inv_def)
  then have log: "wal_log w' = image (wdisk w')" using b by (simp add: wal_log_def)
  show ?thesis
  proof (rule replay_after_crash [OF i', of "length (image (wdisk w'))"])
    fix st j
    assume "replay_state_with_limits crc blake3
        (Some (mem_read (take (length (image (wdisk w'))) (wal_log w')), length (image (wdisk w')))) limits = Inr st"
      and "length acc \<le> j" "rframes st = concat (take j acc)"
    then show ?thesis using b l log by (simp add: wal_bytes_def replay_with_limits_def)
  qed (use assms(6) b(2) log in simp_all)
qed

lemma synced_log_replays_exactly_witness:
  "replay_with_limits no_crc no_hash (Some (mem_read (image (wdisk (sample_wal True))), wal_bytes (sample_wal True))) default_limits
     = Inr [tomb_frame 1 [65], tomb_frame 2 [66]]"
proof -
  have "length (image (wdisk (sample_wal True))) = 36" by (simp add: sample_wal_def Let_def)
  then have "length (image (wdisk (sample_wal True))) \<le> u64_max" by (simp add: u64_max_def)
  from synced_log_replays_exactly [OF limits_ok_default sample_ops_ok(2,1) sample_run sample_sync this]
  show ?thesis by (metis concat.simps append_Cons append_Nil)
qed

text \<open>C7. Recovery resumes the log. After any run with any faults and a crash, opening the log at the
  boundary replay reports succeeds, cuts the torn tail and the unfinished batch off the file, and leaves a
  handle whose log is exactly what was replayed: the invariant that carries the promises of the log holds
  again, with everything replayed already durable.\<close>

theorem recovery_resumes_the_log:
  assumes "limits_ok limits" and "fits limits 10" and "list_all (wal_op_ok blake3 limits) xs"
    and "wal_run crc blake3 xs (fresh_wal limits faults, [], 0) = (w, acc, acked)"
    and "length (durable (wdisk w)) \<le> n" and "n \<le> length (wal_log w)" and "length (wal_log w) \<le> u64_max"
    and "replay_state_with_limits crc blake3 (Some (mem_read (take n (wal_log w)), n)) limits = Inr st"
    and "wal_open_recovered False limits (rphysical st) (rvalid st)
      \<lparr> image = take n (wal_log w), durable = take n (wal_log w), plan = [] \<rparr> = (res, d)"
  shows "\<exists>w' j. res = Inr w' \<and> acked \<le> j \<and> j \<le> length acc \<and> rframes st = concat (take j acc) \<and>
    wal_log w' = take (rvalid st) (wal_log w) \<and> wal_inv crc blake3 limits (w', take j acc, j)"
proof -
  have "wal_inv crc blake3 limits (w, acc, acked)"
    using wal_run_inv [OF fresh_wal_inv [OF assms(1)] assms(3,2)] assms(4) by metis
  from replay_after_crash [OF this assms(5-7)] obtain j where
    j: "acked \<le> j" "j \<le> length acc" "rframes st = concat (take j acc)" "rvalid st \<le> n" "rphysical st \<le> max_wal_frames limits"
    "\<And>w'. w' = \<lparr> wdisk = \<lparr> image = take (rvalid st) (wal_log w), durable = take (rvalid st) (wal_log w), plan = [] \<rparr>,
       wfile_len = rvalid st, wbuf = [], wread_limits = limits, wframe_count = rphysical st \<rparr> \<Longrightarrow>
       wal_inv crc blake3 limits (w', take j acc, j)"
    using assms(8) by (metis sum.inject(2))
  let ?w = "\<lparr> wdisk = \<lparr> image = take (rvalid st) (wal_log w), durable = take (rvalid st) (wal_log w), plan = [] \<rparr>,
       wfile_len = rvalid st, wbuf = [], wread_limits = limits, wframe_count = rphysical st \<rparr>"
  have "length (take n (wal_log w)) = n" using assms(6) by simp
  then have "res = Inr ?w"
    using assms(1,9) j(4,5)
    by (auto simp: wal_open_recovered_def bind_op_def ask_def vfs_set_len_def vfs_sync_file_def require_def
        admit_wal_frames_def admit_objects_def min_absorb1 split: if_splits)
  moreover have "wal_log ?w = take (rvalid st) (wal_log w)" by (simp add: wal_log_def [of ?w])
  ultimately show ?thesis using j by blast
qed

lemma recovery_resumes_the_log_witness:
  "\<exists>st w' d. replay_state_with_limits no_crc no_hash (Some (mem_read (take 20 (wal_log (sample_wal False))), 20)) default_limits = Inr st \<and>
     wal_open_recovered False default_limits (rphysical st) (rvalid st)
       \<lparr> image = take 20 (wal_log (sample_wal False)), durable = take 20 (wal_log (sample_wal False)), plan = [] \<rparr> = (Inr w', d) \<and>
     (\<exists>j. 1 \<le> j \<and> rframes st = concat (take j [[tomb_frame 1 [65]], [tomb_frame 2 [66]]]))"
proof -
  have i: "wal_inv no_crc no_hash default_limits (sample_wal False, [[tomb_frame 1 [65]], [tomb_frame 2 [66]]], 1)"
    using wal_run_inv [OF fresh_wal_inv [OF limits_ok_default] sample_ops_ok] sample_run by metis
  obtain st where st: "replay_state_with_limits no_crc no_hash
      (Some (mem_read (take 20 (wal_log (sample_wal False))), 20)) default_limits = Inr st"
    by (rule replay_after_crash [OF i, of 20]) (simp_all add: sample_log u64_max_def)
  obtain res d where res: "wal_open_recovered False default_limits (rphysical st) (rvalid st)
       \<lparr> image = take 20 (wal_log (sample_wal False)), durable = take 20 (wal_log (sample_wal False)), plan = [] \<rparr> = (res, d)"
    by (cases "wal_open_recovered False default_limits (rphysical st) (rvalid st)
       \<lparr> image = take 20 (wal_log (sample_wal False)), durable = take 20 (wal_log (sample_wal False)), plan = [] \<rparr>")
  have "\<exists>w' j. res = Inr w' \<and> 1 \<le> j \<and> rframes st = concat (take j [[tomb_frame 1 [65]], [tomb_frame 2 [66]]])"
    using recovery_resumes_the_log [OF limits_ok_default sample_ops_ok(2,1) sample_run _ _ _ st res]
    by (auto simp: sample_log u64_max_def)
  then show ?thesis using st res by blast
qed

end
