(* ===== verification/BTree.thy ===== *)
theory BTree
  imports Prelude "HOL-Library.List_Lexorder"
begin

text \<open>
  \<open>BTreeMap\<close> of the standard library, as the container uses it: the entries in strictly increasing
  key order, which is the order the code iterates and writes them in. The locale \<open>ordered_map\<close> is
  the contract, an interpretation discharges it for the list of entries.
\<close>

fun bt_insert :: "'k :: linorder \<Rightarrow> 'v \<Rightarrow> ('k \<times> 'v) list \<Rightarrow> ('k \<times> 'v) list" where
  "bt_insert k v [] = [(k, v)]"
| "bt_insert k v ((a, b) # xs) =
    (if k < a then (k, v) # (a, b) # xs
     else if k = a then (k, v) # xs
     else (a, b) # bt_insert k v xs)"

definition bt_remove :: "'k \<Rightarrow> ('k \<times> 'v) list \<Rightarrow> ('k \<times> 'v) list" where
  "bt_remove k xs = filter (\<lambda>(a, _). a \<noteq> k) xs"

definition bt_ok :: "('k :: linorder \<times> 'v) list \<Rightarrow> bool" where
  "bt_ok xs \<longleftrightarrow> sorted_wrt (<) (map fst xs)"

locale ordered_map =
  fixes empty :: 'm
    and lookup :: "'m \<Rightarrow> 'k \<Rightarrow> 'v option"
    and insert :: "'k \<Rightarrow> 'v \<Rightarrow> 'm \<Rightarrow> 'm"
    and remove :: "'k \<Rightarrow> 'm \<Rightarrow> 'm"
    and ok :: "'m \<Rightarrow> bool"
  assumes ok_empty: "ok empty"
    and ok_insert: "ok m \<Longrightarrow> ok (insert k v m)"
    and ok_remove: "ok m \<Longrightarrow> ok (remove k m)"
    and lookup_empty: "lookup empty k = None"
    and lookup_insert: "ok m \<Longrightarrow> lookup (insert k v m) = (lookup m)(k \<mapsto> v)"
    and lookup_remove: "ok m \<Longrightarrow> lookup (remove k m) = (lookup m)(k := None)"
begin

lemma insert_other: "ok m \<Longrightarrow> k \<noteq> j \<Longrightarrow> lookup (insert k v m) j = lookup m j"
  by (simp add: lookup_insert)

lemma insert_same: "ok m \<Longrightarrow> lookup (insert k v m) k = Some v"
  by (simp add: lookup_insert)

end

lemma bt_insert_keys: "fst ` set (bt_insert k v xs) = insert k (fst ` set xs)"
  by (induction k v xs rule: bt_insert.induct) auto

lemma bt_insert_ok: "bt_ok xs \<Longrightarrow> bt_ok (bt_insert k v xs)"
proof (induction k v xs rule: bt_insert.induct)
  case (2 k v a b xs)
  have "fst ` set (bt_insert k v xs) = insert k (fst ` set xs)" by (rule bt_insert_keys)
  then show ?case using 2 by (fastforce simp: bt_ok_def)
qed (simp add: bt_ok_def)

lemma bt_lookup_insert: "bt_ok xs \<Longrightarrow> map_of (bt_insert k v xs) = (map_of xs)(k \<mapsto> v)"
  by (induction k v xs rule: bt_insert.induct) (auto simp: bt_ok_def fun_eq_iff)

lemma bt_remove_ok: "bt_ok xs \<Longrightarrow> bt_ok (bt_remove k xs)"
  unfolding bt_ok_def bt_remove_def by (induction xs) (auto simp: case_prod_beta)

lemma bt_lookup_remove: "map_of (bt_remove k xs) = (map_of xs)(k := None)"
  unfolding bt_remove_def by (induction xs) (auto simp: fun_eq_iff)

interpretation btree: ordered_map "[]" map_of bt_insert bt_remove bt_ok
  by unfold_locales (simp_all add: bt_ok_def [of "[]"] bt_insert_ok bt_remove_ok bt_lookup_insert bt_lookup_remove)

text \<open>Inserting past the last key appends, which is how a decoder fills the map.\<close>

lemma bt_insert_last: "list_all (\<lambda>(a, _). a < k) xs \<Longrightarrow> bt_insert k v xs = xs @ [(k, v)]"
  by (induction xs) auto

lemma bt_insert_mem:
  "(a, b) \<in> set (bt_insert k v xs) \<Longrightarrow> (a, b) = (k, v) \<or> (a, b) \<in> set xs"
  by (induction k v xs rule: bt_insert.induct) (auto split: if_splits)

lemma bt_insert_other_mem:
  "bt_ok xs \<Longrightarrow> (a, b) \<in> set (bt_insert k v xs) \<longleftrightarrow> (a, b) = (k, v) \<or> a \<noteq> k \<and> (a, b) \<in> set xs"
  by (induction k v xs rule: bt_insert.induct) (auto simp: bt_ok_def)

lemma bt_mem_lookup: "bt_ok xs \<Longrightarrow> (k, v) \<in> set xs \<longleftrightarrow> map_of xs k = Some v"
proof -
  assume "bt_ok xs"
  then have "distinct (map fst xs)" by (simp add: bt_ok_def strict_sorted_iff)
  then show ?thesis by simp
qed

lemma bt_insert_length:
  "bt_ok xs \<Longrightarrow> length (bt_insert k v xs) = length xs + (if map_of xs k = None then 1 else 0)"
proof (induction k v xs rule: bt_insert.induct)
  case (2 k v a b xs)
  have "map_of xs k = None" if "k < a"
    using 2(2) that by (force simp: bt_ok_def map_of_eq_None_iff)
  then show ?case using 2 by (auto simp: bt_ok_def)
qed simp

end
