(* ===== verification/ContainerFormat.thy ===== *)
theory ContainerFormat
  imports BTree Types Codec ReadAt "HOL-Library.Product_Lexorder"
begin

text \<open>
  The bytes of a container (\<open>src/src/container.rs\<close>): the two superblock slots at its head, the
  choice between them, member names, and the member directory with its free list. BLAKE3, CRC-32 and
  zstd are parameters.
\<close>

definition CONTAINER_MAGIC :: bytes where "CONTAINER_MAGIC = ascii ''TDBDRFT1''"
definition CONTAINER_DRAFT_EPOCH :: byte where "CONTAINER_DRAFT_EPOCH = 1"
definition SLOT_LEN :: nat where "SLOT_LEN = 4096"
definition REGION_START :: nat where "REGION_START = SLOT_LEN * 2"
definition SB_LEN :: nat where "SB_LEN = 56"
definition ALIGN :: nat where "ALIGN = 4096"
definition MAX_DIR_STORED :: nat where "MAX_DIR_STORED = 64 * 2 ^ 20"
definition MAX_DIR_RAW :: nat where "MAX_DIR_RAW = 256 * 2 ^ 20"
definition MAX_MEMBERS :: nat where "MAX_MEMBERS = 1000000"
definition MAX_FREE_EXTENTS :: nat where "MAX_FREE_EXTENTS = MAX_MEMBERS"
definition MAX_MEMBER_EXTENTS :: nat where "MAX_MEMBER_EXTENTS = 2 ^ 16"
definition MAX_NAME :: nat where "MAX_NAME = 4096"

lemmas container_consts = SLOT_LEN_def REGION_START_def SB_LEN_def ALIGN_def MAX_DIR_STORED_def MAX_DIR_RAW_def
  MAX_MEMBERS_def MAX_FREE_EXTENTS_def MAX_MEMBER_EXTENTS_def MAX_NAME_def

definition align_up :: "nat \<Rightarrow> nat outcome" where
  "align_up x = bind_res
     (ok_or (Bail ''container offset cannot be aligned without overflow'') (checked_add x (ALIGN - 1)))
     (\<lambda>v. Inr (v div ALIGN * ALIGN))"

record member =
  mextents :: "(nat \<times> nat) list"
  mlen :: nat
  mxsum :: u32

type_synonym member_dir = "(bytes \<times> member) list"
type_synonym free_list = "(nat \<times> nat \<times> nat) list"

section \<open>Superblocks\<close>

record superblock =
  sb_seq :: u64
  sb_dir_off :: u64
  sb_dir_stored :: u32
  sb_dir_raw :: u32
  sb_n_entries :: u32
  sb_dir_xsum :: u32
  sb_tail :: u64
  sb_dir_codec :: byte

definition is_empty_birth_superblock :: "superblock \<Rightarrow> bool" where
  "is_empty_birth_superblock sb \<longleftrightarrow>
     sb_seq sb = 0 \<and> unat (sb_dir_off sb) = REGION_START \<and> sb_dir_stored sb = 0 \<and> sb_dir_raw sb = 0 \<and>
     sb_n_entries sb = 0 \<and> sb_dir_xsum sb = 0 \<and> unat (sb_tail sb) = REGION_START \<and> sb_dir_codec sb = 0"

definition select_superblock :: "superblock option \<Rightarrow> superblock option \<Rightarrow> (superblock \<times> nat) outcome" where
  "select_superblock first second =
    (case (first, second) of
       (Some left, Some right) \<Rightarrow>
         if sb_seq left = sb_seq right \<and> left \<noteq> right then
           Inl (Bail ''container has contradictory checksum-valid superblocks'')
         else if sb_seq right > sb_seq left then Inr (right, 1)
         else Inr (left, 0)
     | (Some left, None) \<Rightarrow> Inr (left, 0)
     | (None, Some right) \<Rightarrow> Inr (right, 1)
     | (None, None) \<Rightarrow> Inl (Bail ''not a container, or both superblocks are unreadable''))"

definition superblock_empty :: superblock where
  "superblock_empty = \<lparr> sb_seq = 0, sb_dir_off = word_of_nat REGION_START, sb_dir_stored = 0, sb_dir_raw = 0,
     sb_n_entries = 0, sb_dir_xsum = 0, sb_tail = word_of_nat REGION_START, sb_dir_codec = 0 \<rparr>"

definition superblock_body :: "superblock \<Rightarrow> bytes" where
  "superblock_body sb = CONTAINER_MAGIC @ le64 (sb_seq sb) @ le64 (sb_dir_off sb) @ le32 (sb_dir_stored sb) @
     le32 (sb_dir_raw sb) @ le32 (sb_n_entries sb) @ le32 (sb_dir_xsum sb) @ le64 (sb_tail sb) @
     [sb_dir_codec sb, CONTAINER_DRAFT_EPOCH] @ [0, 0]"

definition superblock_encode :: "(bytes \<Rightarrow> digest) \<Rightarrow> superblock \<Rightarrow> bytes" where
  "superblock_encode blake3 sb =
     superblock_body sb @ take 4 (blake3 (superblock_body sb)) @ replicate (SLOT_LEN - 56) 0"

definition validate_semantics :: "superblock \<Rightarrow> unit outcome" where
  "validate_semantics sb =
    (if sb_seq sb = 0 then
       (if \<not> is_empty_birth_superblock sb then Inl (Bail ''container sequence zero is not the canonical birth state'')
        else Inr ())
     else if unat (sb_dir_stored sb) > MAX_DIR_STORED \<or> unat (sb_dir_raw sb) > MAX_DIR_RAW \<or>
         unat (sb_n_entries sb) > MAX_MEMBERS then
       Inl (Bail ''container superblock declares a directory over the admission ceilings'')
     else if sb_dir_codec sb > 1 then Inl (Bail ''container superblock declares unknown directory codec'')
     else if sb_dir_codec sb = 0 \<and> sb_dir_stored sb \<noteq> sb_dir_raw sb then
       Inl (Bail ''container stored directory declares unequal stored and raw lengths'')
     else bind_res (ok_or (Bail ''container directory end overflows'')
         (checked_add (unat (sb_dir_off sb)) (unat (sb_dir_stored sb)))) (\<lambda>dir_end.
       if sb_dir_stored sb = 0 \<or> sb_dir_raw sb = 0 \<or> unat (sb_dir_off sb) < REGION_START \<or>
          unat (sb_dir_off sb) mod ALIGN \<noteq> 0 \<or> dir_end \<noteq> unat (sb_tail sb) then
         Inl (Bail ''container superblock directory lies outside its committed region'')
       else Inr ()))"

definition superblock_decode :: "(bytes \<Rightarrow> digest) \<Rightarrow> bytes \<Rightarrow> superblock option outcome" where
  "superblock_decode blake3 s =
    (if length s < SB_LEN then Inr None
     else if slice s 52 56 \<noteq> slice (blake3 (slice s 0 52)) 0 4 then Inr None
     else if slice s 0 8 \<noteq> CONTAINER_MAGIC then
       Inl (Bail ''container superblock carries an unrecognized physical identity'')
     else if s ! 49 \<noteq> CONTAINER_DRAFT_EPOCH then Inl (Bail ''container superblock declares another draft epoch'')
     else if slice s 50 52 \<noteq> [0, 0] then Inl (Bail ''container superblock sets reserved bits that must be zero'')
     else if list_ex (\<lambda>b. b \<noteq> 0) (drop SB_LEN s) then Inl (Bail ''container superblock reserved tail is not zero'')
     else let sb = \<lparr> sb_seq = u64_of_le (slice s 8 16), sb_dir_off = u64_of_le (slice s 16 24),
                sb_dir_stored = u32_of_le (slice s 24 28), sb_dir_raw = u32_of_le (slice s 28 32),
                sb_n_entries = u32_of_le (slice s 32 36), sb_dir_xsum = u32_of_le (slice s 36 40),
                sb_tail = u64_of_le (slice s 40 48), sb_dir_codec = s ! 48 \<rparr>
       in bind_res (validate_semantics sb) (\<lambda>_. Inr (Some sb)))"

definition empty_birth_image :: "(bytes \<Rightarrow> digest) \<Rightarrow> bytes" where
  "empty_birth_image blake3 = superblock_encode blake3 superblock_empty @ replicate (REGION_START - SLOT_LEN) 0"

section \<open>Member names\<close>

text \<open>\<open>str::split\<close> on a one-byte separator.\<close>

fun split_on :: "byte \<Rightarrow> bytes \<Rightarrow> bytes list" where
  "split_on c [] = [[]]"
| "split_on c (x # xs) =
    (if x = c then [] # split_on c xs
     else (case split_on c xs of [] \<Rightarrow> [[x]] | y # ys \<Rightarrow> (x # y) # ys))"

definition validate_name :: "bytes \<Rightarrow> unit outcome" where
  "validate_name name =
    (if name = [] then Inl (Bail ''container member name is empty'')
     else if length name > MAX_NAME then Inl (Bail ''container member name is over the ceiling'')
     else if 92 \<in> set name then Inl (Bail ''container member name contains a backslash'')
     else if list_ex (\<lambda>component. component = [] \<or> component = [46] \<or> component = [46, 46]) (split_on 47 name) then
       Inl (Bail ''container member name is not a canonical path'')
     else Inr ())"

section \<open>Writing a directory\<close>

text \<open>The number of significant bits, \<open>64 - leading_zeros\<close>.\<close>

fun bit_len :: "nat \<Rightarrow> nat" where
  "bit_len n = (if n = 0 then 0 else Suc (bit_len (n div 2)))"

declare bit_len.simps [simp del]

definition varint_len :: "nat \<Rightarrow> nat" where
  "varint_len v = div_ceil (max (bit_len v) 1) 7"

definition dir_overflow :: failure where
  "dir_overflow = Bail ''container directory encoded length overflows''"

definition add_len :: "nat outcome \<Rightarrow> nat \<Rightarrow> nat outcome" where
  "add_len m n = bind_res m (\<lambda>a. ok_or dir_overflow (checked_add a n))"

definition entry_len :: "nat outcome \<Rightarrow> bytes \<times> member \<Rightarrow> nat outcome" where
  "entry_len l = (\<lambda>(name, m).
     let l = add_len (add_len (add_len l (varint_len (length name))) (length name)) (varint_len (length (mextents m)));
         l = fold (\<lambda>(off, len) l. add_len (add_len l (varint_len off)) (varint_len len)) (mextents m) l
     in add_len l 4)"

definition encoded_directory_len :: "member_dir \<Rightarrow> free_list \<Rightarrow> nat outcome" where
  "encoded_directory_len dir free =
     (let l = fold (\<lambda>e l. entry_len l e) dir (Inr (varint_len (length dir)));
          l = add_len l (varint_len (length free))
      in fold (\<lambda>(off, len, seq) l. add_len (add_len (add_len l (varint_len off)) (varint_len len)) (varint_len seq)) free l)"

abbreviation put_num :: "nat \<Rightarrow> bytes" where
  "put_num n \<equiv> put_varint (word_of_nat n)"

definition member_entry_bytes :: "bytes \<times> member \<Rightarrow> bytes" where
  "member_entry_bytes = (\<lambda>(name, m). put_num (length name) @ name @ put_num (length (mextents m)) @
     concat (map (\<lambda>(off, len). put_num off @ put_num len) (mextents m)) @ le32 (mxsum m))"

definition directory_bytes :: "member_dir \<Rightarrow> free_list \<Rightarrow> bytes" where
  "directory_bytes dir free = put_num (length dir) @ concat (map member_entry_bytes dir) @ put_num (length free) @
     concat (map (\<lambda>(off, len, seq). put_num off @ put_num len @ put_num seq) free)"

definition encode_directory :: "member_dir \<Rightarrow> free_list \<Rightarrow> bytes outcome" where
  "encode_directory dir free =
     bind_res (encoded_directory_len dir free) (\<lambda>encoded_len.
     if encoded_len > MAX_DIR_RAW then Inl (Bail ''container raw directory is over the ceiling'')
     else Inr (directory_bytes dir free))"

section \<open>Reading a directory\<close>

text \<open>
  In \<open>payload.get(at..end)\<close> the sum \<open>end\<close> cannot overflow: a slice has at most \<open>isize::MAX\<close> bytes and
  the name length was just bounded.
\<close>

definition read_name :: "bytes \<Rightarrow> nat \<Rightarrow> (bytes \<times> nat) outcome" where
  "read_name payload at =
     bind_res (get_varint payload at) (\<lambda>(name_len, at).
     if unat name_len > MAX_NAME then Inl (Bail ''container member name is over the limit'')
     else bind_res (ok_or (Bail ''container directory name truncated'') (get_range payload at (at + unat name_len))) (\<lambda>raw.
       bind_res (from_utf8 raw) (\<lambda>name.
       bind_res (validate_name name) (\<lambda>_. Inr (name, at + unat name_len)))))"

fun read_extents :: "nat \<Rightarrow> nat \<Rightarrow> bytes \<Rightarrow> nat \<Rightarrow> (((nat \<times> nat) list \<times> nat) \<times> nat) outcome" where
  "read_extents 0 len payload at = Inr (([], len), at)"
| "read_extents (Suc n) len payload at =
     bind_res (get_varint payload at) (\<lambda>(off, at).
     bind_res (get_varint payload at) (\<lambda>(ext_len, at).
     if ext_len = 0 then Inl (Bail ''container member carries an empty extent'')
     else bind_res (ok_or (Bail ''container member length overflows'') (checked_add len (unat ext_len))) (\<lambda>len.
       bind_res (read_extents n len payload at) (\<lambda>((xs, len), at).
       Inr (((unat off, unat ext_len) # xs, len), at)))))"

definition read_xsum :: "bytes \<Rightarrow> nat \<Rightarrow> (u32 \<times> nat) outcome" where
  "read_xsum payload at =
     bind_res (ok_or (Bail ''container directory checksum truncated'') (get_range payload at (at + 4))) (\<lambda>b.
     Inr (u32_of_le b, at + 4))"

definition in_region :: "nat \<Rightarrow> nat \<times> nat \<Rightarrow> unit outcome" where
  "in_region dir_off = (\<lambda>(off, len).
     bind_res (ok_or (Bail ''container member extent overflows'') (checked_add off len)) (\<lambda>stop.
     if off < REGION_START \<or> off mod ALIGN \<noteq> 0 \<or> stop > dir_off then
       Inl (Bail ''container extent is unaligned or outside its committed member region'')
     else Inr ()))"

fun each_in_region :: "nat \<Rightarrow> (nat \<times> nat) list \<Rightarrow> unit outcome" where
  "each_in_region dir_off [] = Inr ()"
| "each_in_region dir_off (x # xs) = bind_res (in_region dir_off x) (\<lambda>_. each_in_region dir_off xs)"

definition read_member :: "nat \<Rightarrow> bytes \<Rightarrow> nat \<Rightarrow> (member \<times> nat) outcome" where
  "read_member dir_off payload at =
     bind_res (get_varint payload at) (\<lambda>(n_extents, at).
     if unat n_extents > MAX_MEMBER_EXTENTS then Inl (Bail ''container member extents over the ceiling'')
     else bind_res (read_extents (unat n_extents) 0 payload at) (\<lambda>((xs, len), at).
       bind_res (read_xsum payload at) (\<lambda>(xsum, at).
       bind_res (each_in_region dir_off xs) (\<lambda>_.
       Inr (\<lparr> mextents = xs, mlen = len, mxsum = xsum \<rparr>, at)))))"

fun read_members :: "nat \<Rightarrow> nat \<Rightarrow> bytes option \<Rightarrow> member_dir \<Rightarrow> bytes \<Rightarrow> nat \<Rightarrow> (member_dir \<times> nat) outcome" where
  "read_members 0 dir_off previous dir payload at = Inr (dir, at)"
| "read_members (Suc n) dir_off previous dir payload at =
     bind_res (read_name payload at) (\<lambda>(name, at).
     if (case previous of None \<Rightarrow> False | Some p \<Rightarrow> p \<ge> name) then
       Inl (Bail ''container member names are not in strict wire order'')
     else bind_res (read_member dir_off payload at) (\<lambda>(m, at).
       if map_of dir name \<noteq> None then Inl (Bail ''container names a member twice'')
       else read_members n dir_off (Some name) (bt_insert name m dir) payload at))"

fun read_free :: "nat \<Rightarrow> nat \<Rightarrow> nat \<Rightarrow> bytes \<Rightarrow> nat \<Rightarrow> (free_list \<times> nat) outcome" where
  "read_free 0 seq dir_off payload at = Inr ([], at)"
| "read_free (Suc n) seq dir_off payload at =
     bind_res (get_varint payload at) (\<lambda>(off, at).
     bind_res (get_varint payload at) (\<lambda>(len, at).
     bind_res (get_varint payload at) (\<lambda>(freed_seq, at).
     if unat freed_seq > seq then Inl (Bail ''container free extent claims a commit that has not happened'')
     else bind_res (ok_or (Bail ''container free extent overflows'') (checked_add (unat off) (unat len))) (\<lambda>stop.
       if len = 0 \<or> unat off < REGION_START \<or> unat off mod ALIGN \<noteq> 0 \<or> stop > dir_off then
         Inl (Bail ''container free extent is unaligned or outside its committed member region'')
       else bind_res (read_free n seq dir_off payload at) (\<lambda>(xs, at).
         Inr ((unat off, unat len, unat freed_seq) # xs, at))))))"

fun check_disjoint :: "(nat \<times> nat) list \<Rightarrow> unit outcome" where
  "check_disjoint ((a_off, a_len) # (b_off, b_len) # rest) =
     bind_res (ok_or (Bail ''container extent end overflows'') (checked_add a_off a_len)) (\<lambda>a_end.
     if a_end > b_off then Inl (Bail ''container claims overlapping extents'')
     else check_disjoint ((b_off, b_len) # rest))"
| "check_disjoint _ = Inr ()"

definition dir_ranges :: "nat \<Rightarrow> nat \<Rightarrow> member_dir \<Rightarrow> free_list \<Rightarrow> (nat \<times> nat) list" where
  "dir_ranges dir_off dir_stored dir free =
     concat (map (\<lambda>(_, m). mextents m) dir) @ map (\<lambda>(off, len, _). (off, len)) free @ [(dir_off, dir_stored)]"

definition parse_directory :: "superblock \<Rightarrow> read_limits \<Rightarrow> bytes \<Rightarrow> (member_dir \<times> free_list) outcome" where
  "parse_directory sb limits payload =
     bind_res (get_varint payload 0) (\<lambda>(n, at).
     if unat n \<noteq> unat (sb_n_entries sb) then Inl (Bail ''container directory entry count differs from the superblock'')
     else bind_res (read_members (unat n) (unat (sb_dir_off sb)) None [] payload at) (\<lambda>(dir, at).
     bind_res (get_varint payload at) (\<lambda>(n_free, at).
     if unat n_free > MAX_FREE_EXTENTS then Inl (Bail ''container free extents over the ceiling'')
     else bind_res (admitted (admit_directory_entries limits ''container free extents'' (unat n_free))) (\<lambda>_.
     bind_res (read_free (unat n_free) (unat (sb_seq sb)) (unat (sb_dir_off sb)) payload at) (\<lambda>(free, at).
     if at \<noteq> length payload then Inl (Bail ''container directory has trailing bytes'')
     else bind_res (check_disjoint (sort (dir_ranges (unat (sb_dir_off sb)) (unat (sb_dir_stored sb)) dir free))) (\<lambda>_.
       Inr (dir, free)))))))"

definition read_directory ::
  "(bytes \<Rightarrow> u32) \<Rightarrow> decompressor \<Rightarrow> reader \<Rightarrow> superblock \<Rightarrow> read_limits \<Rightarrow> (member_dir \<times> free_list) outcome" where
  "read_directory crc decompress f sb limits =
    (if sb_seq sb = 0 then
       (if is_empty_birth_superblock sb then Inr ([], [])
        else Inl (Bail ''container sequence zero is not the canonical birth state''))
     else if sb_n_entries sb = 0 \<and> sb_dir_stored sb = 0 then
       Inl (Bail ''container carries a non-canonical empty directory declaration'')
     else if unat (sb_dir_stored sb) > MAX_DIR_STORED \<or> unat (sb_dir_raw sb) > MAX_DIR_RAW \<or>
         unat (sb_n_entries sb) > MAX_MEMBERS then
       Inl (Bail ''container declares a directory over the admission ceilings'')
     else
       bind_res (admitted (admit limits ''container member directory'' (unat (sb_dir_stored sb)) (unat (sb_dir_raw sb)))) (\<lambda>_.
       bind_res (admitted (admit_directory_entries limits ''container members'' (unat (sb_n_entries sb)))) (\<lambda>_.
       bind_res (ok_or (Bail ''container directory end overflows'')
         (checked_add (unat (sb_dir_off sb)) (unat (sb_dir_stored sb)))) (\<lambda>dir_end.
       if sb_dir_stored sb = 0 \<or> sb_dir_raw sb = 0 \<or> unat (sb_dir_off sb) < REGION_START \<or>
          unat (sb_dir_off sb) mod ALIGN \<noteq> 0 \<or> dir_end \<noteq> unat (sb_tail sb) then
         Inl (Bail ''container directory lies outside its committed region'')
       else
         bind_res (f (unat (sb_dir_off sb)) (unat (sb_dir_stored sb))) (\<lambda>stored.
         if crc stored \<noteq> sb_dir_xsum sb then Inl (Bail ''container directory fails its checksum'')
         else bind_res (codec_decode decompress (sb_dir_codec sb) stored (sb_dir_raw sb) None) (\<lambda>payload.
           parse_directory sb limits payload))))))"

section \<open>Superblock slots are exact\<close>

lemma length_container_magic [simp]: "length CONTAINER_MAGIC = 8"
  by (simp add: CONTAINER_MAGIC_def ascii_def)

lemma length_superblock_body [simp]: "length (superblock_body sb) = 52"
  by (simp add: superblock_body_def)

lemma superblock_body_fields:
  "slice (superblock_body sb @ rest) 0 8 = CONTAINER_MAGIC"
  "slice (superblock_body sb @ rest) 8 16 = le64 (sb_seq sb)"
  "slice (superblock_body sb @ rest) 16 24 = le64 (sb_dir_off sb)"
  "slice (superblock_body sb @ rest) 24 28 = le32 (sb_dir_stored sb)"
  "slice (superblock_body sb @ rest) 28 32 = le32 (sb_dir_raw sb)"
  "slice (superblock_body sb @ rest) 32 36 = le32 (sb_n_entries sb)"
  "slice (superblock_body sb @ rest) 36 40 = le32 (sb_dir_xsum sb)"
  "slice (superblock_body sb @ rest) 40 48 = le64 (sb_tail sb)"
  "(superblock_body sb @ rest) ! 48 = sb_dir_codec sb"
  "(superblock_body sb @ rest) ! 49 = CONTAINER_DRAFT_EPOCH"
  "slice (superblock_body sb @ rest) 50 52 = [0, 0]"
  unfolding superblock_body_def by (simp_all add: slice_def nth_append)

definition semantics_ok :: "superblock \<Rightarrow> bool" where
  "semantics_ok sb \<longleftrightarrow>
    (if sb_seq sb = 0 then is_empty_birth_superblock sb
     else unat (sb_dir_stored sb) \<le> MAX_DIR_STORED \<and> unat (sb_dir_raw sb) \<le> MAX_DIR_RAW \<and>
       unat (sb_n_entries sb) \<le> MAX_MEMBERS \<and> sb_dir_codec sb \<le> 1 \<and>
       (sb_dir_codec sb = 0 \<longrightarrow> sb_dir_stored sb = sb_dir_raw sb) \<and>
       unat (sb_dir_off sb) + unat (sb_dir_stored sb) = unat (sb_tail sb) \<and> sb_dir_stored sb \<noteq> 0 \<and> sb_dir_raw sb \<noteq> 0 \<and>
       REGION_START \<le> unat (sb_dir_off sb) \<and> unat (sb_dir_off sb) mod ALIGN = 0)"

lemma validate_semantics_ok [simp]: "validate_semantics sb = Inr u \<longleftrightarrow> semantics_ok sb"
  using unat_u64_le_max [of "sb_tail sb"]
  by (auto simp: validate_semantics_def semantics_ok_def bind_res_Inr_iff checked_add_Some_iff not_less not_le split: if_splits)

lemma superblock_eta:
  "\<lparr> sb_seq = sb_seq sb, sb_dir_off = sb_dir_off sb, sb_dir_stored = sb_dir_stored sb, sb_dir_raw = sb_dir_raw sb,
     sb_n_entries = sb_n_entries sb, sb_dir_xsum = sb_dir_xsum sb, sb_tail = sb_tail sb, sb_dir_codec = sb_dir_codec sb \<rparr> = sb"
  by simp

lemma superblock_decode_encode:
  assumes "\<And>x. 4 \<le> length (blake3 x)" and "semantics_ok sb"
  shows "superblock_decode blake3 (superblock_encode blake3 sb) = Inr (Some sb)"
proof -
  let ?s = "superblock_encode blake3 sb" and ?h = "take 4 (blake3 (superblock_body sb))"
  let ?rest = "?h @ replicate (SLOT_LEN - 56) 0"
  have l: "length ?h = 4" using assms(1) by simp
  have s: "?s = superblock_body sb @ ?rest" by (simp add: superblock_encode_def)
  have len: "length ?s = 4096" using l by (simp add: s SLOT_LEN_def)
  have "slice ?s 52 56 = ?h" using slice_append_mid [of 52 "superblock_body sb" 56 ?h] l by (simp add: s)
  moreover have "slice ?s 0 52 = superblock_body sb" by (simp add: s slice_def)
  moreover have "slice (blake3 (superblock_body sb)) 0 4 = ?h" by (simp add: slice_def)
  moreover have "drop SB_LEN ?s = replicate (SLOT_LEN - 56) 0" using l by (simp add: s SB_LEN_def)
  ultimately show ?thesis
    using len assms(2) superblock_eta [of sb]
    by (simp add: superblock_decode_def SB_LEN_def Let_def list_ex_iff bind_res_Inr_iff
        superblock_body_fields [of sb ?rest, folded s]) (simp only: superblock_eta)
qed

lemma superblock_decode_exact:
  assumes "length s = SLOT_LEN" and "superblock_decode blake3 s = Inr (Some sb)"
  shows "semantics_ok sb \<and> s = superblock_encode blake3 sb"
proof -
  have len: "length s = 4096" using assms(1) by (simp add: SLOT_LEN_def)
  from assms(2) have h: "slice s 52 56 = slice (blake3 (slice s 0 52)) 0 4" and f: "slice s 0 8 = CONTAINER_MAGIC"
    "s ! 49 = CONTAINER_DRAFT_EPOCH" "slice s 50 52 = [0, 0]" "\<not> list_ex (\<lambda>b. b \<noteq> 0) (drop 56 s)"
    and sb: "sb = \<lparr> sb_seq = u64_of_le (slice s 8 16), sb_dir_off = u64_of_le (slice s 16 24),
                sb_dir_stored = u32_of_le (slice s 24 28), sb_dir_raw = u32_of_le (slice s 28 32),
                sb_n_entries = u32_of_le (slice s 32 36), sb_dir_xsum = u32_of_le (slice s 36 40),
                sb_tail = u64_of_le (slice s 40 48), sb_dir_codec = s ! 48 \<rparr>"
    and ok: "semantics_ok sb"
    by (auto simp: superblock_decode_def Let_def bind_res_Inr_iff SB_LEN_def split: if_splits)
  have "slice s 48 50 = [s ! 48, s ! 49]"
    using len by (intro nth_equalityI) (auto simp: slice_def less_Suc_eq numeral_2_eq_2 nth_drop)
  moreover have "slice s 0 52 = (slice s 0 48 @ slice s 48 50) @ slice s 50 52" by (simp add: slice_append)
  ultimately have "slice s 0 52 = slice s 0 48 @ [s ! 48, CONTAINER_DRAFT_EPOCH, 0, 0]" using f by simp
  then have "slice s 0 52 = superblock_body sb"
    using len f slice_append [of 0 8 16 s] slice_append [of 0 16 24 s] slice_append [of 0 24 28 s]
      slice_append [of 0 28 32 s] slice_append [of 0 32 36 s] slice_append [of 0 36 40 s] slice_append [of 0 40 48 s]
    by (simp add: superblock_body_def sb le64_u64_of_le le32_u32_of_le flip: append_assoc)
  moreover have "drop 56 s = replicate (SLOT_LEN - 56) 0"
    using f(4) len by (intro replicate_eqI [symmetric, THEN sym]) (auto simp: list_ex_iff SLOT_LEN_def)
  moreover have "s = slice s 0 52 @ slice s 52 56 @ drop 56 s"
    using len by (simp add: slice_def drop_drop flip: append_assoc take_add)
  ultimately show ?thesis using h ok by (simp add: superblock_encode_def slice_def)
qed

section \<open>The directory is exact\<close>

definition get_num :: "bytes \<Rightarrow> nat \<Rightarrow> (nat \<times> nat) outcome" where
  "get_num = get_map (\<lambda>x. Inr (unat x)) get_varint"

lemma exact_num: "exact_wire put_num get_num (\<lambda>n. n \<le> u64_max)"
  unfolding get_num_def
proof (rule exact_wire_map [OF varint.exact_wire_axioms])
  fix x :: u64 and y assume "Inr (unat x) = (Inr y :: nat outcome)"
  then show "y \<le> u64_max \<and> put_num y = put_varint x" using unat_u64_le_max by auto
next
  fix y assume "y \<le> u64_max"
  then have "unat (word_of_nat y :: u64) = y" by (simp add: unat_of_nat u64_max_def)
  then show "\<exists>x. True \<and> Inr (unat x) = (Inr y :: nat outcome) \<and> put_num y = put_varint x"
    by (intro exI [of _ "word_of_nat y"]) simp
qed

lemma get_num_Inr: "get_num b at = Inr (n, at') \<longleftrightarrow> (\<exists>x. get_varint b at = Inr (x, at') \<and> n = unat x)"
  by (auto simp: get_num_def get_map_def bind_res_Inr_iff split: prod.splits)

definition name_ok :: "bytes \<Rightarrow> bool" where
  "name_ok name \<longleftrightarrow> utf8_ok name \<and> validate_name name = Inr ()"

lemma name_ok_length: "name_ok name \<Longrightarrow> length name \<le> MAX_NAME"
  by (auto simp: name_ok_def validate_name_def split: if_splits)

lemma get_range_drop: "drop at b = x @ rest \<Longrightarrow> at \<le> length b \<Longrightarrow> get_range b at (at + length x) = Some x"
  using cursor_advance [of at b x rest] by (simp add: get_range_def)

lemma get_range_exact:
  "get_range b at (at + n) = Some x \<Longrightarrow> length x = n \<and> drop at b = x @ drop (at + n) b \<and> at + n \<le> length b"
  using slice_cursor [of at "at + n" b] by (auto simp: get_range_Some_iff)

lemma exact_name: "exact_wire (\<lambda>name. put_num (length name) @ name) read_name name_ok"
proof unfold_locales
  fix at b x rest
  assume d: "drop at b = (put_num (length x) @ x) @ rest" and at: "at \<le> length (b :: bytes)" and ok: "name_ok x"
  have d1: "drop at b = put_num (length x) @ (x @ rest)" using d by simp
  have l: "length x \<le> MAX_NAME" using name_ok_length [OF ok] .
  then have u: "unat (word_of_nat (length x) :: u64) = length x" by (simp add: unat_of_nat MAX_NAME_def)
  note v = varint.get_put [OF d1 at TrueI] and c = cursor_advance [OF d1 at]
  have r: "get_range b (at + length (put_num (length x))) (at + length (put_num (length x)) + length x) = Some x"
    by (rule get_range_drop [OF c(1,2)])
  show "read_name b at = Inr (x, at + length (put_num (length x) @ x))"
    using ok l by (simp add: read_name_def v u r from_utf8_def name_ok_def add.assoc [symmetric])
next
  fix b at x at'
  assume g: "read_name b at = Inr (x, at')" and at: "at \<le> length b"
  then obtain n at1 where n: "get_varint b at = Inr (n, at1)" and r: "get_range b at1 (at1 + unat n) = Some x"
    and x: "utf8_ok x" "validate_name x = Inr ()" "at' = at1 + unat n"
    by (auto simp: read_name_def bind_res_Inr_iff from_utf8_def split: prod.splits if_splits)
  note e = varint.get_exact [OF n at] and r' = get_range_exact [OF r]
  show "name_ok x \<and> drop at b = (put_num (length x) @ x) @ drop at' b \<and> at' = at + length (put_num (length x) @ x)"
    using e r' x by (simp add: name_ok_def)
qed

text \<open>Extents.\<close>

definition get_extent :: "bytes \<Rightarrow> nat \<Rightarrow> ((nat \<times> nat) \<times> nat) outcome" where
  "get_extent = get_map (\<lambda>(off, len). if len = 0 then Inl (Bail ''container member carries an empty extent'') else Inr (off, len))
     (get_pair get_num get_num)"

definition put_extent :: "nat \<times> nat \<Rightarrow> bytes" where
  "put_extent = (\<lambda>(off, len). put_num off @ put_num len)"

definition extent_ok :: "nat \<times> nat \<Rightarrow> bool" where
  "extent_ok = (\<lambda>(off, len). off \<le> u64_max \<and> 0 < len \<and> len \<le> u64_max)"

lemma exact_extent: "exact_wire put_extent get_extent extent_ok"
  unfolding get_extent_def
  by (rule exact_wire_map [OF exact_wire_pair [OF exact_num exact_num]])
    (auto simp: extent_ok_def put_extent_def split: if_splits)

lemma get_extent_Inr:
  "get_extent b at = Inr (x, at2) \<longleftrightarrow>
    (\<exists>off at1 l. get_varint b at = Inr (off, at1) \<and> get_varint b at1 = Inr (l, at2) \<and> l \<noteq> 0 \<and> x = (unat off, unat l))"
proof (cases "get_varint b at")
  case (Inr p)
  then show ?thesis
    by (cases p; cases "get_varint b (snd p)")
      (auto simp: get_extent_def get_map_def get_pair_def get_num_def unat_eq_0 split: if_splits)
qed (auto simp: get_extent_def get_map_def get_pair_def get_num_def)

lemma read_extents_Suc:
  "read_extents (Suc n) len b at = Inr ((xs, len'), at') \<longleftrightarrow>
    (\<exists>x at2 ys. get_extent b at = Inr (x, at2) \<and> len + snd x \<le> u64_max \<and>
      read_extents n (len + snd x) b at2 = Inr ((ys, len'), at') \<and> xs = x # ys)"
proof (cases "get_varint b at")
  case (Inr p)
  then show ?thesis
    by (cases p; cases "get_varint b (snd p)")
      (auto simp: get_extent_Inr bind_res_Inr_iff checked_add_Some_iff split: prod.splits if_splits)
qed (auto simp: get_extent_Inr)

lemma read_extents_iff:
  "read_extents n len b at = Inr ((xs, len'), at') \<longleftrightarrow>
    get_n get_extent n b at = Inr (xs, at') \<and> len' = len + sum_list (map snd xs) \<and> (xs = [] \<or> len' \<le> u64_max)"
proof (induction n arbitrary: len at xs len')
  case (Suc n)
  show ?case unfolding read_extents_Suc Suc.IH
    by (auto simp: bind_res_Inr_iff split: prod.splits)
qed auto

definition region_ok :: "nat \<Rightarrow> nat \<times> nat \<Rightarrow> bool" where
  "region_ok dir_off = (\<lambda>(off, len). REGION_START \<le> off \<and> off mod ALIGN = 0 \<and> off + len \<le> dir_off)"

lemma each_in_region_ok: "dir_off \<le> u64_max \<Longrightarrow> each_in_region dir_off xs = Inr () \<longleftrightarrow> list_all (region_ok dir_off) xs"
  by (induction xs) (auto simp: in_region_def region_ok_def bind_res_Inr_iff checked_add_Some_iff split: if_splits)

definition member_ok :: "nat \<Rightarrow> member \<Rightarrow> bool" where
  "member_ok dir_off m \<longleftrightarrow> length (mextents m) \<le> MAX_MEMBER_EXTENTS \<and>
     list_all (\<lambda>x. extent_ok x \<and> region_ok dir_off x) (mextents m) \<and> mlen m = sum_list (map snd (mextents m)) \<and> mlen m \<le> u64_max"

definition put_member :: "member \<Rightarrow> bytes" where
  "put_member m = put_list put_extent (mextents m) @ le32 (mxsum m)"

lemma exact_xsum: "exact_wire le32 read_xsum (\<lambda>_. True)"
proof unfold_locales
  fix at b x rest
  assume d: "drop at b = le32 x @ rest" and at: "at \<le> length b"
  then show "read_xsum b at = Inr (x, at + length (le32 x))"
    using get_range_drop [OF d at] by (simp add: read_xsum_def)
next
  fix b at x at'
  assume "read_xsum b at = Inr (x, at')" and "at \<le> length b"
  then obtain y where y: "get_range b at (at + 4) = Some y" "x = u32_of_le y" "at' = at + 4"
    by (auto simp: read_xsum_def bind_res_Inr_iff)
  then show "True \<and> drop at b = le32 x @ drop at' b \<and> at' = at + length (le32 x)"
    using get_range_exact [OF y(1)] by (simp add: le32_u32_of_le)
qed

lemma get_map_Inr: "get_map c f b at = Inr (y, at') \<longleftrightarrow> (\<exists>x. f b at = Inr (x, at') \<and> c x = Inr y)"
  by (auto simp: get_map_def bind_res_Inr_iff split: prod.splits)

lemma get_pair_Inr: "get_pair f g b at = Inr ((x, y), at') \<longleftrightarrow> (\<exists>at1. f b at = Inr (x, at1) \<and> g b at1 = Inr (y, at'))"
  by (auto simp: get_pair_def bind_res_Inr_iff split: prod.splits)

definition member_of :: "nat \<Rightarrow> (nat \<times> nat) list \<times> u32 \<Rightarrow> member outcome" where
  "member_of dir_off = (\<lambda>(xs, ck).
     if length xs \<le> MAX_MEMBER_EXTENTS \<and> sum_list (map snd xs) \<le> u64_max \<and> list_all (region_ok dir_off) xs
     then Inr \<lparr> mextents = xs, mlen = sum_list (map snd xs), mxsum = ck \<rparr> else Inl (Bail ''''))"

lemma member_of_Inr: "member_of dir_off (xs, ck) = Inr m \<longleftrightarrow>
  length xs \<le> MAX_MEMBER_EXTENTS \<and> sum_list (map snd xs) \<le> u64_max \<and> list_all (region_ok dir_off) xs \<and>
  m = \<lparr> mextents = xs, mlen = sum_list (map snd xs), mxsum = ck \<rparr>"
  by (auto simp: member_of_def)

lemma exact_member_of:
  "exact_wire put_member (get_map (member_of dir_off) (get_pair (get_list get_extent) read_xsum)) (member_ok dir_off)"
proof (rule exact_wire_map [OF exact_wire_pair [OF exact_wire_list [OF exact_extent] exact_xsum]])
  fix y assume y: "member_ok dir_off y"
  then have "length (mextents y) \<le> u64_max" by (simp add: member_ok_def MAX_MEMBER_EXTENTS_def u64_max_def)
  then show "\<exists>x. (case x of (x, y) \<Rightarrow> (list_all extent_ok x \<and> length x \<le> u64_max) \<and> True) \<and>
      member_of dir_off x = Inr y \<and> put_member y = (case x of (x, y) \<Rightarrow> put_list put_extent x @ le32 y)"
    using y by (intro exI [of _ "(mextents y, mxsum y)"]) (auto simp: member_ok_def put_member_def member_of_Inr list_all_iff)
qed (auto simp: member_ok_def put_member_def member_of_Inr list_all_iff)

lemma get_list_Inr:
  "get_list g b at = Inr (xs, at') \<longleftrightarrow> (\<exists>n at1. get_varint b at = Inr (n, at1) \<and> get_n g (unat n) b at1 = Inr (xs, at'))"
  by (auto simp: get_list_def bind_res_Inr_iff split: prod.splits)

lemma read_member_Inr:
  assumes "dir_off \<le> u64_max"
  shows "read_member dir_off b at = Inr (m, at') \<longleftrightarrow>
    (\<exists>n at1 xs at2 ck. get_varint b at = Inr (n, at1) \<and> unat n \<le> MAX_MEMBER_EXTENTS \<and>
      get_n get_extent (unat n) b at1 = Inr (xs, at2) \<and> (xs = [] \<or> sum_list (map snd xs) \<le> u64_max) \<and>
      read_xsum b at2 = Inr (ck, at') \<and> list_all (region_ok dir_off) xs \<and>
      m = \<lparr> mextents = xs, mlen = sum_list (map snd xs), mxsum = ck \<rparr>)"
  using assms by (auto simp: read_member_def bind_res_Inr_iff read_extents_iff each_in_region_ok not_less split: prod.splits if_splits)

lemma read_member_of:
  assumes "dir_off \<le> u64_max"
  shows "read_member dir_off b at = Inr (m, at') \<longleftrightarrow>
    get_map (member_of dir_off) (get_pair (get_list get_extent) read_xsum) b at = Inr (m, at')"
proof
  assume "read_member dir_off b at = Inr (m, at')"
  then obtain n at1 xs at2 ck where r: "get_varint b at = Inr (n, at1)" "unat n \<le> MAX_MEMBER_EXTENTS"
      "get_n get_extent (unat n) b at1 = Inr (xs, at2)" "xs = [] \<or> sum_list (map snd xs) \<le> u64_max"
      "read_xsum b at2 = Inr (ck, at')" "list_all (region_ok dir_off) xs"
      "m = \<lparr> mextents = xs, mlen = sum_list (map snd xs), mxsum = ck \<rparr>"
    unfolding read_member_Inr [OF assms] by blast
  from r(3) have "length xs = unat n" by (rule get_n_length)
  with r(2,4,6,7) have "member_of dir_off (xs, ck) = Inr m" by (auto simp: member_of_Inr)
  with r(1,3,5) show "get_map (member_of dir_off) (get_pair (get_list get_extent) read_xsum) b at = Inr (m, at')"
    unfolding get_map_Inr split_paired_Ex get_pair_Inr get_list_Inr by blast
next
  assume "get_map (member_of dir_off) (get_pair (get_list get_extent) read_xsum) b at = Inr (m, at')"
  then obtain n at1 xs at2 ck where r: "get_varint b at = Inr (n, at1)" "get_n get_extent (unat n) b at1 = Inr (xs, at2)"
      "read_xsum b at2 = Inr (ck, at')" and m: "member_of dir_off (xs, ck) = Inr m"
    unfolding get_map_Inr split_paired_Ex get_pair_Inr get_list_Inr by blast
  from r(2) have "length xs = unat n" by (rule get_n_length)
  with r m show "read_member dir_off b at = Inr (m, at')"
    unfolding read_member_Inr [OF assms] member_of_Inr by metis
qed

lemma exact_wire_same:
  assumes "exact_wire put get ok" and "\<And>b at x at'. get' b at = Inr (x, at') \<longleftrightarrow> get b at = Inr (x, at')"
  shows "exact_wire put get' ok"
proof unfold_locales
  fix b at x rest
  assume "drop at b = put x @ rest" and "at \<le> length b" and "ok x"
  then show "get' b at = Inr (x, at + length (put x))"
    unfolding assms(2) by (rule wire.get_put [OF exact_wire.axioms(1) [OF assms(1)]])
next
  fix b at x at'
  assume "get' b at = Inr (x, at')" and "at \<le> length b"
  then show "ok x \<and> drop at b = put x @ drop at' b \<and> at' = at + length (put x)"
    unfolding assms(2) by (rule exact_wire.get_exact [OF assms(1)])
qed

lemma exact_member:
  assumes "dir_off \<le> u64_max"
  shows "exact_wire put_member (read_member dir_off) (member_ok dir_off)"
  by (rule exact_wire_same [OF exact_member_of read_member_of [OF assms]])

definition read_entry :: "nat \<Rightarrow> bytes \<Rightarrow> nat \<Rightarrow> ((bytes \<times> member) \<times> nat) outcome" where
  "read_entry dir_off = get_pair read_name (read_member dir_off)"

lemma member_entry_bytes_put: "member_entry_bytes e = (case e of (name, m) \<Rightarrow> (put_num (length name) @ name) @ put_member m)"
  by (simp add: member_entry_bytes_def put_member_def put_list_def put_extent_def split: prod.split)

lemma exact_entry:
  assumes "dir_off \<le> u64_max"
  shows "exact_wire member_entry_bytes (read_entry dir_off) (\<lambda>(name, m). name_ok name \<and> member_ok dir_off m)"
  using exact_wire_pair [OF exact_name exact_member [OF assms]] unfolding read_entry_def member_entry_bytes_put .

definition precedes :: "bytes option \<Rightarrow> bytes \<Rightarrow> bool" where
  "precedes previous name \<longleftrightarrow> (case previous of None \<Rightarrow> True | Some p \<Rightarrow> p < name)"

definition last_name :: "member_dir \<Rightarrow> bytes option" where
  "last_name dir = (if dir = [] then None else Some (fst (last dir)))"

lemma read_members_Suc:
  "read_members (Suc n) dir_off previous dir b at = Inr (dir', at') \<longleftrightarrow>
    (\<exists>name m at2. read_entry dir_off b at = Inr ((name, m), at2) \<and> precedes previous name \<and> map_of dir name = None \<and>
      read_members n dir_off (Some name) (bt_insert name m dir) b at2 = Inr (dir', at'))"
  by (auto simp: read_entry_def get_pair_Inr bind_res_Inr_iff precedes_def not_le split: prod.splits if_splits option.splits) blast+

lemma bt_ok_snoc:
  assumes "bt_ok dir"
  shows "bt_ok (dir @ [(name, m)]) \<longleftrightarrow> precedes (last_name dir) name"
    and "precedes (last_name dir) name \<Longrightarrow> map_of dir name = None \<and> bt_insert name m dir = dir @ [(name, m)]"
proof -
  have *: "list_all (\<lambda>(a, _). a < name) dir \<longleftrightarrow> precedes (last_name dir) name"
  proof (cases dir rule: rev_cases)
    case (snoc ys y)
    have "a < fst y" if "(a, b) \<in> set ys" for a b
      using assms that by (force simp: snoc bt_ok_def sorted_wrt_append)
    then show ?thesis by (fastforce simp: snoc precedes_def last_name_def list_all_iff)
  qed (simp add: precedes_def last_name_def)
  show "bt_ok (dir @ [(name, m)]) \<longleftrightarrow> precedes (last_name dir) name"
    unfolding * [symmetric] using assms by (auto simp: bt_ok_def sorted_wrt_append list_all_iff)
  show "precedes (last_name dir) name \<Longrightarrow> map_of dir name = None \<and> bt_insert name m dir = dir @ [(name, m)]"
    unfolding * [symmetric] by (auto simp: bt_insert_last map_of_eq_None_iff list_all_iff)
qed

lemma bt_ok_prefix: "bt_ok (xs @ ys) \<Longrightarrow> bt_ok xs"
  by (simp add: bt_ok_def sorted_wrt_append)

lemma read_members_iff:
  "bt_ok dir \<Longrightarrow> read_members n dir_off (last_name dir) dir b at = Inr (dir', at') \<longleftrightarrow>
    (\<exists>es. get_n (read_entry dir_off) n b at = Inr (es, at') \<and> dir' = dir @ es \<and> bt_ok dir')"
proof (induction n arbitrary: dir at)
  case (Suc n)
  have step: "precedes (last_name dir) name \<and> map_of dir name = None \<and>
      read_members n dir_off (Some name) (bt_insert name m dir) b at2 = Inr (dir', at') \<longleftrightarrow>
      (\<exists>es. get_n (read_entry dir_off) n b at2 = Inr (es, at') \<and> dir' = dir @ (name, m) # es \<and> bt_ok dir')" for name m at2
  proof (cases "precedes (last_name dir) name")
    case True
    then have ok: "bt_ok (dir @ [(name, m)])" using bt_ok_snoc(1) [OF Suc.prems] by blast
    have "last_name (dir @ [(name, m)]) = Some name" by (simp add: last_name_def)
    then show ?thesis using True bt_ok_snoc(2) [OF Suc.prems True] Suc.IH [OF ok] by auto
  next
    case False
    then have "\<not> bt_ok (dir @ (name, m) # es)" for es
      using bt_ok_snoc(1) [OF Suc.prems] bt_ok_prefix [of "dir @ [(name, m)]" es] by auto
    then show ?thesis using False by auto
  qed
  have "read_members (Suc n) dir_off (last_name dir) dir b at = Inr (dir', at') \<longleftrightarrow>
      (\<exists>name m at2. read_entry dir_off b at = Inr ((name, m), at2) \<and>
        (\<exists>es. get_n (read_entry dir_off) n b at2 = Inr (es, at') \<and> dir' = dir @ (name, m) # es \<and> bt_ok dir'))"
    unfolding read_members_Suc step ..
  also have "\<dots> \<longleftrightarrow> (\<exists>es. get_n (read_entry dir_off) (Suc n) b at = Inr (es, at') \<and> dir' = dir @ es \<and> bt_ok dir')"
    by (auto simp: bind_res_Inr_iff split: prod.splits)
  finally show ?case .
qed auto

lemma read_members_start:
  "read_members n dir_off None [] b at = Inr (dir, at') \<longleftrightarrow> get_n (read_entry dir_off) n b at = Inr (dir, at') \<and> bt_ok dir"
  using read_members_iff [of "[]" n dir_off b at dir at'] by (auto simp: bt_ok_def last_name_def)

text \<open>Free extents.\<close>

definition free_ok :: "nat \<Rightarrow> nat \<Rightarrow> nat \<times> nat \<times> nat \<Rightarrow> bool" where
  "free_ok seq dir_off = (\<lambda>(off, len, freed_seq). freed_seq \<le> seq \<and> 0 < len \<and> region_ok dir_off (off, len))"

definition put_free :: "nat \<times> nat \<times> nat \<Rightarrow> bytes" where
  "put_free = (\<lambda>(off, len, freed_seq). put_num off @ put_num len @ put_num freed_seq)"

definition get_free :: "nat \<Rightarrow> nat \<Rightarrow> bytes \<Rightarrow> nat \<Rightarrow> ((nat \<times> nat \<times> nat) \<times> nat) outcome" where
  "get_free seq dir_off = get_map (\<lambda>x. if free_ok seq dir_off x then Inr x else Inl (Bail ''''))
     (get_pair get_num (get_pair get_num get_num))"

lemma exact_free:
  assumes "seq \<le> u64_max" and "dir_off \<le> u64_max"
  shows "exact_wire put_free (get_free seq dir_off) (free_ok seq dir_off)"
  unfolding get_free_def
proof (rule exact_wire_map [OF exact_wire_pair [OF exact_num exact_wire_pair [OF exact_num exact_num]]])
  fix y assume y: "free_ok seq dir_off y"
  then have "fst y \<le> u64_max \<and> fst (snd y) \<le> u64_max \<and> snd (snd y) \<le> u64_max"
    using assms by (auto simp: free_ok_def region_ok_def)
  then show "\<exists>x. (case x of (x, y) \<Rightarrow> x \<le> u64_max \<and> (case y of (x, y) \<Rightarrow> x \<le> u64_max \<and> y \<le> u64_max)) \<and>
      (if free_ok seq dir_off x then Inr x else Inl (Bail [])) = Inr y \<and>
      put_free y = (case x of (x, y) \<Rightarrow> put_num x @ (case y of (x, y) \<Rightarrow> put_num x @ put_num y))"
    using y by (intro exI [of _ y]) (auto simp: put_free_def split: prod.splits)
qed (auto simp: put_free_def split: if_splits)

lemma get_nums_Inr:
  "get_pair get_num (get_pair get_num get_num) b at = Inr ((i, j, k), at4) \<longleftrightarrow>
    (\<exists>off at1 l at2 s. get_varint b at = Inr (off, at1) \<and> get_varint b at1 = Inr (l, at2) \<and> get_varint b at2 = Inr (s, at4) \<and>
      i = unat off \<and> j = unat l \<and> k = unat s)"
  unfolding get_pair_Inr get_num_Inr by blast

lemma get_free_checks:
  "get_free seq dir_off b at = Inr (x, at4) \<longleftrightarrow>
     get_pair get_num (get_pair get_num get_num) b at = Inr (x, at4) \<and> free_ok seq dir_off x"
  unfolding get_free_def get_map_Inr by (auto simp del: split_paired_Ex split: if_splits)

lemma get_free_Inr:
  "get_free seq dir_off b at = Inr (x, at4) \<longleftrightarrow>
    (\<exists>off at1 l at2 s. get_varint b at = Inr (off, at1) \<and> get_varint b at1 = Inr (l, at2) \<and> get_varint b at2 = Inr (s, at4) \<and>
      x = (unat off, unat l, unat s) \<and> free_ok seq dir_off (unat off, unat l, unat s))"
  unfolding get_free_checks by (cases x) (auto simp: get_nums_Inr)

lemma read_free_Suc:
  assumes "dir_off \<le> u64_max"
  shows "read_free (Suc n) seq dir_off b at = Inr (xs, at') \<longleftrightarrow>
    (\<exists>x at2 ys. get_free seq dir_off b at = Inr (x, at2) \<and> read_free n seq dir_off b at2 = Inr (ys, at') \<and> xs = x # ys)"
proof (cases "\<exists>off at1 l at2 s at3. get_varint b at = Inr (off, at1) \<and> get_varint b at1 = Inr (l, at2) \<and> get_varint b at2 = Inr (s, at3)")
  case False
  then show ?thesis by (auto simp: get_free_Inr bind_res_Inr_iff split: prod.splits)
next
  case True
  then obtain off at1 l at2 s at3 where g: "get_varint b at = Inr (off, at1)" "get_varint b at1 = Inr (l, at2)"
      "get_varint b at2 = Inr (s, at3)"
    by blast
  show ?thesis
    using assms
    by (auto simp: g get_free_Inr free_ok_def region_ok_def bind_res_Inr_iff checked_add_Some_iff unat_gt_0
        split: prod.splits if_splits)
qed

lemma read_free_iff:
  assumes "dir_off \<le> u64_max"
  shows "read_free n seq dir_off b at = Inr (xs, at') \<longleftrightarrow> get_n (get_free seq dir_off) n b at = Inr (xs, at')"
proof (induction n arbitrary: at xs)
  case (Suc n)
  show ?case unfolding read_free_Suc [OF assms] Suc.IH by (auto simp: bind_res_Inr_iff split: prod.splits)
qed auto

text \<open>Disjoint ranges.\<close>

definition apart :: "nat \<times> nat \<Rightarrow> nat \<times> nat \<Rightarrow> bool" where
  "apart = (\<lambda>(a, n) (b, _). a + n \<le> b)"

definition ranges_apart :: "(nat \<times> nat) list \<Rightarrow> bool" where
  "ranges_apart xs \<longleftrightarrow> sorted_wrt apart (sort xs)"

lemma check_disjoint_iff:
  assumes "list_all (\<lambda>(a, n). a + n \<le> u64_max) xs"
  shows "check_disjoint xs = Inr () \<longleftrightarrow> sorted_wrt apart xs"
  using assms
proof (induction xs rule: check_disjoint.induct)
  case (1 a n b m rest)
  have t: "apart (a, n) x" if "apart (a, n) (b, m)" "apart (b, m) x" for x
    using that by (auto simp: apart_def split: prod.splits)
  have h: "check_disjoint ((a, n) # (b, m) # rest) = Inr () \<longleftrightarrow> apart (a, n) (b, m) \<and> check_disjoint ((b, m) # rest) = Inr ()"
    using 1(2) by (auto simp: apart_def bind_res_Inr_iff checked_add_Some_iff)
  have s: "sorted_wrt apart ((a, n) # (b, m) # rest) \<longleftrightarrow> apart (a, n) (b, m) \<and> sorted_wrt apart ((b, m) # rest)"
    using t by auto
  have "check_disjoint ((b, m) # rest) = Inr () \<longleftrightarrow> sorted_wrt apart ((b, m) # rest)" if "apart (a, n) (b, m)"
    using 1 that by (simp add: apart_def bind_res_Inr_iff checked_add_Some_iff)
  then show ?case unfolding h s by blast
qed auto

text \<open>How many ranges of a list hold the position \<open>p\<close>.\<close>

definition holders :: "(nat \<times> nat) list \<Rightarrow> nat \<Rightarrow> nat" where
  "holders xs p = length (filter (\<lambda>(a, n). a \<le> p \<and> p < a + n) xs)"

lemma holders_sort: "holders (sort xs) p = holders xs p"
proof -
  have "size (mset (filter q (sort xs))) = size (mset (filter q xs))" for q by (simp only: mset_filter mset_sort)
  then show ?thesis by (simp only: holders_def size_mset)
qed

lemma holders_apart: "sorted_wrt apart xs \<Longrightarrow> holders xs p \<le> 1"
proof (induction xs)
  case (Cons x xs)
  show ?case
  proof (cases "fst x \<le> p \<and> p < fst x + snd x")
    case True
    then have "filter (\<lambda>(a, n). a \<le> p \<and> p < a + n) xs = []"
      using Cons.prems by (auto simp: apart_def filter_empty_conv split: prod.splits)
    then show ?thesis by (simp add: holders_def)
  next
    case False
    then show ?thesis using Cons by (auto simp: holders_def)
  qed
qed (simp add: holders_def)

lemma ranges_apart_holders: "ranges_apart xs \<Longrightarrow> holders xs p \<le> 1"
  using holders_apart [of "sort xs" p] by (simp add: ranges_apart_def holders_sort)

text \<open>What a directory has to satisfy, and the bytes it has then.\<close>

definition dir_fits :: "superblock \<Rightarrow> read_limits \<Rightarrow> member_dir \<Rightarrow> free_list \<Rightarrow> bool" where
  "dir_fits sb limits dir free \<longleftrightarrow>
     length dir = unat (sb_n_entries sb) \<and> bt_ok dir \<and>
     list_all (\<lambda>(name, m). name_ok name \<and> member_ok (unat (sb_dir_off sb)) m) dir \<and>
     length free \<le> MAX_FREE_EXTENTS \<and> length free \<le> max_directory_entries limits \<and>
     list_all (free_ok (unat (sb_seq sb)) (unat (sb_dir_off sb))) free \<and>
     ranges_apart (dir_ranges (unat (sb_dir_off sb)) (unat (sb_dir_stored sb)) dir free)"

lemma directory_bytes_put: "directory_bytes dir free = put_list member_entry_bytes dir @ put_list put_free free"
  unfolding directory_bytes_def put_list_def put_free_def by simp

lemma dir_ranges_bounded:
  assumes "list_all (\<lambda>(name, m). member_ok o' m) dir" and "list_all (free_ok s o') free" and "o' + n \<le> u64_max"
  shows "list_all (\<lambda>(a, n). a + n \<le> u64_max) (sort (dir_ranges o' n dir free))"
  using assms by (fastforce simp: dir_ranges_def list_all_iff member_ok_def region_ok_def free_ok_def)

lemma parse_directory_iff:
  assumes "unat (sb_dir_off sb) + unat (sb_dir_stored sb) \<le> u64_max"
  shows "parse_directory sb limits payload = Inr (dir, free) \<longleftrightarrow>
    dir_fits sb limits dir free \<and> payload = directory_bytes dir free"
proof -
  let ?o = "unat (sb_dir_off sb)" and ?s = "unat (sb_seq sb)"
  let ?g = "get_pair (get_list (read_entry ?o)) (get_list (get_free ?s ?o))"
  let ?ok = "\<lambda>(dir, free). (list_all (\<lambda>(name, m). name_ok name \<and> member_ok ?o m) dir \<and> length dir \<le> u64_max) \<and>
    (list_all (free_ok ?s ?o) free \<and> length free \<le> u64_max)"
  have o: "?o \<le> u64_max" and s: "?s \<le> u64_max" by (rule unat_u64_le_max)+
  have w: "exact_wire (\<lambda>(dir, free). put_list member_entry_bytes dir @ put_list put_free free) ?g ?ok"
    using exact_wire_pair [OF exact_wire_list [OF exact_entry [OF o]] exact_wire_list [OF exact_free [OF s o]]]
    by (simp add: case_prod_unfold)
  have "parse_directory sb limits payload = Inr (dir, free) \<longleftrightarrow>
      ?g payload 0 = Inr ((dir, free), length payload) \<and> length dir = unat (sb_n_entries sb) \<and> bt_ok dir \<and>
      length free \<le> MAX_FREE_EXTENTS \<and> length free \<le> max_directory_entries limits \<and>
      check_disjoint (sort (dir_ranges ?o (unat (sb_dir_stored sb)) dir free)) = Inr ()"
    (is "?l \<longleftrightarrow> ?r")
  proof
    assume ?l
    then obtain n at dir' at2 n_free at3 where
      p: "get_varint payload 0 = Inr (n, at)" "unat n = unat (sb_n_entries sb)"
      "read_members (unat n) ?o None [] payload at = Inr (dir, at2)"
      "get_varint payload at2 = Inr (n_free, at3)" "unat n_free \<le> MAX_FREE_EXTENTS" "unat n_free \<le> max_directory_entries limits"
      "read_free (unat n_free) ?s ?o payload at3 = Inr (free, length payload)"
      "check_disjoint (sort (dir_ranges ?o (unat (sb_dir_stored sb)) dir free)) = Inr ()"
      by (auto simp: parse_directory_def bind_res_Inr_iff split: prod.splits if_splits)
    then show ?r
      unfolding read_members_start read_free_iff [OF o] get_pair_Inr get_list_Inr by (auto dest: get_n_length)
  next
    assume r: ?r
    then obtain n at at2 n_free at3 where
      p: "get_varint payload 0 = Inr (n, at)" "get_n (read_entry ?o) (unat n) payload at = Inr (dir, at2)"
      "get_varint payload at2 = Inr (n_free, at3)" "get_n (get_free ?s ?o) (unat n_free) payload at3 = Inr (free, length payload)"
      unfolding get_pair_Inr get_list_Inr by blast
    have l: "length dir = unat n" "length free = unat n_free" using get_n_length [OF p(2)] get_n_length [OF p(4)] by simp_all
    have "read_members (unat n) ?o None [] payload at = Inr (dir, at2)" using p(2) r unfolding read_members_start by blast
    moreover have "read_free (unat n_free) ?s ?o payload at3 = Inr (free, length payload)"
      using p(4) unfolding read_free_iff [OF o] .
    ultimately show ?l using p(1,3) r l by (simp add: parse_directory_def bind_res_Inr_iff)
  qed
  also have "\<dots> \<longleftrightarrow> ?ok (dir, free) \<and> payload = directory_bytes dir free \<and> length dir = unat (sb_n_entries sb) \<and> bt_ok dir \<and>
      length free \<le> MAX_FREE_EXTENTS \<and> length free \<le> max_directory_entries limits \<and>
      check_disjoint (sort (dir_ranges ?o (unat (sb_dir_stored sb)) dir free)) = Inr ()"
    unfolding exact_wire.get_whole [OF w] directory_bytes_put by auto
  also have "\<dots> \<longleftrightarrow> dir_fits sb limits dir free \<and> payload = directory_bytes dir free"
  proof -
    have "length dir \<le> u64_max" if "length dir = unat (sb_n_entries sb)"
      using that unat_less [of "sb_n_entries sb"] by (simp add: u64_max_def)
    moreover have "length free \<le> u64_max" if "length free \<le> MAX_FREE_EXTENTS"
      using that by (simp add: MAX_FREE_EXTENTS_def MAX_MEMBERS_def u64_max_def)
    moreover have "check_disjoint (sort (dir_ranges ?o (unat (sb_dir_stored sb)) dir free)) = Inr () \<longleftrightarrow>
        ranges_apart (dir_ranges ?o (unat (sb_dir_stored sb)) dir free)"
      if "list_all (\<lambda>(name, m). name_ok name \<and> member_ok ?o m) dir" "list_all (free_ok ?s ?o) free"
      unfolding ranges_apart_def
      by (rule check_disjoint_iff [OF dir_ranges_bounded [OF _ that(2) assms]]) (use that(1) in \<open>auto simp: list_all_iff\<close>)
    ultimately show ?thesis by (auto simp: dir_fits_def)
  qed
  finally show ?thesis .
qed

section \<open>The predicted length is the length\<close>

lemma bit_len_le: "bit_len n \<le> k \<longleftrightarrow> n < 2 ^ k"
proof (induction k arbitrary: n)
  case 0
  show ?case by (subst bit_len.simps) simp
next
  case (Suc k)
  show ?case using Suc.IH [of "n div 2"] by (subst bit_len.simps) (auto simp: less_mult_imp_div_less div_less_iff_less_mult)
qed

lemma div_ceil_le:
  assumes "0 < m"
  shows "div_ceil b m \<le> k \<longleftrightarrow> b \<le> m * k"
proof (cases "b mod m = 0")
  case True
  then obtain q where "b = m * q" by auto
  then show ?thesis using assms by (simp add: div_ceil_def)
next
  case False
  then have "b \<noteq> m * k" by auto
  moreover have "b div m < k \<longleftrightarrow> b < m * k" using assms by (simp add: div_less_iff_less_mult mult.commute)
  ultimately show ?thesis using False by (auto simp: div_ceil_def Suc_le_eq)
qed

lemma varint_len_put_num:
  assumes "n \<le> u64_max"
  shows "varint_len n = length (put_num n)"
proof -
  have u: "unat (word_of_nat n :: u64) = n" using assms by (simp add: unat_of_nat u64_max_def)
  have pos: "0 < varint_len n"
    using mult_div_mod_eq [of 7 "max (bit_len n) 1"] by (auto simp: varint_len_def div_ceil_def)
  have pos': "0 < length (put_num n)" by (subst put_varint.simps) (simp add: Let_def)
  have *: "length (put_num n) \<le> k \<longleftrightarrow> varint_len n \<le> k" if "0 < k" for k
  proof -
    have "(128 :: nat) ^ k = 2 ^ (7 * k)" by (simp add: power_mult)
    then have "length (put_num n) \<le> k \<longleftrightarrow> bit_len n \<le> 7 * k"
      using length_put_varint_iff [OF that, of "word_of_nat n"] by (simp add: u bit_len_le)
    also have "\<dots> \<longleftrightarrow> varint_len n \<le> k" using that by (auto simp: varint_len_def div_ceil_le)
    finally show ?thesis .
  qed
  show ?thesis using * [OF pos] * [OF pos'] by simp
qed

text \<open>Checked additions in a row end in the sum, or in the overflow error when the sum does not fit.\<close>

definition summed :: "nat \<Rightarrow> nat outcome" where
  "summed n = (if n \<le> u64_max then Inr n else Inl dir_overflow)"

lemma add_len_summed: "add_len (summed a) n = summed (a + n)"
  by (simp add: add_len_def summed_def checked_add_def)

lemma fold_extent_len:
  "list_all extent_ok xs \<Longrightarrow>
   fold (\<lambda>(off, len) l. add_len (add_len l (varint_len off)) (varint_len len)) xs (summed a) =
     summed (a + length (concat (map put_extent xs)))"
  by (induction xs arbitrary: a) (auto simp: put_extent_def extent_ok_def varint_len_put_num add_len_summed ac_simps)

lemma entry_len_summed:
  assumes "name_ok name" and "member_ok o' m"
  shows "entry_len (summed a) (name, m) = summed (a + length (member_entry_bytes (name, m)))"
proof -
  have "list_all extent_ok (mextents m)" "length name \<le> u64_max" "length (mextents m) \<le> u64_max"
    using assms name_ok_length [OF assms(1)]
    by (auto simp: member_ok_def list_all_iff MAX_NAME_def MAX_MEMBER_EXTENTS_def u64_max_def)
  then show ?thesis
    by (simp add: entry_len_def member_entry_bytes_put put_member_def put_list_def varint_len_put_num add_len_summed
        fold_extent_len Let_def ac_simps)
qed

lemma fold_entry_len:
  "list_all (\<lambda>(name, m). name_ok name \<and> member_ok o' m) dir \<Longrightarrow>
   fold (\<lambda>e l. entry_len l e) dir (summed a) = summed (a + length (concat (map member_entry_bytes dir)))"
  by (induction dir arbitrary: a) (auto simp: entry_len_summed ac_simps)

lemma fold_free_len:
  "list_all (free_ok s o') free \<Longrightarrow> s \<le> u64_max \<Longrightarrow> o' \<le> u64_max \<Longrightarrow>
   fold (\<lambda>(off, len, seq) l. add_len (add_len (add_len l (varint_len off)) (varint_len len)) (varint_len seq)) free (summed a) =
     summed (a + length (concat (map put_free free)))"
  by (induction free arbitrary: a)
    (auto simp: put_free_def free_ok_def region_ok_def varint_len_put_num add_len_summed ac_simps)

lemma encoded_directory_len_summed:
  assumes "list_all (\<lambda>(name, m). name_ok name \<and> member_ok o' m) dir" and "list_all (free_ok s o') free"
    and "s \<le> u64_max" and "o' \<le> u64_max" and "length dir \<le> u64_max" and "length free \<le> u64_max"
  shows "encoded_directory_len dir free = summed (length (directory_bytes dir free))"
proof -
  have "varint_len (length dir) \<le> u64_max"
    using length_put_varint_le [of "word_of_nat (length dir)"] assms(5) by (simp add: varint_len_put_num u64_max_def)
  then have "Inr (varint_len (length dir)) = summed (varint_len (length dir))" by (simp add: summed_def)
  then show ?thesis
    using assms(5,6) fold_entry_len [OF assms(1)] fold_free_len [OF assms(2-4)]
    by (simp add: encoded_directory_len_def directory_bytes_put put_list_def varint_len_put_num add_len_summed Let_def ac_simps)
qed

section \<open>What the format promises\<close>

text \<open>C13. A superblock slot has one spelling per superblock: a 4096-byte slot decodes to a superblock exactly when
  the superblock passes the semantic checks and the slot is the bytes the encoder writes for it, so nothing
  in the slot (reserved bytes and padding included) can differ between two slots that mean the same.\<close>

theorem superblock_slot_exact:
  assumes "\<And>x. 4 \<le> length (blake3 x)" and "length s = SLOT_LEN"
  shows "superblock_decode blake3 s = Inr (Some sb) \<longleftrightarrow> validate_semantics sb = Inr () \<and> s = superblock_encode blake3 sb"
  unfolding validate_semantics_ok
  using superblock_decode_encode [of blake3, OF assms(1)] superblock_decode_exact [OF assms(2), of blake3] by blast

lemma length_superblock_encode: "4 \<le> length (blake3 (superblock_body sb)) \<Longrightarrow> length (superblock_encode blake3 sb) = SLOT_LEN"
  by (simp add: superblock_encode_def SLOT_LEN_def)

lemma superblock_empty_ok: "semantics_ok superblock_empty"
  by (simp add: semantics_ok_def superblock_empty_def is_empty_birth_superblock_def REGION_START_def SLOT_LEN_def)

lemma superblock_slot_exact_witness:
  "superblock_decode (\<lambda>b. replicate 32 (b ! 8)) (superblock_encode (\<lambda>b. replicate 32 (b ! 8)) superblock_empty) =
     Inr (Some superblock_empty)"
proof -
  let ?h = "\<lambda>b :: bytes. replicate 32 (b ! 8)"
  have h: "4 \<le> length (?h x)" for x by simp
  have l: "length (superblock_encode ?h superblock_empty) = SLOT_LEN"
    by (rule length_superblock_encode [OF h])
  show ?thesis 
    by (rule superblock_slot_exact [of ?h, OF h l, THEN iffD2])
      (simp only: validate_semantics_ok superblock_empty_ok simp_thms)
qed

lemma directory_admitted:
  assumes "semantics_ok sb" and "sb_seq sb \<noteq> 0"
  shows "unat (sb_dir_off sb) + unat (sb_dir_stored sb) \<le> u64_max"
  using assms unat_u64_le_max [of "sb_tail sb"] by (simp add: semantics_ok_def)

lemma encode_directory_iff:
  assumes "dir_fits sb limits dir free" and "length dir \<le> u64_max"
  shows "encode_directory dir free = Inr payload \<longleftrightarrow> payload = directory_bytes dir free \<and> length payload \<le> MAX_DIR_RAW"
proof -
  have "length free \<le> u64_max"
    using assms by (simp add: dir_fits_def MAX_FREE_EXTENTS_def MAX_MEMBERS_def u64_max_def)
  then have "encoded_directory_len dir free = summed (length (directory_bytes dir free))"
    using assms unat_u64_le_max [of "sb_seq sb"] unat_u64_le_max [of "sb_dir_off sb"]
    by (intro encoded_directory_len_summed [where s = "unat (sb_seq sb)" and o' = "unat (sb_dir_off sb)"])
      (simp_all add: dir_fits_def)
  then show ?thesis
    by (auto simp: encode_directory_def summed_def MAX_DIR_RAW_def u64_max_def split: if_splits)
qed

text \<open>The length the writer predicts, against which it checks the ceiling before it allocates, is the length it writes.\<close>

lemma encode_directory_predicted:
  assumes "encode_directory dir free = Inr payload" and "dir_fits sb limits dir free" and "length dir \<le> u64_max"
  shows "encoded_directory_len dir free = Inr (length payload)"
proof -
  obtain n where n: "encoded_directory_len dir free = Inr n"
    using assms(1) by (auto simp: encode_directory_def bind_res_Inr_iff)
  have "length free \<le> u64_max"
    using assms by (simp add: dir_fits_def MAX_FREE_EXTENTS_def MAX_MEMBERS_def u64_max_def)
  then have "encoded_directory_len dir free = summed (length (directory_bytes dir free))"
    using assms unat_u64_le_max [of "sb_seq sb"] unat_u64_le_max [of "sb_dir_off sb"]
    by (intro encoded_directory_len_summed [where s = "unat (sb_seq sb)" and o' = "unat (sb_dir_off sb)"])
      (simp_all add: dir_fits_def)
  moreover have "payload = directory_bytes dir free" using encode_directory_iff [OF assms(2,3)] assms(1) by blast
  ultimately show ?thesis using n by (simp add: summed_def split: if_splits)
qed

text \<open>C14. Directory bytes and directories match one to one: under a committed superblock, a payload of an admitted
  length parses to a directory and free list exactly when those are well formed for the superblock (entry count,
  strictly ordered valid names, extents aligned, inside the committed region and disjoint, free extents dated no
  later than the commit), the payload is what the writer encodes for them, and the length the writer predicted before
  it encoded them is the length of the payload.\<close>

theorem directory_exact:
  assumes "validate_semantics sb = Inr ()" and "sb_seq sb \<noteq> 0" and "length payload \<le> MAX_DIR_RAW"
  shows "parse_directory sb limits payload = Inr (dir, free) \<longleftrightarrow>
    dir_fits sb limits dir free \<and> encode_directory dir free = Inr payload \<and>
    encoded_directory_len dir free = Inr (length payload)"
proof -
  have ok: "semantics_ok sb" using assms(1) by simp
  have l: "length dir \<le> u64_max" if "dir_fits sb limits dir free"
    using that unat_less [of "sb_n_entries sb"] by (simp add: dir_fits_def u64_max_def)
  show ?thesis
    unfolding parse_directory_iff [OF directory_admitted [OF ok assms(2)]]
    using encode_directory_iff [OF _ l, of sb limits free payload] encode_directory_predicted [OF _ _ l, of free payload sb limits]
      assms(3) by blast
qed

definition example_sb :: superblock where
  "example_sb = \<lparr> sb_seq = 1, sb_dir_off = 0x4000, sb_dir_stored = 17, sb_dir_raw = 17, sb_n_entries = 1, sb_dir_xsum = 0,
     sb_tail = 0x4011, sb_dir_codec = 0 \<rparr>"

definition example_dir :: member_dir where
  "example_dir = [([97], \<lparr> mextents = [(8192, 5)], mlen = 5, mxsum = 7 \<rparr>)]"

definition example_free :: free_list where
  "example_free = [(12288, 4096, 1)]"

lemma example_sb_ok: "semantics_ok example_sb"
  by (simp add: semantics_ok_def example_sb_def MAX_DIR_STORED_def MAX_DIR_RAW_def MAX_MEMBERS_def REGION_START_def
      SLOT_LEN_def ALIGN_def)

lemma example_dir_fits: "dir_fits example_sb default_limits example_dir example_free"
  by (simp add: dir_fits_def example_sb_def example_dir_def example_free_def bt_ok_def name_ok_def validate_name_def
      member_ok_def extent_ok_def region_ok_def free_ok_def ranges_apart_def dir_ranges_def apart_def container_consts
      default_limits_def default_max_directory_entries_def u64_max_def)

lemma le32_7: "le32 7 = [7, 0, 0, 0]"
  using le32_u32_of_le [of "[7, 0, 0, 0]"] by (simp add: u32_of_le_def)

lemma put_varint_two: "0x80 \<le> v \<Longrightarrow> drop_bit 7 v < 0x80 \<Longrightarrow> put_varint v = [ucast v OR 0x80, ucast (drop_bit 7 v)]"
  by (subst put_varint.simps) (simp add: put_varint_byte not_less)

lemma example_dir_bytes:
  "directory_bytes example_dir example_free = [1, 1, 97, 1, 0x80, 0x40, 5, 7, 0, 0, 0, 1, 0x80, 0x60, 0x80, 0x20, 1]"
  by (simp add: directory_bytes_def member_entry_bytes_def example_dir_def example_free_def put_varint_byte put_varint_two le32_7)

lemma example_encoded:
  "encode_directory example_dir example_free = Inr (directory_bytes example_dir example_free)"
  "length example_dir \<le> u64_max" "length (directory_bytes example_dir example_free) \<le> MAX_DIR_RAW"
proof -
  show l: "length example_dir \<le> u64_max" "length (directory_bytes example_dir example_free) \<le> MAX_DIR_RAW"
    unfolding example_dir_bytes by (simp_all add: example_dir_def MAX_DIR_RAW_def u64_max_def)
  show "encode_directory example_dir example_free = Inr (directory_bytes example_dir example_free)"
    using encode_directory_iff [OF example_dir_fits l(1)] l(2) by blast
qed

lemma example_parses:
  "parse_directory example_sb default_limits (directory_bytes example_dir example_free) = Inr (example_dir, example_free)"
proof -
  have "sb_seq example_sb \<noteq> 0" by (simp add: example_sb_def)
  then show ?thesis
    using parse_directory_iff [OF directory_admitted [OF example_sb_ok]] example_dir_fits by blast
qed

lemma directory_exact_witness:
  "parse_directory example_sb default_limits [1, 1, 97, 1, 0x80, 0x40, 5, 7, 0, 0, 0, 1, 0x80, 0x60, 0x80, 0x20, 1] =
     Inr (example_dir, example_free)"
proof -
  let ?b = "directory_bytes example_dir example_free"
  note e = example_encoded(1) and l = example_encoded(2,3)
  have "validate_semantics example_sb = Inr ()" "sb_seq example_sb \<noteq> 0"
    by (simp_all only: validate_semantics_ok example_sb_ok) (simp add: example_sb_def)
  then show ?thesis
    using directory_exact [of example_sb ?b default_limits example_dir example_free] l(2) e
      encode_directory_predicted [OF e example_dir_fits l(1)] example_dir_fits
    by (simp only: example_dir_bytes simp_thms)
qed

lemma read_directory_owns:
  assumes "validate_semantics sb = Inr ()" and "read_directory crc decompress f sb limits = Inr (dir, free)"
  shows "holders (dir_ranges (unat (sb_dir_off sb)) (unat (sb_dir_stored sb)) dir free) p \<le> 1 \<and>
    distinct (map fst dir) \<and>
    list_all (\<lambda>(_, m). mlen m = sum_list (map snd (mextents m)) \<and> list_all (region_ok (unat (sb_dir_off sb))) (mextents m)) dir \<and>
    list_all (\<lambda>(off, len, _). region_ok (unat (sb_dir_off sb)) (off, len)) free"
proof (cases "sb_seq sb = 0")
  case True
  with assms(2) have "dir = []" "free = []" by (auto simp: read_directory_def split: if_splits)
  then show ?thesis by (simp add: dir_ranges_def holders_def)
next
  case False
  with assms(2) obtain payload where "parse_directory sb limits payload = Inr (dir, free)"
    by (auto simp: read_directory_def bind_res_Inr_iff split: if_splits)
  then have "dir_fits sb limits dir free"
    using parse_directory_iff [OF directory_admitted [OF _ False]] assms(1) by simp
  then show ?thesis
    using ranges_apart_holders
    by (auto simp: dir_fits_def bt_ok_def strict_sorted_iff member_ok_def free_ok_def list_all_iff)
qed

text \<open>C15. A directory that is read gives every byte of the file at most one owner: no position lies in two of the member
  extents, free extents and the directory block, all of them lie in the committed region, no member is named
  twice, and every member's length is the sum of its extents.\<close>

theorem read_directory_owns_once:
  assumes "validate_semantics sb = Inr ()" and "read_directory crc decompress f sb limits = Inr (dir, free)"
  shows "holders (dir_ranges (unat (sb_dir_off sb)) (unat (sb_dir_stored sb)) dir free) p \<le> 1 \<and>
    distinct (map fst dir) \<and>
    list_all (\<lambda>(_, m). mlen m = sum_list (map snd (mextents m)) \<and> list_all (region_ok (unat (sb_dir_off sb))) (mextents m)) dir \<and>
    list_all (\<lambda>(off, len, _). region_ok (unat (sb_dir_off sb)) (off, len)) free"
  by (rule read_directory_owns [OF assms])

lemma read_directory_owns_once_witness:
  "read_directory (\<lambda>_. 0) (\<lambda>_ _ _. Inl (Bail '''')) (\<lambda>_ _. Inr [1, 1, 97, 1, 0x80, 0x40, 5, 7, 0, 0, 0, 1, 0x80, 0x60, 0x80, 0x20, 1])
     example_sb default_limits = Inr (example_dir, example_free) \<and>
   (\<forall>p. holders (dir_ranges 0x4000 17 example_dir example_free) p \<le> 1)"
proof -
  let ?b = "[1, 1, 97, 1, 0x80, 0x40, 5, 7, 0, 0, 0, 1, 0x80, 0x60, 0x80, 0x20, 1] :: bytes"
  have "codec_decode (\<lambda>_ _ _. Inl (Bail '''')) 0 ?b 17 None = Inr ?b" by (simp add: codec_decode_def block_consts)
  moreover have "17 \<le> max_stored_frame_bytes default_limits" "17 \<le> max_decoded_frame_bytes default_limits"
      "1 \<le> max_directory_entries default_limits"
    by (simp_all add: default_limits_def default_max_stored_frame_bytes_def default_max_decoded_frame_bytes_def
        default_max_directory_entries_def)
  ultimately have r: "read_directory (\<lambda>_. 0) (\<lambda>_ _ _. Inl (Bail '''')) (\<lambda>_ _. Inr ?b) example_sb default_limits =
      Inr (example_dir, example_free)"
    using example_parses [unfolded example_dir_bytes]
    by (simp add: read_directory_def example_sb_def container_consts bind_res_Inr_iff checked_add_def u64_max_def)
  have v: "validate_semantics example_sb = Inr ()" by (simp only: validate_semantics_ok example_sb_ok)
  have "holders (dir_ranges 0x4000 17 example_dir example_free) p \<le> 1" for p
    using read_directory_owns_once [OF v r, of p] by (simp add: example_sb_def)
  then show ?thesis using r by blast
qed

end
