(* ===== verification/Container.thy ===== *)
theory Container
  imports ContainerFormat Vfs
begin

text \<open>
  The container (\<open>src/src/container.rs\<close>): a store's artifacts in one mutable file. A handle holds the
  open file, the published superblock it grew from, and the staged directory and free list that the
  next commit publishes. Members are written past the staging cursor \<open>c_tail\<close>; a commit writes the
  directory, syncs, and writes the new superblock into the slot the live one was not read from.

  The libraries are a record of parameters: BLAKE3, CRC-32 with its combination, zstd. \<open>c_at_path\<close> is
  what the container's path names now, for the operations that open the path again.

  The sums over a handle's own extents (\<open>free_bytes\<close>, \<open>member_bytes\<close>) are natural numbers, where the code
  adds \<open>u64\<close> values; the layout invariant keeps them below the file's length. The repeated cancellation
  checks of verification are one check with a constant answer.
\<close>

record prims =
  p_blake3 :: "bytes \<Rightarrow> digest"
  p_crc :: "bytes \<Rightarrow> u32"
  p_crc_combine :: "u32 \<Rightarrow> nat \<Rightarrow> bytes \<Rightarrow> u32"
  p_compress :: compressor
  p_decompress :: decompressor

datatype at_path = Own | Other bytes | Absent

record container =
  c_disk :: disk
  c_at_path :: at_path
  c_file :: nat
  c_dir :: member_dir
  c_free :: free_list
  c_sb :: superblock
  c_tail :: nat
  c_slot :: nat
  c_staged :: bool
  c_open_member :: "nat option"
  c_next_member_token :: nat
  c_poisoned :: bool
  c_failed_selected :: "bool option"
  c_acknowledged :: bool
  c_limits :: read_limits

section \<open>Reading a container\<close>

record container_reader =
  cr_source :: reader
  cr_dir :: member_dir
  cr_seq :: u64
  cr_empty_birth :: bool

text \<open>\<open>source.len()\<close> is asked again when the committed tail passes the first answer.\<close>

definition selected_state ::
  "prims \<Rightarrow> reader \<Rightarrow> nat outcome \<Rightarrow> nat outcome \<Rightarrow> read_limits \<Rightarrow> (superblock \<times> nat \<times> member_dir \<times> free_list) outcome" where
  "selected_state env source len len_again limits =
     bind_res len (\<lambda>len.
     if len < REGION_START then Inl (Bail ''not a container: shorter than its superblocks'')
     else bind_res (source 0 SLOT_LEN) (\<lambda>a.
     bind_res (source SLOT_LEN SLOT_LEN) (\<lambda>b.
     bind_res (superblock_decode (p_blake3 env) a) (\<lambda>sa.
     bind_res (superblock_decode (p_blake3 env) b) (\<lambda>sb.
     bind_res (select_superblock sa sb) (\<lambda>(live, slot).
     bind_res (if unat (sb_tail live) > len
         then bind_res len_again (\<lambda>len.
           if unat (sb_tail live) > len then Inl (Bail ''container is truncated'') else Inr ())
         else Inr ()) (\<lambda>_.
     bind_res (read_directory (p_crc env) (p_decompress env) source live limits) (\<lambda>(dir, free).
     Inr (live, slot, dir, free)))))))))"

definition container_reader_open ::
  "prims \<Rightarrow> reader \<Rightarrow> nat outcome \<Rightarrow> nat outcome \<Rightarrow> read_limits \<Rightarrow> container_reader outcome" where
  "container_reader_open env source len len_again limits =
     bind_res (admitted (validate_limits limits)) (\<lambda>limits.
     bind_res (selected_state env source len len_again limits) (\<lambda>(live, slot, dir, free).
     Inr \<lparr> cr_source = source, cr_dir = dir, cr_seq = sb_seq live, cr_empty_birth = is_empty_birth_superblock live \<rparr>))"

definition member_read :: "reader \<Rightarrow> member_dir \<Rightarrow> bytes \<Rightarrow> nat \<Rightarrow> bytes outcome" where
  "member_read source dir name max_bytes =
     bind_res (ok_or (Bail ''container member not found'') (map_of dir name)) (\<lambda>m.
     if mlen m > max_bytes then Inl (Bail ''container member is over the ceiling'')
     else extents_read source (extents_new (mextents m)) 0 (mlen m))"

definition cr_read_file_bounded :: "container_reader \<Rightarrow> bytes \<Rightarrow> nat \<Rightarrow> bytes outcome" where
  "cr_read_file_bounded r name max_bytes = member_read (cr_source r) (cr_dir r) name max_bytes"

definition cr_member_extents :: "container_reader \<Rightarrow> bytes \<Rightarrow> (nat \<times> nat) list option" where
  "cr_member_extents r name = map_option mextents (map_of (cr_dir r) name)"

definition cr_member_len :: "container_reader \<Rightarrow> bytes \<Rightarrow> nat option" where
  "cr_member_len r name = map_option mlen (map_of (cr_dir r) name)"

definition cr_extent :: "container_reader \<Rightarrow> bytes \<Rightarrow> reader option" where
  "cr_extent r name = map_option (\<lambda>m. extents_read (cr_source r) (extents_new (mextents m))) (map_of (cr_dir r) name)"

section \<open>Opening a handle\<close>

abbreviation c_image :: "container \<Rightarrow> bytes" where
  "c_image c \<equiv> image (c_disk c)"

definition at_disk :: "(disk, 'a) op \<Rightarrow> (container, 'a) op" where
  "at_disk f c = (case f (c_disk c) of (r, d) \<Rightarrow> (r, c\<lparr>c_disk := d\<rparr>))"

definition open_image :: "prims \<Rightarrow> bytes \<Rightarrow> read_limits \<Rightarrow> (superblock \<times> nat \<times> member_dir \<times> free_list) outcome" where
  "open_image env img limits = selected_state env (mem_read img) (Inr (length img)) (Inr (length img)) limits"

definition container_open :: "prims \<Rightarrow> nat \<Rightarrow> disk \<Rightarrow> read_limits \<Rightarrow> container outcome" where
  "container_open env file d limits =
     bind_res (open_image env (image d) limits) (\<lambda>(live, slot, dir, free).
     Inr \<lparr> c_disk = d, c_at_path = Own, c_file = file, c_dir = dir, c_free = free, c_sb = live, c_tail = unat (sb_tail live),
       c_slot = slot, c_staged = False, c_open_member = None, c_next_member_token = 0, c_poisoned = False,
       c_failed_selected = None, c_acknowledged = False, c_limits = limits \<rparr>)"

definition empty_handle :: "nat \<Rightarrow> disk \<Rightarrow> read_limits \<Rightarrow> container" where
  "empty_handle file d limits = \<lparr> c_disk = d, c_at_path = Own, c_file = file, c_dir = [], c_free = [], c_sb = superblock_empty,
     c_tail = REGION_START, c_slot = 0, c_staged = False, c_open_member = None, c_next_member_token = 0,
     c_poisoned = False, c_failed_selected = None, c_acknowledged = True, c_limits = limits \<rparr>"

text \<open>Creation on the fresh file: the birth image, then the barrier. The names it goes through are not modelled.\<close>

definition container_create :: "prims \<Rightarrow> nat \<Rightarrow> read_limits \<Rightarrow> (disk, container) op" where
  "container_create env file limits =
     bind_op (vfs_write_all_at (empty_birth_image (p_blake3 env)) 0) (\<lambda>_.
     bind_op vfs_sync_file (\<lambda>_. \<lambda>d. (Inr (empty_handle file d limits), d)))"

text \<open>What opening \<open>self.path\<close> finds, and whether it is this handle's file.\<close>

definition reopen_path :: "prims \<Rightarrow> container \<Rightarrow> (superblock \<times> nat \<times> member_dir \<times> free_list) outcome \<times> bool" where
  "reopen_path env c =
    (case c_at_path c of
       Own \<Rightarrow> (open_image env (c_image c) (c_limits c), True)
     | Other img \<Rightarrow> (open_image env img (c_limits c), False)
     | Absent \<Rightarrow> (Inl (Bail ''open container''), False))"

definition adopt :: "superblock \<times> nat \<times> member_dir \<times> free_list \<Rightarrow> container \<Rightarrow> container" where
  "adopt = (\<lambda>(live, slot, dir, free) c. c\<lparr> c_dir := dir, c_free := free, c_sb := live, c_tail := unat (sb_tail live),
     c_slot := slot, c_staged := False, c_open_member := None \<rparr>)"

definition WriterLocked :: failure where "WriterLocked = Bail ''writer locked''"

definition lock_writer_current :: "prims \<Rightarrow> bool outcome \<Rightarrow> (container, unit) op" where
  "lock_writer_current env lock =
     bind_op (ask (\<lambda>_. bind_res lock (\<lambda>got. if got then Inr () else Inl WriterLocked))) (\<lambda>_.
     bind_op (ask (\<lambda>c. bind_res (fst (reopen_path env c)) (\<lambda>current.
       if \<not> snd (reopen_path env c) then Inl WriterLocked else Inr current))) (\<lambda>current.
     change (\<lambda>c. (adopt current c)\<lparr> c_poisoned := False, c_acknowledged := False \<rparr>)))"

section \<open>Looking at a handle\<close>

definition c_seq :: "container \<Rightarrow> u64" where "c_seq c = sb_seq (c_sb c)"
definition c_names :: "container \<Rightarrow> bytes list" where "c_names c = map fst (c_dir c)"
definition c_contains :: "container \<Rightarrow> bytes \<Rightarrow> bool" where "c_contains c name \<longleftrightarrow> map_of (c_dir c) name \<noteq> None"
definition c_len :: "container \<Rightarrow> nat" where "c_len c = length (c_dir c)"
definition committed_is_empty_birth :: "container \<Rightarrow> bool" where
  "committed_is_empty_birth c = is_empty_birth_superblock (c_sb c)"

definition free_bytes :: "container \<Rightarrow> nat" where
  "free_bytes c = sum_list (map (\<lambda>(_, len, _). len) (c_free c))"

definition member_bytes :: "container \<Rightarrow> nat" where
  "member_bytes c = sum_list (map (\<lambda>(_, m). mlen m) (c_dir c))"

definition c_member_extents :: "container \<Rightarrow> bytes \<Rightarrow> (nat \<times> nat) list option" where
  "c_member_extents c name = map_option mextents (map_of (c_dir c) name)"

definition c_member_len :: "container \<Rightarrow> bytes \<Rightarrow> nat option" where
  "c_member_len c name = map_option mlen (map_of (c_dir c) name)"

definition c_extent :: "container \<Rightarrow> bytes \<Rightarrow> reader option" where
  "c_extent c name = map_option (\<lambda>m. extents_read (mem_read (c_image c)) (extents_new (mextents m))) (map_of (c_dir c) name)"

definition read_file_bounded :: "container \<Rightarrow> bytes \<Rightarrow> nat \<Rightarrow> bytes outcome" where
  "read_file_bounded c name max_bytes = member_read (mem_read (c_image c)) (c_dir c) name max_bytes"

text \<open>Hole punching inside a member: the loop over its extents.\<close>

fun punch_extents :: "nat \<Rightarrow> nat \<Rightarrow> nat \<Rightarrow> (nat \<times> nat) list \<Rightarrow> (disk, unit) op" where
  "punch_extents remaining at logical [] = change (\<lambda>d. d)"
| "punch_extents remaining at logical ((phys, elen) # es) =
    (if remaining = 0 then change (\<lambda>d. d)
     else let start = logical; logical = logical + elen in
       if at \<ge> logical then punch_extents remaining at logical es
       else let within = at - start; n = min remaining (elen - within) in
         bind_op (vfs_punch_hole (phys + within) n) (\<lambda>_. punch_extents (remaining - n) (at + n) logical es))"

definition punch_within_member :: "bytes \<Rightarrow> nat \<Rightarrow> nat \<Rightarrow> (container, unit) op" where
  "punch_within_member name off len =
     bind_op (ask (\<lambda>c. ok_or (Bail ''container member not found'') (map_of (c_dir c) name))) (\<lambda>m.
     if (case checked_add off len of None \<Rightarrow> True | Some stop \<Rightarrow> stop > mlen m) then
       ask (\<lambda>_. Inl (Bail ''punch exceeds the member''))
     else bind_op (at_disk (punch_extents len off 0 (mextents m))) (\<lambda>_. at_disk vfs_sync_file))"

section \<open>Staging\<close>

definition ensure_writable :: "container \<Rightarrow> unit outcome" where
  "ensure_writable c =
    (if c_poisoned c then Inl (Bail ''container cannot be mutated after an ambiguous publication failure; reopen it'')
     else if c_open_member c \<noteq> None then Inl (Bail ''container has a member write in progress'')
     else Inr ())"

definition ensure_store_writer_usable :: "container \<Rightarrow> unit outcome" where
  "ensure_store_writer_usable c = ensure_writable c"

definition aligned_start :: "container \<Rightarrow> nat outcome" where
  "aligned_start c = align_up (c_tail c)"

definition next_sequence :: "container \<Rightarrow> nat outcome" where
  "next_sequence c = ok_or (Bail ''container sequence space is exhausted'') (checked_add (unat (sb_seq (c_sb c))) 1)"

definition free_ceiling :: failure where
  "free_ceiling = Bail ''container free-extent count would exceed the ceiling''"

definition free_overflow :: failure where
  "free_overflow = Bail ''container free-extent count overflows''"

text \<open>The free-list count after \<open>released\<close> extents and the live directory block join it, within the ceiling.\<close>

definition preflight_free :: "container \<Rightarrow> nat \<Rightarrow> unit outcome" where
  "preflight_free c released =
     bind_res (ok_or free_overflow (checked_add (length (c_free c)) released)) (\<lambda>count.
     bind_res (ok_or free_overflow (checked_add count (if sb_dir_stored (c_sb c) \<noteq> 0 then 1 else 0))) (\<lambda>count.
     if count > MAX_FREE_EXTENTS then Inl free_ceiling else Inr ()))"

definition preflight_replacement :: "container \<Rightarrow> bytes \<Rightarrow> nat \<Rightarrow> unit outcome" where
  "preflight_replacement c name new_extents =
    (if map_of (c_dir c) name = None \<and> length (c_dir c) \<ge> MAX_MEMBERS then
       Inl (Bail ''container member count would exceed the ceiling'')
     else if new_extents > MAX_MEMBER_EXTENTS then Inl (Bail ''container member would exceed the extent ceiling'')
     else preflight_free c (case map_of (c_dir c) name of None \<Rightarrow> 0 | Some m \<Rightarrow> length (mextents m)))"

definition preflight_member :: "container \<Rightarrow> bytes \<Rightarrow> nat \<Rightarrow> nat outcome" where
  "preflight_member c name len =
     bind_res (ensure_writable c) (\<lambda>_.
     bind_res (validate_name name) (\<lambda>_.
     bind_res (aligned_start c) (\<lambda>off.
     bind_res (ok_or (Bail ''container member end overflows'') (checked_add off len)) (\<lambda>_.
     bind_res (next_sequence c) (\<lambda>_.
     bind_res (preflight_replacement c name (if len \<noteq> 0 then 1 else 0)) (\<lambda>_.
     Inr off))))))"

definition freed_at :: "nat \<Rightarrow> (nat \<times> nat) list \<Rightarrow> free_list" where
  "freed_at seq xs = map (\<lambda>(off, len). (off, len, seq)) xs"

definition stage_entry :: "bytes \<Rightarrow> nat \<Rightarrow> nat \<Rightarrow> u32 \<Rightarrow> (container, unit) op" where
  "stage_entry name off len ck =
     bind_op (ask (\<lambda>_. ok_or (Bail ''container member end overflows'') (checked_add off len))) (\<lambda>tail.
     bind_op (ask next_sequence) (\<lambda>next_seq.
     change (\<lambda>c. c\<lparr> c_dir := bt_insert name \<lparr> mextents = (if len = 0 then [] else [(off, len)]), mlen = len, mxsum = ck \<rparr> (c_dir c),
       c_free := c_free c @ (case map_of (c_dir c) name of None \<Rightarrow> [] | Some old \<Rightarrow> freed_at next_seq (mextents old)),
       c_tail := tail, c_staged := True \<rparr>)))"

definition container_put_bytes :: "prims \<Rightarrow> bytes \<Rightarrow> bytes \<Rightarrow> (container, unit) op" where
  "container_put_bytes env name data =
     bind_op (ask (\<lambda>c. preflight_member c name (length data))) (\<lambda>off.
     bind_op (at_disk (vfs_write_all_at data off)) (\<lambda>_.
     stage_entry name off (length data) (p_crc env data)))"

text \<open>
  The windowed copy loop that \<open>put_stream\<close> and \<open>append_stream\<close> run: \<open>fill\<close> is the callback, with the offset and
  the size of the window; the answer is every byte that went by, which is what the hasher has seen.
\<close>

function copy_loop :: "(nat \<Rightarrow> nat \<Rightarrow> bytes outcome) \<Rightarrow> nat \<Rightarrow> nat \<Rightarrow> nat \<Rightarrow> (disk, bytes) op" where
  "copy_loop fill off len at =
    (if at < len then
       let n = min (min (2 ^ 20) (max len 1)) (len - at) in
       bind_op (ask (\<lambda>_. fill at n)) (\<lambda>window.
       bind_op (ask (\<lambda>_. ok_or (Bail ''container stream offset overflows'') (checked_add off at))) (\<lambda>write_at.
       bind_op (vfs_write_all_at window write_at) (\<lambda>_.
       bind_op (copy_loop fill off len (at + n)) (\<lambda>rest. ask (\<lambda>_. Inr (window @ rest))))))
     else ask (\<lambda>_. Inr []))"
  by pat_completeness auto
termination by (relation "measure (\<lambda>(fill, off, len, at). len - at)") auto

declare copy_loop.simps [simp del]

definition put_stream :: "prims \<Rightarrow> bytes \<Rightarrow> nat \<Rightarrow> (nat \<Rightarrow> nat \<Rightarrow> bytes outcome) \<Rightarrow> (container, unit) op" where
  "put_stream env name len fill =
     bind_op (ask (\<lambda>c. preflight_member c name len)) (\<lambda>off.
     bind_op (at_disk (copy_loop fill off len 0)) (\<lambda>data.
     stage_entry name off len (p_crc env data)))"

text \<open>Does the member's last extent end at the staging cursor?\<close>

definition coalesces :: "container \<Rightarrow> member \<Rightarrow> bool outcome" where
  "coalesces c m =
    (if mextents m = [] then Inr False
     else bind_res (ok_or (Bail ''container member extent end overflows'')
         (checked_add (fst (last (mextents m))) (snd (last (mextents m))))) (\<lambda>stop. Inr (stop = c_tail c)))"

text \<open>The checks before an extension: whether it coalesces, where it is written, and where it stops.\<close>

definition preflight_append :: "container \<Rightarrow> bytes \<Rightarrow> nat \<Rightarrow> (member \<times> bool \<times> nat \<times> nat) outcome" where
  "preflight_append c name len =
     bind_res (ok_or (Bail ''container member not found'') (map_of (c_dir c) name)) (\<lambda>m.
     bind_res (preflight_free c 0) (\<lambda>_.
     bind_res (next_sequence c) (\<lambda>_.
     bind_res (ok_or (Bail ''container member length overflows'') (checked_add (mlen m) len)) (\<lambda>_.
     bind_res (coalesces c m) (\<lambda>coalesce.
     if \<not> coalesce \<and> length (mextents m) \<ge> MAX_MEMBER_EXTENTS then
       Inl (Bail ''container member would exceed the extent ceiling'')
     else bind_res (if coalesce then Inr (c_tail c) else aligned_start c) (\<lambda>write_off.
     bind_res (ok_or (Bail ''container tail overflows'') (checked_add write_off len)) (\<lambda>write_end.
     bind_res (if coalesce then ok_or (Bail ''container member extent length overflows'')
                 (checked_add (snd (last (mextents m))) len)
               else Inr 0) (\<lambda>_.
     Inr (m, coalesce, write_off, write_end)))))))))"

definition extended :: "prims \<Rightarrow> member \<Rightarrow> bool \<Rightarrow> nat \<Rightarrow> nat \<Rightarrow> bytes \<Rightarrow> member" where
  "extended env m coalesce write_off len delta =
     \<lparr> mextents = (if coalesce then butlast (mextents m) @ [(fst (last (mextents m)), snd (last (mextents m)) + len)]
                   else mextents m @ [(write_off, len)]),
       mlen = mlen m + len, mxsum = p_crc_combine env (mxsum m) (mlen m) delta \<rparr>"

definition append_stream :: "prims \<Rightarrow> bytes \<Rightarrow> nat \<Rightarrow> (nat \<Rightarrow> nat \<Rightarrow> bytes outcome) \<Rightarrow> (container, unit) op" where
  "append_stream env name len fill =
     bind_op (ask ensure_writable) (\<lambda>_.
     if len = 0 then ask (\<lambda>_. Inr ())
     else bind_op (ask (\<lambda>c. preflight_append c name len)) (\<lambda>(m, coalesce, write_off, write_end).
       bind_op (at_disk (copy_loop fill write_off len 0)) (\<lambda>delta.
       change (\<lambda>c. c\<lparr> c_dir := bt_insert name (extended env m coalesce write_off len delta) (c_dir c),
         c_tail := write_end, c_staged := True \<rparr>))))"

definition container_remove :: "bytes \<Rightarrow> (container, bool) op" where
  "container_remove name =
     bind_op (ask ensure_writable) (\<lambda>_.
     bind_op (ask next_sequence) (\<lambda>freed_seq.
     bind_op (ask (\<lambda>c. Inr (map_of (c_dir c) name))) (\<lambda>found.
     case found of
       Some m \<Rightarrow>
         bind_op (ask (\<lambda>c. preflight_free c (length (mextents m)))) (\<lambda>_.
         bind_op (change (\<lambda>c. c\<lparr> c_dir := bt_remove name (c_dir c), c_free := c_free c @ freed_at freed_seq (mextents m),
           c_staged := True \<rparr>)) (\<lambda>_. ask (\<lambda>_. Inr True)))
     | None \<Rightarrow> ask (\<lambda>_. Inr False))))"

section \<open>Writing a member piece by piece\<close>

record member_write =
  mw_file :: nat
  mw_token :: nat
  mw_name :: bytes
  mw_off :: nat
  mw_written :: nat
  mw_seen :: bytes

text \<open>\<open>mw_seen\<close> is what both hashers have been fed.\<close>

definition begin_member :: "bytes \<Rightarrow> (container, member_write) op" where
  "begin_member name =
     bind_op (ask ensure_writable) (\<lambda>_.
     bind_op (ask (\<lambda>_. validate_name name)) (\<lambda>_.
     bind_op (ask (\<lambda>c. preflight_replacement c name 1)) (\<lambda>_.
     bind_op (ask aligned_start) (\<lambda>off.
     bind_op (ask next_sequence) (\<lambda>_.
     bind_op (ask (\<lambda>c. ok_or (Bail ''container member-write token space is exhausted'')
       (checked_add (c_next_member_token c) 1))) (\<lambda>token.
     bind_op (change (\<lambda>c. c\<lparr> c_next_member_token := token, c_open_member := Some token \<rparr>)) (\<lambda>_.
     ask (\<lambda>c. Inr \<lparr> mw_file = c_file c, mw_token = token, mw_name = name, mw_off = off, mw_written = 0, mw_seen = [] \<rparr>))))))))"

definition sink_refused :: failure where "sink_refused = Bail ''sinks are sequential''"

text \<open>\<open>MemberWrite::write_all_at\<close>, on the file the handle shares with its container.\<close>

definition sink_write_all_at :: "bytes \<Rightarrow> nat \<Rightarrow> (disk \<times> member_write, unit) op" where
  "sink_write_all_at data off = (\<lambda>(d, w).
    (if off \<noteq> mw_written w then (Inl sink_refused, (d, w))
     else case checked_add (mw_written w) (length data) of
       None \<Rightarrow> (Inl (Bail ''member length overflows''), (d, w))
     | Some written \<Rightarrow>
         (case checked_add (mw_off w) off of
            None \<Rightarrow> (Inl (Bail ''member offset overflows''), (d, w))
          | Some physical \<Rightarrow>
              (case checked_add physical (length data) of
                 None \<Rightarrow> (Inl (Bail ''member end overflows''), (d, w))
               | Some _ \<Rightarrow>
                   (case vfs_write_all_at data physical d of
                      (Inl e, d) \<Rightarrow> (Inl e, (d, w))
                    | (Inr _, d) \<Rightarrow> (Inr (), (d, w\<lparr> mw_seen := mw_seen w @ data, mw_written := written \<rparr>)))))))"

definition check_current :: "member_write \<Rightarrow> container \<Rightarrow> unit outcome" where
  "check_current w c =
    (if c_open_member c \<noteq> Some (mw_token w) \<or> c_file c \<noteq> mw_file w then
       (if c_open_member c = None then Inl (Bail ''container has no member write in progress'')
        else Inl (Bail ''member write is not the current write of the container''))
     else Inr ())"

definition finish_member :: "prims \<Rightarrow> member_write \<Rightarrow> (container, digest) op" where
  "finish_member env w =
     bind_op (ask (check_current w)) (\<lambda>_.
     bind_op (change (\<lambda>c. c\<lparr> c_open_member := None \<rparr>)) (\<lambda>_.
     bind_op (stage_entry (mw_name w) (mw_off w) (mw_written w) (p_crc env (mw_seen w))) (\<lambda>_.
     ask (\<lambda>_. Inr (p_blake3 env (mw_seen w))))))"

definition abandon_open_member :: "container \<Rightarrow> container" where
  "abandon_open_member c = c\<lparr> c_open_member := None \<rparr>"

definition abandon_member :: "member_write \<Rightarrow> (container, unit) op" where
  "abandon_member w = bind_op (ask (check_current w)) (\<lambda>_. change abandon_open_member)"

definition discard_staged :: "prims \<Rightarrow> (container, unit) op" where
  "discard_staged env =
     bind_op (ask (\<lambda>c. read_directory (p_crc env) (p_decompress env) (mem_read (c_image c)) (c_sb c) (c_limits c))) (\<lambda>(dir, free).
     change (\<lambda>c. c\<lparr> c_dir := dir, c_free := free, c_tail := unat (sb_tail (c_sb c)), c_staged := False,
       c_open_member := None \<rparr>))"

section \<open>Publication\<close>

definition next_free_list :: "container \<Rightarrow> nat \<Rightarrow> free_list" where
  "next_free_list c next_seq = c_free c @
     (if sb_dir_stored (c_sb c) > 0 then [(unat (sb_dir_off (c_sb c)), unat (sb_dir_stored (c_sb c)), next_seq)] else [])"

definition u32_field :: "string \<Rightarrow> nat \<Rightarrow> u32 outcome" where
  "u32_field what n = (if n \<le> u32_max then Inr (word_of_nat n) else Inl (Bail what))"

text \<open>The staged state is encoded and checked against every ceiling before anything is written.\<close>

definition prepare_commit :: "prims \<Rightarrow> container \<Rightarrow> (nat \<times> free_list \<times> bytes \<times> byte \<times> bytes \<times> nat) outcome" where
  "prepare_commit env c =
     bind_res (next_sequence c) (\<lambda>next_seq.
     if length (c_dir c) > MAX_MEMBERS then Inl (Bail ''container member count exceeds the ceiling'')
     else if list_ex (\<lambda>(_, m). length (mextents m) > MAX_MEMBER_EXTENTS) (c_dir c) then
       Inl (Bail ''container member exceeds the extent ceiling'')
     else let next_free = next_free_list c next_seq in
       if length next_free > MAX_FREE_EXTENTS then Inl (Bail ''container free-extent count exceeds the ceiling'')
       else bind_res (encode_directory (c_dir c) next_free) (\<lambda>payload.
         bind_res (codec_encode (p_compress env) payload None 3) (\<lambda>(dir_codec, stored).
         if length stored > MAX_DIR_STORED then Inl (Bail ''container directory is over the ceiling'')
         else bind_res (align_up (c_tail c)) (\<lambda>dir_off.
           Inr (next_seq, next_free, payload, dir_codec, stored, dir_off)))))"

definition reconcile_after_publication_failure :: "prims \<Rightarrow> superblock \<Rightarrow> nat \<Rightarrow> container \<Rightarrow> container" where
  "reconcile_after_publication_failure env attempted attempted_slot c =
    (let c = c\<lparr> c_poisoned := True, c_failed_selected := None \<rparr> in
     case reopen_path env c of
       (Inr (live, slot, dir, free), True) \<Rightarrow>
         let selected = (slot = attempted_slot \<and> live = attempted) in
         (adopt (live, slot, dir, free) c)\<lparr> c_failed_selected := Some selected, c_poisoned := \<not> selected,
           c_acknowledged := \<not> selected \<rparr>
     | _ \<Rightarrow> c)"

text \<open>An error of the slot write or of its barrier is returned after the handle has looked which state is selected.\<close>

definition flip :: "prims \<Rightarrow> superblock \<Rightarrow> (container, u64) op" where
  "flip env sb c =
    (let next_slot = 1 - c_slot c; c = c\<lparr> c_failed_selected := None \<rparr> in
     case bind_op (at_disk (vfs_write_all_at (superblock_encode (p_blake3 env) sb) (next_slot * SLOT_LEN)))
         (\<lambda>_. at_disk vfs_sync_file) c of
       (Inl e, c) \<Rightarrow> (Inl e, reconcile_after_publication_failure env sb next_slot c)
     | (Inr _, c) \<Rightarrow> (Inr (sb_seq sb), c\<lparr> c_sb := sb, c_tail := unat (sb_tail sb), c_slot := next_slot, c_staged := False,
         c_acknowledged := True \<rparr>))"

definition commit_staged :: "prims \<Rightarrow> (container, u64) op" where
  "commit_staged env =
     bind_op (ask (prepare_commit env)) (\<lambda>(next_seq, next_free, payload, dir_codec, stored, dir_off).
     bind_op (at_disk (vfs_write_all_at stored dir_off)) (\<lambda>_.
     bind_op (ask (\<lambda>_. ok_or (Bail ''container directory end overflows'') (checked_add dir_off (length stored)))) (\<lambda>tail.
     bind_op (ask (\<lambda>_. u32_field ''container stored directory length exceeds its u32 field'' (length stored))) (\<lambda>dir_stored.
     bind_op (ask (\<lambda>_. u32_field ''container raw directory length exceeds u32'' (length payload))) (\<lambda>dir_raw.
     bind_op (ask (\<lambda>c. u32_field ''container member count exceeds u32'' (length (c_dir c)))) (\<lambda>n_entries.
     bind_op (at_disk vfs_sync_file) (\<lambda>_.
     bind_op (flip env \<lparr> sb_seq = word_of_nat next_seq, sb_dir_off = word_of_nat dir_off, sb_dir_stored = dir_stored,
       sb_dir_raw = dir_raw, sb_n_entries = n_entries, sb_dir_xsum = p_crc env stored, sb_tail = word_of_nat tail,
       sb_dir_codec = dir_codec \<rparr>) (\<lambda>sequence.
     bind_op (change (\<lambda>c. c\<lparr> c_free := next_free \<rparr>)) (\<lambda>_. ask (\<lambda>_. Inr sequence))))))))))"

definition acknowledge_current_state :: "(container, unit) op" where
  "acknowledge_current_state =
     bind_op (ask ensure_writable) (\<lambda>_.
     bind_op (ask (\<lambda>c. Inr (c_acknowledged c))) (\<lambda>acknowledged.
     if acknowledged then ask (\<lambda>_. Inr ())
     else bind_op (at_disk vfs_sync_file) (\<lambda>_. change (\<lambda>c. c\<lparr> c_acknowledged := True \<rparr>))))"

text \<open>A failed preparation or pre-flip barrier drops the staged view and poisons the handle.\<close>

definition commit_failed :: "prims \<Rightarrow> container \<Rightarrow> container" where
  "commit_failed env c =
    (if c_failed_selected c = None then
       (snd (discard_staged env c))\<lparr> c_poisoned := True, c_acknowledged := False \<rparr>
     else c)"

definition container_commit :: "prims \<Rightarrow> (container, u64) op" where
  "container_commit env =
     bind_op (ask ensure_writable) (\<lambda>_.
     bind_op (ask (\<lambda>c. Inr (c_staged c))) (\<lambda>staged.
     if \<not> staged then bind_op acknowledge_current_state (\<lambda>_. ask (\<lambda>c. Inr (sb_seq (c_sb c))))
     else bind_op (change (\<lambda>c. c\<lparr> c_failed_selected := None \<rparr>)) (\<lambda>_. \<lambda>c.
       case commit_staged env c of
         (Inl e, c) \<Rightarrow> (Inl e, commit_failed env c)
       | (Inr s, c) \<Rightarrow> (Inr s, c))))"

section \<open>Maintenance\<close>

record free_punch_stats =
  fp_examined :: nat
  fp_punched_extents :: nat
  fp_punched_bytes :: nat
  fp_deferred_extents :: nat
  fp_edge_bytes :: nat

text \<open>The aligned interior of a free extent; there is nothing to punch where it ends before it starts.\<close>

definition interior :: "nat \<Rightarrow> nat \<Rightarrow> (nat \<times> nat) outcome" where
  "interior off len = bind_res (align_up off) (\<lambda>lo. Inr (lo, (off + len) div ALIGN * ALIGN))"

fun punch_free_loop :: "nat \<Rightarrow> nat \<Rightarrow> free_list \<Rightarrow> free_punch_stats \<Rightarrow> (disk, free_punch_stats) op" where
  "punch_free_loop grace seq [] st = ask (\<lambda>_. Inr st)"
| "punch_free_loop grace seq ((off, len, freed_seq) # xs) st =
    (let st = st\<lparr> fp_examined := fp_examined st + 1 \<rparr> in
     if sat_add freed_seq grace > seq then
       punch_free_loop grace seq xs (st\<lparr> fp_deferred_extents := fp_deferred_extents st + 1 \<rparr>)
     else bind_op (ask (\<lambda>_. interior off len)) (\<lambda>(lo, hi).
       let st = st\<lparr> fp_edge_bytes := fp_edge_bytes st + min (lo - off) len + (off + len - max hi lo) \<rparr> in
       if hi \<le> lo then punch_free_loop grace seq xs st
       else bind_op (vfs_punch_hole lo (hi - lo)) (\<lambda>_.
         punch_free_loop grace seq xs (st\<lparr> fp_punched_extents := fp_punched_extents st + 1,
           fp_punched_bytes := fp_punched_bytes st + (hi - lo) \<rparr>))))"

definition punch_free_extents :: "nat \<Rightarrow> (container, free_punch_stats) op" where
  "punch_free_extents grace =
     bind_op (\<lambda>c. at_disk (punch_free_loop grace (unat (sb_seq (c_sb c))) (c_free c)
       \<lparr> fp_examined = 0, fp_punched_extents = 0, fp_punched_bytes = 0, fp_deferred_extents = 0, fp_edge_bytes = 0 \<rparr>) c) (\<lambda>st.
     bind_op (if fp_punched_extents st > 0 then at_disk vfs_sync_file else change (\<lambda>c. c)) (\<lambda>_. ask (\<lambda>_. Inr st)))"

text \<open>Verification of every member of the selected state. \<open>ignored\<close> are the members that the fold layer vouches
  for, \<open>check\<close> the operation control.\<close>

fun verify_members :: "prims \<Rightarrow> unit outcome \<Rightarrow> bytes \<Rightarrow> bytes set \<Rightarrow> member_dir \<Rightarrow> unit outcome" where
  "verify_members env check img ignored [] = Inr ()"
| "verify_members env check img ignored ((name, m) # dir) =
     bind_res check (\<lambda>_.
     if name \<in> ignored then verify_members env check img ignored dir
     else bind_res (extents_read (mem_read img) (extents_new (mextents m)) 0 (mlen m)) (\<lambda>data.
       if p_crc env data \<noteq> mxsum m then Inl (Bail ''container member fails its checksum'')
       else verify_members env check img ignored dir))"

definition container_verify :: "prims \<Rightarrow> unit outcome \<Rightarrow> (container \<Rightarrow> bytes set outcome) \<Rightarrow> read_limits \<Rightarrow> container \<Rightarrow> nat outcome" where
  "container_verify env check punched limits c =
     bind_res (read_directory (p_crc env) (p_decompress env) (mem_read (c_image c)) (c_sb c) limits) (\<lambda>(dir, free).
     let view = c\<lparr> c_dir := dir, c_free := free, c_tail := unat (sb_tail (c_sb c)), c_staged := False, c_open_member := None,
       c_next_member_token := 0, c_poisoned := False, c_failed_selected := None, c_limits := limits \<rparr> in
     bind_res (punched view) (\<lambda>ignored.
     bind_res (verify_members env check (c_image view) ignored dir) (\<lambda>_. Inr (length dir))))"

end
