(* ===== verification/ContainerStage.thy ===== *)
theory ContainerStage
  imports Container "HOL-Library.Multiset"
begin

text \<open>
  What staging promises. The extents of the members, the free extents and the live directory block never
  share a byte, lie between the superblocks and the staging cursor, and lie in the file. Under that
  invariant a container is a map from names to byte strings, and the staging operations are the
  operations of the map; a failed one leaves the map as it was.
\<close>

section \<open>Writing past the cursor\<close>

text \<open>\<open>grows t b b'\<close>: the file did not shrink and every byte before \<open>t\<close> is what it was.\<close>

definition grows :: "nat \<Rightarrow> bytes \<Rightarrow> bytes \<Rightarrow> bool" where
  "grows t b b' \<longleftrightarrow> length b \<le> length b' \<and> take (min t (length b)) b' = take (min t (length b)) b"

lemma grows_refl [simp]: "grows t b b"
  by (simp add: grows_def)

lemma take_eq_mono: "take n xs = take n ys \<Longrightarrow> m \<le> n \<Longrightarrow> take m xs = take m ys"
  by (metis min.absorb1 take_take)

lemma grows_mono: "grows t b b' \<Longrightarrow> s \<le> t \<Longrightarrow> grows s b b'"
  unfolding grows_def by (auto intro: take_eq_mono)

lemma grows_trans:
  assumes "grows t a b" and "grows t b c"
  shows "grows t a c"
proof -
  have "take (min t (length a)) c = take (min t (length a)) b"
    using assms take_eq_mono [of "min t (length b)" c b "min t (length a)"] by (simp add: grows_def min.coboundedI2)
  then show ?thesis using assms by (simp add: grows_def)
qed

lemma grows_slice:
  assumes "grows t b b'" and "i + n \<le> t" and "i + n \<le> length b"
  shows "slice b' i (i + n) = slice b i (i + n)"
proof -
  have "take (i + n) b' = take (i + n) b"
    using assms by (auto simp: grows_def intro: take_eq_mono [of "min t (length b)"])
  then have "drop i (take (i + n) b') = drop i (take (i + n) b)" by simp
  then show ?thesis by (simp add: slice_def drop_take)
qed

lemma grows_mem_read:
  assumes "grows t b b'" and "i + n \<le> t" and "mem_read b i n = Inr x"
  shows "mem_read b' i n = Inr x"
  using assms grows_slice [OF assms(1,2)] by (auto simp: mem_read_Inr_iff grows_def)

lemma grows_overlay: "t \<le> off \<Longrightarrow> grows t b (overlay b off data)"
  by (cases "data = []") (auto simp: grows_def overlay_def min_def)

lemma slice_overlay: "slice (overlay b off data) off (off + length data) = data"
  by (cases "data = []") (auto simp: overlay_def slice_def)

definition noise :: "nat \<Rightarrow> disk \<Rightarrow> disk \<Rightarrow> bool" where
  "noise t d d' \<longleftrightarrow> grows t (image d) (image d') \<and> durable d' = durable d \<and>
     (length (image d) \<le> u64_max \<longrightarrow> length (image d') \<le> u64_max)"

lemma noise_refl [simp]: "noise t d d"
  by (simp add: noise_def)

lemma noise_trans: "noise t a b \<Longrightarrow> noise t b c \<Longrightarrow> noise t a c"
  by (auto simp: noise_def intro: grows_trans)

lemma noise_mono: "noise t a b \<Longrightarrow> s \<le> t \<Longrightarrow> noise s a b"
  by (auto simp: noise_def intro: grows_mono)

lemma write_noise:
  assumes "vfs_write_all_at data off d = (r, d')" and "off + length data \<le> u64_max"
  shows "noise off d d'" and "r = Inr u \<Longrightarrow> image d' = overlay (image d) off data"
proof -
  obtain f d1 where nf: "next_fault d = (f, d1)" by (cases "next_fault d")
  have g: "grows off (image d) (overlay (image d) off (take n data))" for n by (rule grows_overlay) simp
  have l: "length (image d) \<le> u64_max \<Longrightarrow> length (overlay (image d) off (take n data)) \<le> u64_max" for n
    using assms(2) by (auto simp: length_overlay)
  show "noise off d d'"
    using assms(1) nf g [of "length data"] l [of "length data"] g l
    by (cases f) (auto simp: vfs_write_all_at_def noise_def)
  show "r = Inr u \<Longrightarrow> image d' = overlay (image d) off data"
    using assms(1) nf by (cases f) (auto simp: vfs_write_all_at_def)
qed

text \<open>The copy loop, for a callback that yields the bytes of \<open>data\<close> or fails.\<close>

definition fills :: "(nat \<Rightarrow> nat \<Rightarrow> bytes outcome) \<Rightarrow> bytes \<Rightarrow> bool" where
  "fills fill data \<longleftrightarrow> (\<forall>at n b. at + n \<le> length data \<and> fill at n = Inr b \<longrightarrow> b = slice data at (at + n))"

lemma copy_loop_noise:
  assumes "fills fill data" and "off + length data \<le> u64_max"
  shows "at \<le> length data \<Longrightarrow> copy_loop fill off (length data) at d = (r, d') \<Longrightarrow>
    noise (off + at) d d' \<and>
    (\<forall>x. r = Inr x \<longrightarrow> x = drop at data \<and> slice (image d') (off + at) (off + length data) = x \<and>
      (at < length data \<longrightarrow> off + length data \<le> length (image d')))"
proof (induction "length data - at" arbitrary: at d r d' rule: less_induct)
  case less
  show ?case
  proof (cases "at < length data")
    case False
    then have "copy_loop fill off (length data) at d = (Inr [], d)" by (subst copy_loop.simps) (simp add: ask_def)
    then show ?thesis using less.prems False by (auto simp: slice_def)
  next
    case True
    define n where "n = min (min (2 ^ 20) (max (length data) 1)) (length data - at)"
    have n: "0 < n" "at + n \<le> length data" using True by (auto simp: n_def)
    note run = copy_loop.simps [of fill off "length data" at, unfolded Let_def, folded n_def]
    show ?thesis
    proof (cases "fill at n")
      case (Inl e)
      then have "copy_loop fill off (length data) at d = (Inl e, d)" using True by (subst run) simp
      then show ?thesis using less.prems by auto
    next
      case (Inr b)
      then have b: "b = slice data at (at + n)" using assms(1) n(2) by (auto simp: fills_def)
      then have lb: "length b = n" using n(2) by simp
      obtain r1 d1 where w: "vfs_write_all_at b (off + at) d = (r1, d1)" by (cases "vfs_write_all_at b (off + at) d")
      have bound: "off + at + length b \<le> u64_max" using assms(2) n(2) lb by simp
      note w1 = write_noise(1) [OF w bound] and w2 = write_noise(2) [OF w bound]
      have chk: "checked_add off at = Some (off + at)" using assms(2) True by (simp add: checked_add_Some_iff)
      have loop: "copy_loop fill off (length data) at d = bind_op (vfs_write_all_at b (off + at)) (\<lambda>_.
          bind_op (copy_loop fill off (length data) (at + n)) (\<lambda>rest. ask (\<lambda>_. Inr (b @ rest)))) d"
        using True Inr chk by (subst run) simp
      show ?thesis
      proof (cases r1)
        case (Inl e)
        then have "copy_loop fill off (length data) at d = (Inl e, d1)" unfolding loop by (simp add: bind_op_def w)
        then show ?thesis using less.prems w1 by auto
      next
        case (Inr u)
        obtain r2 d2 where l2: "copy_loop fill off (length data) (at + n) d1 = (r2, d2)"
          by (cases "copy_loop fill off (length data) (at + n) d1")
        have ih: "noise (off + (at + n)) d1 d2 \<and> (\<forall>x. r2 = Inr x \<longrightarrow> x = drop (at + n) data \<and>
            slice (image d2) (off + (at + n)) (off + length data) = x \<and>
            (at + n < length data \<longrightarrow> off + length data \<le> length (image d2)))"
          by (rule less.hyps [OF _ n(2) l2]) (use n True in simp)
        have img1: "image d1 = overlay (image d) (off + at) b" using w2 Inr by simp
        have len1: "off + (at + n) \<le> length (image d1)" using lb n(1) by (auto simp: img1 length_overlay)
        have s1: "slice (image d1) (off + at) (off + at + n) = b" using slice_overlay [of "image d" "off + at" b] by (simp add: img1 lb)
        have g: "grows (off + (at + n)) (image d1) (image d2)" using ih by (simp add: noise_def)
        have s2: "slice (image d2) (off + at) (off + at + n) = b"
          using grows_slice [OF g, of "off + at" n] len1 s1 by (simp add: add.assoc)
        have nz: "noise (off + at) d d2" by (rule noise_trans [OF w1 noise_mono [OF conjunct1 [OF ih]]]) simp
        have res: "copy_loop fill off (length data) at d = (case r2 of Inl e \<Rightarrow> (Inl e, d2) | Inr rest \<Rightarrow> (Inr (b @ rest), d2))"
          unfolding loop by (simp add: bind_op_def w Inr l2 ask_def split: sum.splits)
        show ?thesis
        proof (cases r2)
          case (Inl e)
          then show ?thesis using less.prems res nz by auto
        next
          case (Inr rest)
          have "b @ drop (at + n) data = drop at data"
            using append_take_drop_id [of n "drop at data"] by (simp add: b slice_def add.commute)
          moreover have "slice (image d2) (off + at) (off + length data) = b @ rest"
            using slice_append [of "off + at" "off + at + n" "off + length data" "image d2"] n(2) s2 ih Inr by (simp add: add.assoc)
          moreover have "off + length data \<le> length (image d2)"
            using ih Inr n(2) len1 g by (cases "at + n < length data") (auto simp: grows_def)
          ultimately show ?thesis using less.prems res nz Inr ih by auto
        qed
      qed
    qed
  qed
qed

section \<open>Who owns which bytes\<close>

definition range_ok :: "bytes \<Rightarrow> nat \<Rightarrow> nat \<times> nat \<Rightarrow> bool" where
  "range_ok img tail = (\<lambda>(off, len). REGION_START \<le> off \<and> off mod ALIGN = 0 \<and> 0 < len \<and> off + len \<le> tail \<and> off + len \<le> length img)"

definition layout :: "bytes \<Rightarrow> nat \<Rightarrow> (nat \<times> nat) list \<Rightarrow> bool" where
  "layout img tail xs \<longleftrightarrow> list_all (range_ok img tail) xs \<and> (\<forall>p. holders xs p \<le> 1)"

lemma holders_size: "holders xs p = size (filter_mset (\<lambda>(a, n). a \<le> p \<and> p < a + n) (mset xs))"
  by (simp only: holders_def mset_filter [symmetric] size_mset)

lemma holders_mset: "mset xs = mset ys \<Longrightarrow> holders xs p = holders ys p"
  by (simp only: holders_size)

lemma layout_perm: "mset xs = mset ys \<Longrightarrow> layout img tail xs \<Longrightarrow> layout img tail ys"
  unfolding layout_def list_all_iff using holders_mset [of xs ys] mset_eq_setD [of xs ys] by simp

lemma holders_Cons: "holders (x # xs) p = (if fst x \<le> p \<and> p < fst x + snd x then 1 else 0) + holders xs p"
  by (auto simp: holders_def split: prod.splits)

lemma holders_append: "holders (xs @ ys) p = holders xs p + holders ys p"
  by (simp add: holders_def)

lemma holders_past: "list_all (range_ok img tail) xs \<Longrightarrow> tail \<le> p \<Longrightarrow> holders xs p = 0"
  by (auto simp: holders_def filter_empty_conv list_all_iff range_ok_def)

lemma range_ok_grows: "grows t img img' \<Longrightarrow> tail \<le> tail' \<Longrightarrow> range_ok img tail r \<Longrightarrow> range_ok img' tail' r"
  by (auto simp: range_ok_def grows_def)

lemma layout_grows: "layout img tail xs \<Longrightarrow> grows t img img' \<Longrightarrow> tail \<le> tail' \<Longrightarrow> layout img' tail' xs"
  by (auto simp: layout_def list_all_iff intro: range_ok_grows)

lemma layout_add:
  assumes "layout img tail xs" and "tail \<le> off" and "REGION_START \<le> off" and "off mod ALIGN = 0" and "0 < len"
    and "grows t img img'" and "off + len \<le> length img'"
  shows "layout img' (off + len) ((off, len) # xs)"
proof -
  have "layout img' (off + len) xs" using assms(1,2,6) by (rule_tac layout_grows) auto
  moreover have "holders xs p = 0" if "off \<le> p" for p
    using assms(1,2) that holders_past [of img tail xs p] by (simp add: layout_def)
  ultimately show ?thesis using assms by (auto simp: layout_def holders_Cons range_ok_def)
qed

lemma layout_extend:
  assumes "layout img tail ((off, len) # xs)" and "off + len = tail" and "grows t img img'" and "tail + extra \<le> length img'"
  shows "layout img' (tail + extra) ((off, len + extra) # xs)"
proof -
  have l: "layout img' (tail + extra) ((off, len) # xs)" using assms(1,3) by (rule_tac layout_grows) auto
  have z: "holders xs p = 0" if "tail \<le> p" for p
    using assms(1) that holders_past [of img tail xs p] by (simp add: layout_def)
  have "holders ((off, len + extra) # xs) p \<le> 1" for p
  proof (cases "p < tail")
    case True
    have "holders ((off, len) # xs) p \<le> 1" using l by (simp add: layout_def)
    then show ?thesis using True assms(2) by (auto simp: holders_Cons)
  next
    case False
    then show ?thesis using z [of p] by (simp add: holders_Cons)
  qed
  then show ?thesis using l assms(2,4) by (auto simp: layout_def range_ok_def)
qed

text \<open>The extents of a directory, as the operations on the ordered map change them.\<close>

definition dir_extents :: "member_dir \<Rightarrow> (nat \<times> nat) list" where
  "dir_extents dir = concat (map (\<lambda>(_, m). mextents m) dir)"

definition old_extents :: "member_dir \<Rightarrow> bytes \<Rightarrow> (nat \<times> nat) list" where
  "old_extents dir name = (case map_of dir name of None \<Rightarrow> [] | Some m \<Rightarrow> mextents m)"

lemma old_extents_less: "list_all (\<lambda>(a, _). (name :: bytes) < a) dir \<Longrightarrow> map_of dir name = None"
  by (induction dir) auto

lemma insert_extents:
  "bt_ok dir \<Longrightarrow> mset (dir_extents (bt_insert name m dir)) + mset (old_extents dir name) = mset (dir_extents dir) + mset (mextents m)"
proof (induction name m dir rule: bt_insert.induct)
  case (2 k v a b xs)
  have "map_of xs k = None" if "k < a \<or> k = a"
    using 2(2) that by (intro old_extents_less) (auto simp: bt_ok_def list_all_iff)
  then show ?case using 2 by (auto simp: dir_extents_def old_extents_def bt_ok_def)
qed (simp add: dir_extents_def old_extents_def)

lemma remove_extents:
  "bt_ok dir \<Longrightarrow> mset (dir_extents (bt_remove name dir)) + mset (old_extents dir name) = mset (dir_extents dir)"
proof (induction dir)
  case (Cons x xs)
  obtain a b where x: "x = (a, b)" by (cases x)
  have ok: "bt_ok xs" and n: "map_of xs a = None"
    using Cons.prems old_extents_less [of a xs] by (auto simp: x bt_ok_def list_all_iff case_prod_beta)
  show ?case
  proof (cases "a = name")
    case True
    then have "bt_remove name xs = xs" using n by (force simp: bt_remove_def map_of_eq_None_iff intro!: filter_True)
    then show ?thesis using True by (simp add: x bt_remove_def dir_extents_def old_extents_def)
  next
    case False
    then show ?thesis using Cons.IH [OF ok] by (auto simp: x bt_remove_def dir_extents_def old_extents_def ac_simps)
  qed
qed (simp add: dir_extents_def old_extents_def bt_remove_def)

definition free_ranges :: "free_list \<Rightarrow> (nat \<times> nat) list" where
  "free_ranges free = map (\<lambda>(off, len, _). (off, len)) free"

lemma free_ranges_freed_at [simp]: "free_ranges (freed_at s xs) = xs"
  by (induction xs) (auto simp: free_ranges_def freed_at_def)

lemma free_ranges_append [simp]: "free_ranges (xs @ ys) = free_ranges xs @ free_ranges ys"
  by (simp add: free_ranges_def)

section \<open>The staging invariant and the contents\<close>

definition live_block :: "superblock \<Rightarrow> (nat \<times> nat) list" where
  "live_block sb = (if sb_dir_stored sb \<noteq> 0 then [(unat (sb_dir_off sb), unat (sb_dir_stored sb))] else [])"

definition owned :: "container \<Rightarrow> (nat \<times> nat) list" where
  "owned c = dir_extents (c_dir c) @ free_ranges (c_free c) @ live_block (c_sb c)"

definition member_fit :: "member \<Rightarrow> bool" where
  "member_fit m \<longleftrightarrow> length (mextents m) \<le> MAX_MEMBER_EXTENTS \<and> mlen m = sum_list (map snd (mextents m)) \<and> mlen m \<le> u64_max"

definition dir_wf :: "member_dir \<Rightarrow> bool" where
  "dir_wf dir \<longleftrightarrow> bt_ok dir \<and> list_all (\<lambda>(name, m). name_ok name \<and> member_fit m) dir"

definition stage_ok :: "container \<Rightarrow> bool" where
  "stage_ok c \<longleftrightarrow> dir_wf (c_dir c) \<and> layout (c_image c) (c_tail c) (owned c) \<and>
     list_all (\<lambda>(_, _, s). s \<le> Suc (unat (sb_seq (c_sb c)))) (c_free c) \<and>
     c_tail c \<le> u64_max \<and> length (c_image c) \<le> u64_max \<and> REGION_START \<le> c_tail c"

definition contents :: "container \<Rightarrow> bytes \<Rightarrow> bytes option" where
  "contents c name = map_option (\<lambda>m. ext_bytes (c_image c) (mextents m)) (map_of (c_dir c) name)"

lemma owned_member: "map_of (c_dir c) name = Some m \<Longrightarrow> set (mextents m) \<subseteq> set (owned c)"
  by (auto simp: owned_def dir_extents_def dest!: map_of_SomeD)

lemma member_ranges:
  "stage_ok c \<Longrightarrow> map_of (c_dir c) name = Some m \<Longrightarrow> list_all (range_ok (c_image c) (c_tail c)) (mextents m)"
  using owned_member [of c name m] by (auto simp: stage_ok_def layout_def list_all_iff)

lemma ext_bytes_grows:
  "grows t img img' \<Longrightarrow> list_all (range_ok img t) es \<Longrightarrow> ext_bytes img' es = ext_bytes img es"
  by (induction es) (auto simp: range_ok_def ext_bytes_def grows_slice)

lemma contents_grows:
  assumes "stage_ok c" and "grows (c_tail c) (c_image c) (c_image c')" and "c_dir c' = c_dir c"
  shows "contents c' = contents c"
proof
  fix name
  show "contents c' name = contents c name"
    using ext_bytes_grows [OF assms(2) member_ranges [OF assms(1), of name]] assms(3)
    by (cases "map_of (c_dir c) name") (simp_all add: contents_def)
qed

lemma stage_ok_noise:
  assumes "stage_ok c" and "noise (c_tail c) (c_disk c) d"
  shows "stage_ok (c\<lparr>c_disk := d\<rparr>)" and "contents (c\<lparr>c_disk := d\<rparr>) = contents c"
proof -
  show "stage_ok (c\<lparr>c_disk := d\<rparr>)"
    using assms layout_grows [of "c_image c" "c_tail c" "owned c" "c_tail c" "image d" "c_tail c"]
    by (simp add: stage_ok_def owned_def noise_def)
  show "contents (c\<lparr>c_disk := d\<rparr>) = contents c"
    by (rule contents_grows [OF assms(1)]) (use assms(2) in \<open>simp_all add: noise_def\<close>)
qed

lemma dir_wf_insert: "dir_wf dir \<Longrightarrow> name_ok name \<Longrightarrow> member_fit m \<Longrightarrow> dir_wf (bt_insert name m dir)"
  by (auto simp: dir_wf_def bt_insert_ok list_all_iff dest!: bt_insert_mem)

lemma dir_wf_remove: "dir_wf dir \<Longrightarrow> dir_wf (bt_remove name dir)"
  by (auto simp: dir_wf_def bt_remove_ok list_all_iff) (auto simp: bt_remove_def)

lemma next_sequence_Inr: "next_sequence c = Inr s \<longleftrightarrow> s = Suc (unat (sb_seq (c_sb c))) \<and> s \<le> u64_max"
  by (auto simp: next_sequence_def checked_add_Some_iff)

lemma align_up_Inr:
  assumes "align_up x = Inr off"
  shows "x \<le> off" "off mod ALIGN = 0" "off < x + ALIGN"
proof -
  have o: "off = (x + (ALIGN - 1)) div ALIGN * ALIGN" using assms by (auto simp: align_up_def bind_res_Inr_iff checked_add_Some_iff)
  show "off mod ALIGN = 0" by (simp add: o)
  have a: "0 < ALIGN" by (simp add: ALIGN_def)
  have m: "(x + (ALIGN - 1)) mod ALIGN < ALIGN" using a by simp
  have e: "off + (x + (ALIGN - 1)) mod ALIGN = x + (ALIGN - 1)" by (simp add: o)
  show "x \<le> off" "off < x + ALIGN" using m e a by linarith+
qed

text \<open>Registering a run of fresh bytes under a name.\<close>

lemma stage_entry_run:
  assumes ok: "stage_ok c" and nm: "name_ok name" and off: "c_tail c \<le> off" "off mod ALIGN = 0"
    and len: "0 < len \<Longrightarrow> off + len \<le> length (c_image c)"
    and run: "stage_entry name off len ck c = (r, c')"
  shows "case r of Inl e \<Rightarrow> c' = c
    | Inr _ \<Rightarrow> stage_ok c' \<and> contents c' = (contents c)(name \<mapsto> slice (c_image c) off (off + len)) \<and>
        c_disk c' = c_disk c \<and> c_sb c' = c_sb c \<and> c_slot c' = c_slot c \<and> c_limits c' = c_limits c \<and> c_tail c \<le> c_tail c'"
proof (cases "checked_add off len")
  case None
  then show ?thesis using run by (auto simp: stage_entry_def)
next
  case (Some tail)
  then have tail: "tail = off + len" "tail \<le> u64_max" by (auto simp: checked_add_Some_iff)
  show ?thesis
  proof (cases "next_sequence c")
    case (Inl e)
    then show ?thesis using run Some by (auto simp: stage_entry_def)
  next
    case (Inr s)
    let ?m = "\<lparr> mextents = (if len = 0 then [] else [(off, len)]), mlen = len, mxsum = ck \<rparr>"
    let ?old = "old_extents (c_dir c) name"
    have s: "s = Suc (unat (sb_seq (c_sb c)))" using Inr by (simp add: next_sequence_Inr)
    have c': "c' = c\<lparr> c_dir := bt_insert name ?m (c_dir c), c_free := c_free c @ freed_at s ?old, c_tail := off + len, c_staged := True \<rparr>"
      and r: "r = Inr ()"
      using run Some Inr tail by (auto simp: stage_entry_def old_extents_def freed_at_def split: option.splits)
    have wf: "dir_wf (c_dir c)" "layout (c_image c) (c_tail c) (owned c)" and start: "REGION_START \<le> off"
      using ok off by (auto simp: stage_ok_def)
    have fresh: "layout (c_image c) (off + len) (mextents ?m @ owned c)"
      using layout_add [OF wf(2) off(1) start off(2) _ grows_refl len] layout_grows [OF wf(2) grows_refl off(1)]
      by (cases "len = 0") simp_all
    have "mset (mextents ?m @ owned c) = mset (owned c')"
      using insert_extents [of "c_dir c" name ?m] wf(1)
      by (simp add: c' owned_def dir_wf_def ac_simps del: if_distrib)
    from layout_perm [OF this fresh] have "layout (c_image c') (c_tail c') (owned c')" by (simp add: c' del: if_distrib)
    moreover have "dir_wf (c_dir c')"
      using dir_wf_insert [OF wf(1) nm, of ?m] tail by (simp add: c' member_fit_def MAX_MEMBER_EXTENTS_def)
    moreover have "list_all (\<lambda>(_, _, s). s \<le> Suc (unat (sb_seq (c_sb c')))) (c_free c')"
      using ok by (auto simp: stage_ok_def c' s freed_at_def list_all_iff)
    ultimately have "stage_ok c'" using ok tail start by (simp add: stage_ok_def c')
    moreover have "contents c' = (contents c)(name \<mapsto> slice (c_image c) off (off + len))"
      using wf(1) by (auto simp: fun_eq_iff contents_def c' dir_wf_def bt_lookup_insert ext_bytes_def slice_def)
    ultimately show ?thesis using off(1) by (simp add: r c')
  qed
qed

section \<open>The staging operations on the map\<close>

text \<open>What an operation may change of the rest of the handle: nothing published, nothing before the cursor.\<close>

definition keeps :: "container \<Rightarrow> container \<Rightarrow> bool" where
  "keeps c c' \<longleftrightarrow> noise (c_tail c) (c_disk c) (c_disk c') \<and> c_tail c \<le> c_tail c' \<and> c_sb c' = c_sb c \<and> c_slot c' = c_slot c \<and>
     c_limits c' = c_limits c \<and> c_acknowledged c' = c_acknowledged c \<and> c_poisoned c' = c_poisoned c \<and> c_at_path c' = c_at_path c"

lemma keeps_refl [simp]: "keeps c c"
  by (simp add: keeps_def)

lemma keeps_trans: "keeps a b \<Longrightarrow> keeps b c \<Longrightarrow> keeps a c"
  unfolding keeps_def by (auto intro: noise_trans noise_mono)

text \<open>\<open>maps_to f c r c'\<close>: the run kept the invariant, and changed the contents by \<open>f\<close> exactly when it succeeded.\<close>

definition maps_to :: "((bytes \<Rightarrow> bytes option) \<Rightarrow> bytes \<Rightarrow> bytes option) \<Rightarrow> container \<Rightarrow> 'a outcome \<Rightarrow> container \<Rightarrow> bool" where
  "maps_to f c r c' \<longleftrightarrow> stage_ok c' \<and> keeps c c' \<and> contents c' = (if is_ok r then f (contents c) else contents c)"

lemma maps_to_same: "stage_ok c \<Longrightarrow> \<not> is_ok r \<Longrightarrow> maps_to f c r c"
  by (simp add: maps_to_def)

lemma maps_to_noise:
  assumes "stage_ok c" and "noise (c_tail c) (c_disk c) d"
  shows "maps_to f c (Inl e) (c\<lparr>c_disk := d\<rparr>)"
  using stage_ok_noise [OF assms] assms(2) by (simp add: maps_to_def keeps_def)

lemma stage_entry_keeps:
  assumes "stage_entry name off len ck c = (r, c')" and "c_tail c \<le> off"
  shows "keeps c c'"
  using assms by (auto simp: stage_entry_def keeps_def checked_add_Some_iff split: sum.splits)

lemma write_then_stage:
  assumes ok: "stage_ok c" and nm: "name_ok name" and off: "c_tail c \<le> off" "off mod ALIGN = 0"
    and d: "noise off (c_disk c) d" "length data \<noteq> 0 \<Longrightarrow> off + length data \<le> length (image d)"
      "slice (image d) off (off + length data) = data"
    and run: "stage_entry name off (length data) ck (c\<lparr>c_disk := d\<rparr>) = (r, c')"
  shows "maps_to (\<lambda>m. m(name \<mapsto> data)) c r c'"
proof -
  let ?c = "c\<lparr>c_disk := d\<rparr>"
  have n: "noise (c_tail c) (c_disk c) d" using noise_mono [OF d(1) off(1)] .
  have ok1: "stage_ok ?c" and con: "contents ?c = contents c" using stage_ok_noise [OF ok n] .
  have k: "keeps c ?c" using n by (simp add: keeps_def)
  have off1: "c_tail ?c \<le> off" using off(1) by simp
  have len: "0 < length data \<Longrightarrow> off + length data \<le> length (c_image ?c)" using d(2) by simp
  note res = stage_entry_run [OF ok1 nm off1 off(2) len run]
  have k2: "keeps c c'" by (rule keeps_trans [OF k stage_entry_keeps [OF run off1]])
  show ?thesis
  proof (cases r)
    case (Inl e)
    then show ?thesis using res ok1 con k2 by (simp add: maps_to_def)
  next
    case (Inr u)
    then show ?thesis using res con k2 d(3) by (simp add: maps_to_def)
  qed
qed

lemma preflight_member_Inr:
  assumes "preflight_member c name len = Inr off" and "utf8_ok name"
  shows "name_ok name" "c_tail c \<le> off" "off mod ALIGN = 0" "off + len \<le> u64_max" "ensure_writable c = Inr ()"
    "Suc (unat (sb_seq (c_sb c))) \<le> u64_max"
  using assms align_up_Inr [of "c_tail c" off]
  by (auto simp: preflight_member_def bind_res_Inr_iff name_ok_def aligned_start_def checked_add_Some_iff next_sequence_Inr)

lemma put_bytes_maps:
  assumes ok: "stage_ok c" and nm: "utf8_ok name" and run: "container_put_bytes env name data c = (r, c')"
  shows "maps_to (\<lambda>m. m(name \<mapsto> data)) c r c'"
proof (cases "preflight_member c name (length data)")
  case (Inl e)
  then have "r = Inl e" "c' = c" using run by (simp_all add: container_put_bytes_def)
  then show ?thesis using ok by (simp add: maps_to_same)
next
  case (Inr off)
  note p = preflight_member_Inr [OF Inr nm]
  obtain r1 d where w: "vfs_write_all_at data off (c_disk c) = (r1, d)" by (cases "vfs_write_all_at data off (c_disk c)")
  have at: "at_disk (vfs_write_all_at data off) c = (r1, c\<lparr>c_disk := d\<rparr>)" by (simp add: at_disk_def w)
  have run1: "container_put_bytes env name data c = (case r1 of Inl e \<Rightarrow> (Inl e, c\<lparr>c_disk := d\<rparr>)
      | Inr _ \<Rightarrow> stage_entry name off (length data) (p_crc env data) (c\<lparr>c_disk := d\<rparr>))"
    by (simp add: container_put_bytes_def Inr bind_op_def ask_def at split: sum.splits)
  note n = write_noise [OF w p(4)]
  show ?thesis
  proof (cases r1)
    case (Inl e)
    then have "r = Inl e" "c' = c\<lparr>c_disk := d\<rparr>" using run run1 by simp_all
    then show ?thesis using maps_to_noise [OF ok noise_mono [OF n(1) p(2)]] by simp
  next
    case (Inr u)
    then have img: "image d = overlay (c_image c) off data" using n(2) by simp
    show ?thesis
      by (rule write_then_stage [OF ok p(1-3) n(1)]) (use run run1 Inr in \<open>auto simp: img length_overlay slice_overlay\<close>)
  qed
qed

lemma put_stream_maps:
  assumes ok: "stage_ok c" and nm: "utf8_ok name" and fill: "fills fill data"
    and run: "put_stream env name (length data) fill c = (r, c')"
  shows "maps_to (\<lambda>m. m(name \<mapsto> data)) c r c'"
proof (cases "preflight_member c name (length data)")
  case (Inl e)
  then have "r = Inl e" "c' = c" using run by (simp_all add: put_stream_def)
  then show ?thesis using ok by (simp add: maps_to_same)
next
  case (Inr off)
  note p = preflight_member_Inr [OF Inr nm]
  obtain r1 d where w: "copy_loop fill off (length data) 0 (c_disk c) = (r1, d)" by (cases "copy_loop fill off (length data) 0 (c_disk c)")
  have at: "at_disk (copy_loop fill off (length data) 0) c = (r1, c\<lparr>c_disk := d\<rparr>)" by (simp add: at_disk_def w)
  have run1: "put_stream env name (length data) fill c = (case r1 of Inl e \<Rightarrow> (Inl e, c\<lparr>c_disk := d\<rparr>)
      | Inr x \<Rightarrow> stage_entry name off (length data) (p_crc env x) (c\<lparr>c_disk := d\<rparr>))"
    by (simp add: put_stream_def Inr bind_op_def ask_def at split: sum.splits)
  have n: "noise off (c_disk c) d" "\<And>x. r1 = Inr x \<Longrightarrow> x = data \<and> slice (image d) off (off + length data) = data \<and>
      (length data \<noteq> 0 \<longrightarrow> off + length data \<le> length (image d))"
    using copy_loop_noise [OF fill p(4) _ w] by auto
  show ?thesis
  proof (cases r1)
    case (Inl e)
    then have "r = Inl e" "c' = c\<lparr>c_disk := d\<rparr>" using run run1 by simp_all
    then show ?thesis using maps_to_noise [OF ok noise_mono [OF n(1) p(2)]] by simp
  next
    case (Inr x)
    show ?thesis
      by (rule write_then_stage [OF ok p(1-3) n(1)]) (use run run1 Inr n(2) in auto)
  qed
qed

text \<open>An extension, by a new extent or by the growth of the last one.\<close>

lemma ext_bytes_append: "ext_bytes img (xs @ ys) = ext_bytes img xs @ ext_bytes img ys"
  by (simp add: ext_bytes_def)

lemma ext_bytes_Nil [simp]: "ext_bytes img [] = []"
  by (simp add: ext_bytes_def)

lemma ext_bytes_one: "ext_bytes img [(off, len)] = slice img off (off + len)"
  by (simp add: ext_bytes_def)

definition append_to :: "bytes \<Rightarrow> bytes \<Rightarrow> (bytes \<Rightarrow> bytes option) \<Rightarrow> bytes \<Rightarrow> bytes option" where
  "append_to name data m = (if data = [] then m else m(name := map_option (\<lambda>x. x @ data) (m name)))"

lemma if_Inl_Inr: "(if c then Inl e else x) = Inr y \<longleftrightarrow> \<not> c \<and> x = Inr y"
  by simp

lemma preflight_append_elim:
  assumes "preflight_append c name len = Inr (m, coalesce, write_off, write_end)"
  shows "map_of (c_dir c) name = Some m \<and> checked_add (mlen m) len \<noteq> None \<and> coalesces c m = Inr coalesce \<and>
    \<not> (\<not> coalesce \<and> length (mextents m) \<ge> MAX_MEMBER_EXTENTS) \<and>
    (if coalesce then Inr (c_tail c) else aligned_start c) = Inr write_off \<and> checked_add write_off len = Some write_end"
  using assms unfolding preflight_append_def bind_res_Inr_iff ok_or_Inr_iff if_Inl_Inr
  by (elim exE conjE) (simp only: sum.inject prod.inject option.distinct simp_thms not_False_eq_True)

lemma coalesces_True: "coalesces c m = Inr True \<longleftrightarrow> mextents m \<noteq> [] \<and> c_tail c \<le> u64_max \<and>
    fst (last (mextents m)) + snd (last (mextents m)) = c_tail c"
  by (auto simp: coalesces_def bind_res_Inr_iff checked_add_Some_iff)

lemma preflight_append_Inr:
  assumes "preflight_append c name len = Inr (m, coalesce, write_off, write_end)"
  shows "map_of (c_dir c) name = Some m" "c_tail c \<le> write_off" "write_end = write_off + len" "write_end \<le> u64_max"
    "mlen m + len \<le> u64_max"
    "if coalesce then mextents m \<noteq> [] \<and> fst (last (mextents m)) + snd (last (mextents m)) = c_tail c \<and> write_off = c_tail c
     else write_off mod ALIGN = 0 \<and> length (mextents m) < MAX_MEMBER_EXTENTS"
proof -
  note e = preflight_append_elim [OF assms]
  show "map_of (c_dir c) name = Some m" "write_end = write_off + len" "write_end \<le> u64_max" "mlen m + len \<le> u64_max"
    using e by (auto simp: checked_add_Some_iff checked_add_def split: if_splits)
  show "c_tail c \<le> write_off" using e align_up_Inr(1) by (cases coalesce) (auto simp: aligned_start_def)
  show "if coalesce then mextents m \<noteq> [] \<and> fst (last (mextents m)) + snd (last (mextents m)) = c_tail c \<and> write_off = c_tail c
     else write_off mod ALIGN = 0 \<and> length (mextents m) < MAX_MEMBER_EXTENTS"
    using e align_up_Inr(2) by (cases coalesce) (auto simp: coalesces_True aligned_start_def)
qed

lemma extend_layout:
  assumes ok: "stage_ok c" and m: "map_of (c_dir c) name = Some m" and len: "0 < len"
    and off: "c_tail c \<le> off" and g: "grows (c_tail c) (c_image c) img" "off + len \<le> length img"
    and co: "if coalesce then mextents m \<noteq> [] \<and> fst (last (mextents m)) + snd (last (mextents m)) = c_tail c \<and> off = c_tail c
      else off mod ALIGN = 0"
    and m': "mextents m' = (if coalesce then butlast (mextents m) @ [(fst (last (mextents m)), snd (last (mextents m)) + len)]
      else mextents m @ [(off, len)])"
  shows "layout img (off + len) (dir_extents (bt_insert name m' (c_dir c)) @ free_ranges (c_free c) @ live_block (c_sb c))"
    (is "layout _ _ ?o")
proof -
  have l: "layout (c_image c) (c_tail c) (owned c)" and start: "REGION_START \<le> c_tail c" and bt: "bt_ok (c_dir c)"
    using ok by (simp_all add: stage_ok_def dir_wf_def)
  have ins: "mset ?o + mset (mextents m) = mset (owned c) + mset (mextents m')"
    using insert_extents [OF bt, of name m'] m by (simp add: owned_def old_extents_def ac_simps)
  show ?thesis
  proof (cases coalesce)
    case False
    then have "mset ?o = mset ((off, len) # owned c)" using ins m' by (simp add: add.commute)
    moreover have "layout img (off + len) ((off, len) # owned c)"
      using layout_add [OF l off _ _ len g] co False start off by simp
    ultimately show ?thesis by (intro layout_perm [of "(off, len) # owned c" ?o]) simp_all
  next
    case True
    obtain x y where e: "last (mextents m) = (x, y)" by (cases "last (mextents m)")
    have split: "mextents m = butlast (mextents m) @ [(x, y)]" using co True e append_butlast_last_id [of "mextents m"] by simp
    have mem: "(x, y) \<in> set (owned c)" 
    proof -
      have "(x, y) \<in> set (mextents m)" by (subst split) simp
      then show ?thesis using owned_member [OF m] by blast
    qed
    let ?xs = "remove1 (x, y) (owned c)"
    have own: "mset ((x, y) # ?xs) = mset (owned c)" using mem by simp
    have "layout img (c_tail c + len) ((x, y + len) # ?xs)"
      by (rule layout_extend [OF layout_perm [OF own [symmetric] l] _ g(1)]) (use co True e g(2) in auto)
    moreover have "mset ?o = mset ((x, y + len) # ?xs)"
    proof -
      have "mset (mextents m) = add_mset (x, y) (mset (butlast (mextents m)))"
        using arg_cong [OF split, of mset] by simp
      then have "add_mset (x, y) (mset ?o) = add_mset (x, y + len) (mset (owned c))"
        using ins m' True e by simp
      also have "\<dots> = add_mset (x, y + len) (add_mset (x, y) (mset ?xs))" using own by simp
      finally show ?thesis by (simp add: add_mset_commute [of "(x, y + len)" "(x, y)"])
    qed
    ultimately show ?thesis using co True by (intro layout_perm [of "(x, y + len) # ?xs" ?o]) simp_all
  qed
qed

lemma extend_bytes:
  assumes es: "list_all (range_ok img tail) (mextents m)" and off: "tail \<le> off" and g: "grows tail img img'"
    and co: "coalesce \<Longrightarrow> mextents m \<noteq> [] \<and> fst (last (mextents m)) + snd (last (mextents m)) = tail \<and> off = tail"
    and m': "mextents m' = (if coalesce then butlast (mextents m) @ [(fst (last (mextents m)), snd (last (mextents m)) + len)]
      else mextents m @ [(off, len)])"
  shows "ext_bytes img' (mextents m') = ext_bytes img (mextents m) @ slice img' off (off + len)"
proof (cases coalesce)
  case False
  then show ?thesis using ext_bytes_grows [OF g es] by (simp only: m' if_False ext_bytes_append ext_bytes_one)
next
  case True
  obtain x y where e: "last (mextents m) = (x, y)" by (cases "last (mextents m)")
  have split: "mextents m = butlast (mextents m) @ [(x, y)]"
    using co True e append_butlast_last_id [of "mextents m"] by simp
  have o': "off = x + y" "tail = x + y" using co True e by auto
  have "ext_bytes img' (mextents m) = ext_bytes img' (butlast (mextents m)) @ slice img' x (x + y)"
    by (subst split) (simp only: ext_bytes_append ext_bytes_one)
  moreover have "slice img' x (x + (y + len)) = slice img' x (x + y) @ slice img' (x + y) (x + y + len)"
    by (simp add: slice_append add.assoc)
  ultimately show ?thesis
    using True ext_bytes_grows [OF g es] by (simp add: m' e ext_bytes_append ext_bytes_one o')
qed

lemma append_stage:
  assumes ok: "stage_ok c" and pre: "preflight_append c name (length data) = Inr (m, coalesce, off, stop)" and data: "data \<noteq> []"
    and d: "noise off (c_disk c) d" "off + length data \<le> length (image d)" "slice (image d) off (off + length data) = data"
    and c': "c' = c\<lparr>c_disk := d, c_dir := bt_insert name (extended env m coalesce off (length data) x) (c_dir c), c_tail := stop, c_staged := True\<rparr>"
  shows "maps_to (append_to name data) c (Inr ()) c'"
proof -
  let ?m = "extended env m coalesce off (length data) x"
  note p = preflight_append_Inr [OF pre]
  have n: "noise (c_tail c) (c_disk c) d" by (rule noise_mono [OF d(1) p(2)])
  then have g: "grows (c_tail c) (c_image c) (image d)" by (simp add: noise_def)
  have wf: "dir_wf (c_dir c)" using ok by (simp add: stage_ok_def)
  have fit: "name_ok name" "member_fit m" using wf p(1) by (auto simp: dir_wf_def list_all_iff dest!: map_of_SomeD)
  have ext: "mextents ?m = (if coalesce then butlast (mextents m) @ [(fst (last (mextents m)), snd (last (mextents m)) + length data)]
      else mextents m @ [(off, length data)])"
    by (simp add: extended_def)
  have "sum_list (map snd (mextents ?m)) = sum_list (map snd (mextents m)) + length data \<and> length (mextents ?m) \<le> MAX_MEMBER_EXTENTS"
  proof (cases coalesce)
    case True
    then have ne: "mextents m \<noteq> []" using p(6) by simp
    have "sum_list (map snd (mextents m)) = sum_list (map snd (butlast (mextents m) @ [last (mextents m)]))" using ne by simp
    also have "\<dots> = sum_list (map snd (butlast (mextents m))) + snd (last (mextents m))" by simp
    finally show ?thesis using True ne fit(2) unfolding ext by (simp add: member_fit_def)
  next
    case False
    then show ?thesis using p(6) unfolding ext by simp
  qed
  then have "member_fit ?m" using fit(2) p(5) by (simp add: member_fit_def) (simp add: extended_def)
  then have wf': "dir_wf (c_dir c')" using dir_wf_insert [OF wf fit(1)] by (simp add: c')
  have "layout (image d) (off + length data) (owned c')"
    unfolding owned_def by (simp add: c', rule extend_layout [OF ok p(1) _ p(2) g d(2) _ ext])
      (use data p(6) in \<open>auto split: if_splits\<close>)
  then have "stage_ok c'"
    using wf' ok n p(2-4) by (simp add: stage_ok_def c' noise_def)
  moreover have "contents c' = append_to name data (contents c)"
  proof -
    have "ext_bytes (image d) (mextents ?m) = ext_bytes (c_image c) (mextents m) @ data"
      using extend_bytes [OF member_ranges [OF ok p(1)] p(2) g _ ext] p(6) d(3) by simp
    moreover have "map_option (\<lambda>m. ext_bytes (image d) (mextents m)) (map_of (c_dir c) j) = contents c j" for j
      using stage_ok_noise(2) [OF ok n] by (simp add: contents_def fun_eq_iff)
    moreover have "contents c' j = map_option (\<lambda>m. ext_bytes (image d) (mextents m)) (map_of (bt_insert name ?m (c_dir c)) j)" for j
      by (simp add: contents_def c')
    moreover have "contents c name = Some (ext_bytes (c_image c) (mextents m))" using p(1) by (simp add: contents_def)
    ultimately show ?thesis
      using wf data by (simp add: fun_eq_iff append_to_def dir_wf_def bt_lookup_insert)
  qed
  moreover have "keeps c c'" using n p(2,3) by (simp add: keeps_def c')
  ultimately show ?thesis by (simp add: maps_to_def)
qed

lemma append_stream_maps:
  assumes ok: "stage_ok c" and fill: "fills fill data" and run: "append_stream env name (length data) fill c = (r, c')"
  shows "maps_to (append_to name data) c r c'"
proof (cases "ensure_writable c")
  case (Inl e)
  then have "r = Inl e" "c' = c" using run by (simp_all add: append_stream_def)
  then show ?thesis using ok by (simp add: maps_to_same)
next
  case (Inr u)
  show ?thesis
  proof (cases "data = []")
    case True
    then have "r = Inr ()" "c' = c" using run Inr by (simp_all add: append_stream_def)
    then show ?thesis using ok True by (simp add: maps_to_def append_to_def)
  next
    case ne: False
    show ?thesis
    proof (cases "preflight_append c name (length data)")
      case (Inl e)
      then have "r = Inl e" "c' = c" using run Inr ne by (simp_all add: append_stream_def)
      then show ?thesis using ok by (simp add: maps_to_same)
    next
      case pre: (Inr q)
      obtain m coalesce off stop where q: "q = (m, coalesce, off, stop)" by (cases q)
      note pre' = pre [unfolded q] and p = preflight_append_Inr [OF pre [unfolded q]]
      obtain r1 d where w: "copy_loop fill off (length data) 0 (c_disk c) = (r1, d)"
        by (cases "copy_loop fill off (length data) 0 (c_disk c)")
      have at: "at_disk (copy_loop fill off (length data) 0) c = (r1, c\<lparr>c_disk := d\<rparr>)" by (simp add: at_disk_def w)
      have run1: "append_stream env name (length data) fill c = (case r1 of Inl e \<Rightarrow> (Inl e, c\<lparr>c_disk := d\<rparr>)
          | Inr x \<Rightarrow> (Inr (), c\<lparr>c_disk := d, c_dir := bt_insert name (extended env m coalesce off (length data) x) (c_dir c),
              c_tail := stop, c_staged := True\<rparr>))"
        by (simp add: append_stream_def Inr ne pre' bind_op_def ask_def change_def at split: sum.splits)
      have n: "noise off (c_disk c) d" "\<And>x. r1 = Inr x \<Longrightarrow> slice (image d) off (off + length data) = data \<and>
          off + length data \<le> length (image d)"
        using copy_loop_noise [OF fill _ _ w] p(3,4) ne by auto
      show ?thesis
      proof (cases r1)
        case (Inl e)
        then have "r = Inl e" "c' = c\<lparr>c_disk := d\<rparr>" using run run1 by simp_all
        then show ?thesis using maps_to_noise [OF ok noise_mono [OF n(1) p(2)]] by simp
      next
        case (Inr x)
        then have "r = Inr ()" and c': "c' = c\<lparr>c_disk := d, c_dir := bt_insert name (extended env m coalesce off (length data) x) (c_dir c),
              c_tail := stop, c_staged := True\<rparr>" using run run1 by simp_all
        then show ?thesis using append_stage [OF ok pre' ne n(1) _ _ c'] n(2) [OF Inr] by simp
      qed
    qed
  qed
qed

text \<open>Removal.\<close>

lemma container_remove_maps:
  assumes ok: "stage_ok c" and run: "container_remove name c = (r, c')"
  shows "maps_to (\<lambda>m. m(name := None)) c r c'"
proof -
  consider (fail) e where "r = Inl e" "c' = c" | (none) "r = Inr False" "c' = c" "map_of (c_dir c) name = None"
    | (found) s m where "next_sequence c = Inr s" "map_of (c_dir c) name = Some m" "r = Inr True"
        "c' = c\<lparr> c_dir := bt_remove name (c_dir c), c_free := c_free c @ freed_at s (mextents m), c_staged := True \<rparr>"
    using run
    by (cases "ensure_writable c"; cases "next_sequence c"; cases "map_of (c_dir c) name";
        cases "preflight_free c (length (mextents (the (map_of (c_dir c) name))))")
      (auto simp: container_remove_def)
  then show ?thesis
  proof cases
    case fail
    then show ?thesis using ok by (simp add: maps_to_same)
  next
    case none
    then have "(contents c)(name := None) = contents c" by (auto simp: fun_eq_iff contents_def)
    then show ?thesis using ok none by (simp add: maps_to_def)
  next
    case found
    have s: "s = Suc (unat (sb_seq (c_sb c)))" using found(1) by (simp add: next_sequence_Inr)
    have wf: "dir_wf (c_dir c)" and l: "layout (c_image c) (c_tail c) (owned c)" using ok by (simp_all add: stage_ok_def)
    have "mset (owned c) = mset (owned c')"
      using remove_extents [of "c_dir c" name] wf found(2)
      by (simp add: found(4) owned_def dir_wf_def old_extents_def flip: add.assoc)
    from layout_perm [OF this l] have "layout (c_image c') (c_tail c') (owned c')" by (simp add: found(4))
    moreover have "list_all (\<lambda>(_, _, s). s \<le> Suc (unat (sb_seq (c_sb c')))) (c_free c')"
      using ok by (auto simp: stage_ok_def found(4) s freed_at_def list_all_iff)
    ultimately have "stage_ok c'" using ok dir_wf_remove [OF wf] by (simp add: stage_ok_def found(4))
    moreover have "contents c' = (contents c)(name := None)"
      by (auto simp: fun_eq_iff contents_def found(4) bt_lookup_remove)
    moreover have "keeps c c'" by (simp add: keeps_def found(4))
    ultimately show ?thesis by (simp add: maps_to_def found(3))
  qed
qed

text \<open>A member written piece by piece.\<close>

fun sink_all :: "bytes list \<Rightarrow> (disk \<times> member_write, unit) op" where
  "sink_all [] = change (\<lambda>s. s)"
| "sink_all (x # xs) = bind_op (\<lambda>(d, w). sink_write_all_at x (mw_written w) (d, w)) (\<lambda>_. sink_all xs)"

definition put_pieces :: "prims \<Rightarrow> bytes \<Rightarrow> bytes list \<Rightarrow> (container, digest) op" where
  "put_pieces env name pieces c =
    (case begin_member name c of
       (Inl e, c) \<Rightarrow> (Inl e, c)
     | (Inr w, c) \<Rightarrow>
         (case sink_all pieces (c_disk c, w) of
            (Inl e, d, w) \<Rightarrow> (Inl e, snd (abandon_member w (c\<lparr>c_disk := d\<rparr>)))
          | (Inr _, d, w) \<Rightarrow> finish_member env w (c\<lparr>c_disk := d\<rparr>)))"

definition sink_inv :: "disk \<Rightarrow> disk \<Rightarrow> member_write \<Rightarrow> bool" where
  "sink_inv d0 d w \<longleftrightarrow> mw_written w = length (mw_seen w) \<and> noise (mw_off w) d0 d \<and>
     slice (image d) (mw_off w) (mw_off w + length (mw_seen w)) = mw_seen w \<and>
     (mw_seen w \<noteq> [] \<longrightarrow> mw_off w + length (mw_seen w) \<le> length (image d))"

lemma sink_write_cases:
  assumes "sink_write_all_at data (mw_written w) (d, w) = (r, d', w')"
  obtains (refused) e where "r = Inl e" "d' = d" "w' = w"
  | (failed) e where "vfs_write_all_at data (mw_off w + mw_written w) d = (Inl e, d')" "r = Inl e" "w' = w"
      "mw_off w + mw_written w + length data \<le> u64_max"
  | (wrote) "vfs_write_all_at data (mw_off w + mw_written w) d = (Inr (), d')" "r = Inr ()"
      "w' = w\<lparr> mw_seen := mw_seen w @ data, mw_written := mw_written w + length data \<rparr>"
      "mw_off w + mw_written w + length data \<le> u64_max"
proof (cases "mw_off w + mw_written w + length data \<le> u64_max")
  case False
  then have "\<exists>e. r = Inl e \<and> d' = d \<and> w' = w"
    using assms by (auto simp: sink_write_all_at_def checked_add_def split: if_splits)
  then show ?thesis using refused by blast
next
  case True
  then have run: "sink_write_all_at data (mw_written w) (d, w) =
    (case vfs_write_all_at data (mw_off w + mw_written w) d of
       (Inl e, d) \<Rightarrow> (Inl e, (d, w))
     | (Inr _, d) \<Rightarrow> (Inr (), (d, w\<lparr> mw_seen := mw_seen w @ data, mw_written := mw_written w + length data \<rparr>)))"
    by (simp add: sink_write_all_at_def checked_add_def)
  obtain r1 d1 where w: "vfs_write_all_at data (mw_off w + mw_written w) d = (r1, d1)"
    by (cases "vfs_write_all_at data (mw_off w + mw_written w) d")
  show ?thesis
  proof (cases r1)
    case (Inl e)
    show ?thesis by (rule failed [of e]) (use assms run w True Inl in simp_all)
  next
    case (Inr u)
    show ?thesis by (rule wrote) (use assms run w True Inr in simp_all)
  qed
qed

lemma sink_inv_noise:
  assumes inv: "sink_inv d0 d w" and n: "noise (mw_off w + mw_written w) d d'"
  shows "sink_inv d0 d' w"
proof -
  have g: "grows (mw_off w + mw_written w) (image d) (image d')" using n by (simp add: noise_def)
  have "noise (mw_off w) d0 d'"
    by (rule noise_trans [OF _ noise_mono [OF n]]) (use inv in \<open>simp_all add: sink_inv_def\<close>)
  moreover have "slice (image d') (mw_off w) (mw_off w + length (mw_seen w)) = mw_seen w"
    using inv grows_slice [OF g, of "mw_off w" "length (mw_seen w)"] by (cases "mw_seen w = []") (auto simp: sink_inv_def slice_def)
  ultimately show ?thesis using inv g by (auto simp: sink_inv_def grows_def)
qed

lemma sink_write_inv:
  assumes inv: "sink_inv d0 d w" and run: "sink_write_all_at data (mw_written w) (d, w) = (r, d', w')"
  shows "sink_inv d0 d' w' \<and> mw_off w' = mw_off w \<and> mw_name w' = mw_name w \<and> mw_token w' = mw_token w \<and> mw_file w' = mw_file w \<and>
    (is_ok r \<longrightarrow> mw_seen w' = mw_seen w @ data)"
  using run
proof (cases rule: sink_write_cases)
  case refused
  then show ?thesis using inv by simp
next
  case failed
  show ?thesis using sink_inv_noise [OF inv write_noise(1) [OF failed(1,4)]] failed by simp
next
  case wrote
  note n = write_noise(1) [OF wrote(1,4)] and img = write_noise(2) [OF wrote(1,4) refl]
  have inv': "sink_inv d0 d' w" by (rule sink_inv_noise [OF inv n])
  have l: "mw_written w = length (mw_seen w)" using inv by (simp add: sink_inv_def)
  have "slice (image d') (mw_off w + length (mw_seen w)) (mw_off w + length (mw_seen w) + length data) = data"
    by (simp add: img l slice_overlay)
  then have "slice (image d') (mw_off w) (mw_off w + (length (mw_seen w) + length data)) = mw_seen w @ data"
    using inv' slice_append [of "mw_off w" "mw_off w + length (mw_seen w)" "mw_off w + length (mw_seen w) + length data" "image d'"]
    by (simp add: sink_inv_def add.assoc)
  moreover have "mw_off w + (length (mw_seen w) + length data) \<le> length (image d')" if "mw_seen w @ data \<noteq> []"
    using that inv' by (cases "data = []") (auto simp: sink_inv_def img l length_overlay)
  ultimately show ?thesis using inv' wrote(2,3) by (auto simp: sink_inv_def)
qed

lemma sink_all_inv:
  "sink_inv d0 d w \<Longrightarrow> sink_all pieces (d, w) = (r, d', w') \<Longrightarrow>
   sink_inv d0 d' w' \<and> mw_off w' = mw_off w \<and> mw_name w' = mw_name w \<and> mw_token w' = mw_token w \<and> mw_file w' = mw_file w \<and>
   (is_ok r \<longrightarrow> mw_seen w' = mw_seen w @ concat pieces)"
proof (induction pieces arbitrary: d w)
  case (Cons x xs)
  obtain r1 d1 w1 where s: "sink_write_all_at x (mw_written w) (d, w) = (r1, d1, w1)"
    by (cases "sink_write_all_at x (mw_written w) (d, w)") auto
  note i = sink_write_inv [OF Cons.prems(1) s]
  show ?case
  proof (cases r1)
    case (Inl e)
    then show ?thesis using Cons.prems(2) i by (auto simp: bind_op_def s)
  next
    case (Inr u)
    then have "sink_all xs (d1, w1) = (r, d', w')" using Cons.prems(2) by (simp add: bind_op_def s)
    from Cons.IH [OF conjunct1 [OF i] this] show ?thesis using i Inr by auto
  qed
qed simp

lemma begin_member_Inr:
  assumes "begin_member name c = (Inr w, c1)" and "utf8_ok name"
  shows "c1 = c\<lparr> c_next_member_token := mw_token w, c_open_member := Some (mw_token w) \<rparr>" "name_ok name"
    "mw_name w = name" "mw_file w = c_file c" "mw_written w = 0" "mw_seen w = []" "c_tail c \<le> mw_off w" "mw_off w mod ALIGN = 0"
  using assms align_up_Inr [of "c_tail c" "mw_off w"]
  by (auto simp: begin_member_def name_ok_def bind_op_Inr aligned_start_def simp del: bind_op_ask bind_op_change)

lemma begin_member_Inl:
  assumes "begin_member name c = (Inl e, c1)"
  shows "c1 = c"
  using assms by (auto simp: begin_member_def bind_op_Inl simp del: bind_op_ask bind_op_change)

lemma stage_ok_open:
  "stage_ok (c\<lparr> c_next_member_token := t, c_open_member := o' \<rparr>) = stage_ok c"
  "contents (c\<lparr> c_next_member_token := t, c_open_member := o' \<rparr>) = contents c"
  by (simp_all add: stage_ok_def owned_def contents_def fun_eq_iff)

lemma put_pieces_maps:
  assumes ok: "stage_ok c" and nm: "utf8_ok name" and run: "put_pieces env name pieces c = (r, c')"
  shows "maps_to (\<lambda>m. m(name \<mapsto> concat pieces)) c r c'"
proof -
  obtain r0 c0 where b: "begin_member name c = (r0, c0)" by (cases "begin_member name c")
  show ?thesis
  proof (cases r0)
    case (Inl e)
    then have "r = Inl e" "c' = c" using run b begin_member_Inl by (auto simp: put_pieces_def)
    then show ?thesis using ok by (simp add: maps_to_same)
  next
    case (Inr w)
    note p = begin_member_Inr [OF b [unfolded Inr] nm]
    obtain r1 d w1 where s: "sink_all pieces (c_disk c, w) = (r1, d, w1)" by (cases "sink_all pieces (c_disk c, w)") auto
    have "sink_inv (c_disk c) (c_disk c) w" using p by (simp add: sink_inv_def slice_def)
    note i = sink_all_inv [OF this s]
    have off: "c_tail c \<le> mw_off w1" and n: "noise (mw_off w1) (c_disk c) d" using i p by (auto simp: sink_inv_def)
    have d0: "c_disk c0 = c_disk c" using p by simp
    show ?thesis
    proof (cases r1)
      case (Inl e)
      then have "r = Inl e" "c' = (c\<lparr>c_disk := d\<rparr>)\<lparr> c_next_member_token := mw_token w, c_open_member := None \<rparr>"
        using run i p
        by (auto simp: put_pieces_def b Inr s d0 abandon_member_def check_current_def abandon_open_member_def change_def)
      moreover note maps_to_noise [OF ok noise_mono [OF n off], of "\<lambda>m. m(name \<mapsto> concat pieces)" e]
      ultimately show ?thesis by (simp add: maps_to_def stage_ok_open keeps_def)
    next
      case (Inr u)
      let ?c = "c\<lparr> c_next_member_token := mw_token w, c_open_member := None \<rparr>"
      have ok1: "stage_ok ?c" using ok by (simp add: stage_ok_open)
      have seen: "mw_seen w1 = concat pieces" using i Inr p by simp
      then have len: "mw_written w1 = length (concat pieces)" using i by (auto simp: sink_inv_def)
      obtain r2 c2 where e: "stage_entry name (mw_off w1) (length (concat pieces)) (p_crc env (concat pieces)) (?c\<lparr>c_disk := d\<rparr>) = (r2, c2)"
        by (cases "stage_entry name (mw_off w1) (length (concat pieces)) (p_crc env (concat pieces)) (?c\<lparr>c_disk := d\<rparr>)")
      have swap: "c\<lparr> c_next_member_token := mw_token w, c_disk := d, c_open_member := None \<rparr> = ?c\<lparr>c_disk := d\<rparr>"
        by (cases c) simp
      have e': "stage_entry name (mw_off w1) (length (concat pieces)) (p_crc env (concat pieces))
          (c\<lparr> c_next_member_token := mw_token w, c_disk := d, c_open_member := None \<rparr>) = (r2, c2)"
        unfolding swap by (rule e)
      have "finish_member env w1 (c0\<lparr>c_disk := d\<rparr>) = (case r2 of Inl e \<Rightarrow> (Inl e, c2) | Inr _ \<Rightarrow> (Inr (p_blake3 env (concat pieces)), c2))"
        using i p len seen e'
        by (simp add: finish_member_def check_current_def bind_op_def ask_def change_def split: sum.splits)
      then have res: "(r, c') = (case r2 of Inl e \<Rightarrow> (Inl e, c2) | Inr _ \<Rightarrow> (Inr (p_blake3 env (concat pieces)), c2))"
        using run by (simp add: put_pieces_def b \<open>r0 = Inr w\<close> s d0 Inr)
      have "maps_to (\<lambda>m. m(name \<mapsto> concat pieces)) ?c r2 c2"
      proof (rule write_then_stage [OF ok1 p(2) _ _ _ _ _ e])
        show "slice (image d) (mw_off w1) (mw_off w1 + length (concat pieces)) = concat pieces"
          and "length (concat pieces) \<noteq> 0 \<Longrightarrow> mw_off w1 + length (concat pieces) \<le> length (image d)"
          using i seen by (auto simp: sink_inv_def)
      qed (use n off p i in simp_all)
      then show ?thesis using res by (cases r2) (simp_all add: maps_to_def stage_ok_open keeps_def)
    qed
  qed
qed

section \<open>Staging refines the map\<close>

datatype staged_op =
    Put bytes bytes
  | Put_stream bytes bytes "nat \<Rightarrow> nat \<Rightarrow> bytes outcome"
  | Put_pieces bytes "bytes list"
  | Append_stream bytes bytes "nat \<Rightarrow> nat \<Rightarrow> bytes outcome"
  | Remove bytes

fun run_op :: "prims \<Rightarrow> staged_op \<Rightarrow> (container, unit) op" where
  "run_op env (Put name data) = container_put_bytes env name data"
| "run_op env (Put_stream name data fill) = put_stream env name (length data) fill"
| "run_op env (Put_pieces name pieces) = bind_op (put_pieces env name pieces) (\<lambda>_. change (\<lambda>c. c))"
| "run_op env (Append_stream name data fill) = append_stream env name (length data) fill"
| "run_op env (Remove name) = bind_op (container_remove name) (\<lambda>_. change (\<lambda>c. c))"

text \<open>The operations of the abstract map.\<close>

fun spec_op :: "staged_op \<Rightarrow> (bytes \<Rightarrow> bytes option) \<Rightarrow> bytes \<Rightarrow> bytes option" where
  "spec_op (Put name data) m = m(name \<mapsto> data)"
| "spec_op (Put_stream name data fill) m = m(name \<mapsto> data)"
| "spec_op (Put_pieces name pieces) m = m(name \<mapsto> concat pieces)"
| "spec_op (Append_stream name data fill) m = append_to name data m"
| "spec_op (Remove name) m = m(name := None)"

text \<open>Names are Rust strings, and a callback yields the bytes it stands for or fails.\<close>

fun staged_op_ok :: "staged_op \<Rightarrow> bool" where
  "staged_op_ok (Put name data) = utf8_ok name"
| "staged_op_ok (Put_stream name data fill) = (utf8_ok name \<and> fills fill data)"
| "staged_op_ok (Put_pieces name pieces) = utf8_ok name"
| "staged_op_ok (Append_stream name data fill) = fills fill data"
| "staged_op_ok (Remove name) = True"

lemma maps_to_unit:
  assumes "\<And>r c'. f c = (r, c') \<Longrightarrow> maps_to g c r c'" and "bind_op f (\<lambda>_. change (\<lambda>c. c)) c = (r, c')"
  shows "maps_to g c r c'"
proof (cases "f c")
  case (Pair r1 c1)
  then show ?thesis using assms(1) [OF Pair] assms(2) by (cases r1) (auto simp: bind_op_def maps_to_def change_def)
qed

lemma run_op_maps:
  assumes "stage_ok c" and "staged_op_ok p" and "run_op env p c = (r, c')"
  shows "maps_to (spec_op p) c r c'"
proof (cases p)
  case (Put name data)
  then show ?thesis using put_bytes_maps [OF assms(1), of name env data r c'] assms by (simp add: spec_op.simps [abs_def])
next
  case (Put_stream name data fill)
  then show ?thesis using put_stream_maps [OF assms(1), of name fill data env r c'] assms by (simp add: spec_op.simps [abs_def])
next
  case (Put_pieces name pieces)
  then show ?thesis
    using maps_to_unit [where r = r and c' = c', OF put_pieces_maps [OF assms(1), of name env pieces]] assms by (simp add: spec_op.simps [abs_def])
next
  case (Append_stream name data fill)
  then show ?thesis using append_stream_maps [OF assms(1), of fill data env name r c'] assms by (simp add: spec_op.simps [abs_def])
next
  case (Remove name)
  then show ?thesis
    using maps_to_unit [where r = r and c' = c', OF container_remove_maps [OF assms(1), of name]] assms by (simp add: spec_op.simps [abs_def])
qed

fun run_ops :: "prims \<Rightarrow> staged_op list \<Rightarrow> container \<Rightarrow> unit outcome list \<times> container" where
  "run_ops env [] c = ([], c)"
| "run_ops env (p # ps) c = (let (r, c) = run_op env p c; (rs, c) = run_ops env ps c in (r # rs, c))"

fun spec_ops :: "staged_op list \<Rightarrow> unit outcome list \<Rightarrow> (bytes \<Rightarrow> bytes option) \<Rightarrow> bytes \<Rightarrow> bytes option" where
  "spec_ops (p # ps) (r # rs) m = spec_ops ps rs (if is_ok r then spec_op p m else m)"
| "spec_ops _ _ m = m"

lemma run_ops_spec:
  "stage_ok c \<Longrightarrow> list_all staged_op_ok ps \<Longrightarrow> run_ops env ps c = (rs, c') \<Longrightarrow>
   stage_ok c' \<and> keeps c c' \<and> contents c' = spec_ops ps rs (contents c)"
proof (induction ps arbitrary: c rs)
  case (Cons p ps)
  obtain r c1 where p: "run_op env p c = (r, c1)" by (cases "run_op env p c")
  obtain rs1 c2 where ps: "run_ops env ps c1 = (rs1, c2)" by (cases "run_ops env ps c1")
  have m: "maps_to (spec_op p) c r c1" using run_op_maps Cons.prems(1,2) p by simp
  have "rs = r # rs1" "c2 = c'" using Cons.prems(3) p ps by simp_all
  then show ?case using Cons.IH [of c1 rs1] Cons.prems(2) ps m keeps_trans [of c c1 c'] by (simp add: maps_to_def)
qed simp

text \<open>Reading a member is looking it up.\<close>

lemma member_extents_within:
  assumes "stage_ok c" and "map_of (c_dir c) name = Some m"
  shows "extents_within (c_image c) (mextents m)" "mlen m = length (ext_bytes (c_image c) (mextents m))"
proof -
  have r: "list_all (\<lambda>(off, len). off + len \<le> length (c_image c)) (mextents m)"
    using member_ranges [OF assms] by (auto simp: list_all_iff range_ok_def)
  have f: "member_fit m" using assms by (auto simp: stage_ok_def dir_wf_def list_all_iff dest!: map_of_SomeD)
  show "extents_within (c_image c) (mextents m)"
    using r f assms(1) by (simp add: extents_within_def ext_total_def member_fit_def stage_ok_def)
  show "mlen m = length (ext_bytes (c_image c) (mextents m))"
    using length_ext_bytes [OF r] f by (simp add: ext_total_def member_fit_def)
qed

lemma read_file_bounded_contents:
  assumes "stage_ok c"
  shows "read_file_bounded c name max_bytes = (case contents c name of
      None \<Rightarrow> Inl (Bail ''container member not found'')
    | Some b \<Rightarrow> if length b > max_bytes then Inl (Bail ''container member is over the ceiling'') else Inr b)"
proof (cases "map_of (c_dir c) name")
  case None
  then show ?thesis by (simp add: read_file_bounded_def member_read_def contents_def)
next
  case (Some m)
  note w = member_extents_within [OF assms Some]
  have "extents_read (mem_read (c_image c)) (extents_new (mextents m)) 0 (mlen m) = Inr (ext_bytes (c_image c) (mextents m))"
    unfolding extents_read_mem [OF w(1)] by (simp add: mem_read_def w(2) slice_def)
  then show ?thesis using Some w(2) by (simp add: read_file_bounded_def member_read_def contents_def)
qed

text \<open>C2. Staging is a map: from a handle that satisfies the layout invariant, any sequence of puts (whole, streamed
  or piece by piece), extensions and removals, each of them free to fail at any check or at any write, leaves a handle
  that satisfies it again, and reading a member back yields exactly what the same sequence of map updates, the failed
  ones left out, holds under its name.\<close>

theorem staging_refines_map:
  assumes "stage_ok c" and "list_all staged_op_ok ps" and "run_ops env ps c = (rs, c')"
  shows "stage_ok c' \<and> c_sb c' = c_sb c \<and>
    read_file_bounded c' name max_bytes = (case spec_ops ps rs (contents c) name of
      None \<Rightarrow> Inl (Bail ''container member not found'')
    | Some b \<Rightarrow> if length b > max_bytes then Inl (Bail ''container member is over the ceiling'') else Inr b)"
proof -
  have s: "stage_ok c'" "keeps c c'" "contents c' = spec_ops ps rs (contents c)"
    using run_ops_spec [OF assms] by simp_all
  then show ?thesis by (simp add: read_file_bounded_contents keeps_def)
qed

definition sample_prims :: prims where
  "sample_prims = \<lparr> p_blake3 = (\<lambda>b. replicate 32 (fold (+) b 1)), p_crc = (\<lambda>b. word_of_nat (length b)),
     p_crc_combine = (\<lambda>a n b. a + word_of_nat (length b)), p_compress = (\<lambda>b d l. Inr (0 # b)),
     p_decompress = (\<lambda>c d n. Inr (drop 1 c)) \<rparr>"

definition sample_birth :: bytes where
  "sample_birth = empty_birth_image (p_blake3 sample_prims)"

definition sample_container :: container where
  "sample_container = empty_handle 0 \<lparr> image = sample_birth, durable = sample_birth, plan = [] \<rparr> default_limits"

lemma length_sample_birth: "length sample_birth = 8192"
proof -
  have "length (superblock_encode (p_blake3 sample_prims) superblock_empty) = SLOT_LEN"
    by (rule length_superblock_encode) (simp add: sample_prims_def)
  then show ?thesis by (simp add: sample_birth_def empty_birth_image_def REGION_START_def SLOT_LEN_def)
qed

lemma sample_container_ok: "stage_ok sample_container"
  by (simp add: stage_ok_def sample_container_def empty_handle_def dir_wf_def bt_ok_def owned_def dir_extents_def free_ranges_def
      live_block_def superblock_empty_def layout_def holders_def container_consts u64_max_def length_sample_birth)

lemma sample_put: "container_put_bytes sample_prims [97] [1, 2, 3] sample_container =
  (Inr (), sample_container\<lparr> c_disk := (c_disk sample_container)\<lparr>image := overlay sample_birth 8192 [1, 2, 3]\<rparr>,
     c_dir := [([97], \<lparr> mextents = [(8192, 3)], mlen = 3, mxsum = 3 \<rparr>)], c_tail := 8195, c_staged := True \<rparr>)"
  by (simp add: sample_container_def empty_handle_def container_put_bytes_def preflight_member_def ensure_writable_def validate_name_def
      aligned_start_def align_up_def checked_add_def next_sequence_def superblock_empty_def preflight_replacement_def
      preflight_free_def container_consts u64_max_def bind_op_def ask_def change_def at_disk_def vfs_write_all_at_def
      stage_entry_def Let_def sample_prims_def)

lemma staging_refines_map_witness:
  "fst (run_ops sample_prims [Put [97] [1, 2, 3], Remove [98]] sample_container) = [Inr (), Inr ()] \<and>
   read_file_bounded (snd (run_ops sample_prims [Put [97] [1, 2, 3], Remove [98]] sample_container)) [97] 10 = Inr [1, 2, 3]"
proof -
  let ?ps = "[Put [97] [1, 2, 3], Remove [98]]"
  have rs: "fst (run_ops sample_prims ?ps sample_container) = [Inr (), Inr ()]"
    by (simp add: sample_put)
      (simp add: Let_def bind_op_def container_remove_def ensure_writable_def next_sequence_def checked_add_def
        sample_container_def empty_handle_def superblock_empty_def u64_max_def ask_def change_def)
  have "list_all staged_op_ok ?ps" by simp
  from staging_refines_map [OF sample_container_ok this surjective_pairing, of sample_prims "[97]" 10] rs
  show ?thesis by (simp add: sample_container_def empty_handle_def contents_def)
qed

end
