(* ===== verification/ContainerCommit.thy ===== *)
theory ContainerCommit
  imports ContainerStage
begin

text \<open>
  What publication promises. \<open>open_image\<close> is what a reader of the file's bytes selects. A commit that
  returns is durable and selects the staged state; a commit cut short at any write or barrier, with
  any loss of unsynced bytes, selects the state before it or the state it was publishing.

  A published state opens under exactly the read policies that admit its directory block, its members
  and its free extents (\<open>policy_admits\<close>). The code does not hold a commit to the policy of its own handle,
  so the theorems speak of every policy, and C17 shows a commit that outgrows its own.
\<close>

section \<open>Selecting a state\<close>

definition slot_bytes :: "bytes \<Rightarrow> nat \<Rightarrow> bytes" where
  "slot_bytes img k = slice img (k * SLOT_LEN) (k * SLOT_LEN + SLOT_LEN)"

lemma open_image_Inr:
  "open_image env img limits = Inr (live, slot, dir, free) \<longleftrightarrow>
    REGION_START \<le> length img \<and>
    (\<exists>sa sb. superblock_decode (p_blake3 env) (slot_bytes img 0) = Inr sa \<and>
      superblock_decode (p_blake3 env) (slot_bytes img 1) = Inr sb \<and> select_superblock sa sb = Inr (live, slot)) \<and>
    unat (sb_tail live) \<le> length img \<and>
    read_directory (p_crc env) (p_decompress env) (mem_read img) live limits = Inr (dir, free)"
proof -
  have m: "mem_read img 0 SLOT_LEN = Inr (slot_bytes img 0)" "mem_read img SLOT_LEN SLOT_LEN = Inr (slot_bytes img 1)"
    if "REGION_START \<le> length img"
    using that by (simp_all add: mem_read_def slot_bytes_def REGION_START_def)
  show ?thesis
  proof (cases "REGION_START \<le> length img")
    case True
    show ?thesis
      unfolding open_image_def selected_state_def using True
      by (auto simp: bind_res_Inr_iff m not_le not_less split: prod.splits if_splits)
  qed (simp add: open_image_def selected_state_def)
qed

lemma select_slot: "select_superblock sa sb = Inr (live, slot) \<Longrightarrow> slot \<le> 1 \<and> (if slot = 0 then sa = Some live else sb = Some live)"
  by (auto simp: select_superblock_def split: option.splits if_splits)

lemma decode_semantics: "superblock_decode b s = Inr (Some sb) \<Longrightarrow> semantics_ok sb"
  by (auto simp: superblock_decode_def Let_def bind_res_Inr_iff split: if_splits)

lemma open_image_live:
  assumes "open_image env img limits = Inr (live, slot, dir, free)"
  shows "slot \<le> 1" "superblock_decode (p_blake3 env) (slot_bytes img slot) = Inr (Some live)" "semantics_ok live"
    "REGION_START \<le> unat (sb_tail live)"
proof -
  obtain sa sb where ab: "superblock_decode (p_blake3 env) (slot_bytes img 0) = Inr sa"
      "superblock_decode (p_blake3 env) (slot_bytes img 1) = Inr sb" "select_superblock sa sb = Inr (live, slot)"
    using assms by (auto simp: open_image_Inr)
  note sel = select_slot [OF ab(3)]
  show s: "slot \<le> 1" using sel by simp
  show d: "superblock_decode (p_blake3 env) (slot_bytes img slot) = Inr (Some live)"
    using sel ab by (cases "slot = 0") (auto simp: le_Suc_eq)
  show ok: "semantics_ok live" using decode_semantics [OF d] .
  show "REGION_START \<le> unat (sb_tail live)"
    using ok by (auto simp: semantics_ok_def is_empty_birth_superblock_def split: if_splits)
qed

text \<open>The directory is read from its own block only.\<close>

lemma read_directory_cong:
  assumes "sb_seq sb \<noteq> 0 \<Longrightarrow> f (unat (sb_dir_off sb)) (unat (sb_dir_stored sb)) = g (unat (sb_dir_off sb)) (unat (sb_dir_stored sb))"
  shows "read_directory crc dec f sb limits = read_directory crc dec g sb limits"
proof (cases "sb_seq sb = 0")
  case False
  show ?thesis unfolding read_directory_def assms [OF False] ..
qed (simp add: read_directory_def)

lemma semantics_block:
  "semantics_ok sb \<Longrightarrow> sb_seq sb \<noteq> 0 \<Longrightarrow>
   REGION_START \<le> unat (sb_dir_off sb) \<and> unat (sb_dir_off sb) + unat (sb_dir_stored sb) = unat (sb_tail sb)"
  by (simp add: semantics_ok_def)

text \<open>Two images that agree on the committed region outside one slot.\<close>

definition same_outside :: "nat \<Rightarrow> nat \<Rightarrow> bytes \<Rightarrow> bytes \<Rightarrow> bool" where
  "same_outside k t a b \<longleftrightarrow> t \<le> length a \<and> t \<le> length b \<and>
     (\<forall>i < t. \<not> (k * SLOT_LEN \<le> i \<and> i < k * SLOT_LEN + SLOT_LEN) \<longrightarrow> b ! i = a ! i)"

lemma same_outside_slice:
  assumes "same_outside k t a b" and "j \<le> t" and "j \<le> k * SLOT_LEN \<or> k * SLOT_LEN + SLOT_LEN \<le> i"
  shows "slice b i j = slice a i j"
proof (intro nth_equalityI)
  show "length (slice b i j) = length (slice a i j)" 
    using assms(1,2) by (auto simp: slice_def same_outside_def min_def)
  fix x assume x: "x < length (slice b i j)"
  then have "i + x < j" "i + x < t" using assms(2) by (auto simp: slice_def)
  moreover from this have "\<not> (k * SLOT_LEN \<le> i + x \<and> i + x < k * SLOT_LEN + SLOT_LEN)" using assms(3) by linarith
  ultimately show "slice b i j ! x = slice a i j ! x"
    using assms(1) by (simp add: slice_def same_outside_def nth_drop)
qed

lemma same_outside_slot:
  assumes "same_outside k t a b" and "REGION_START \<le> t" and "k \<le> 1" and "j \<le> 1" and "j \<noteq> k"
  shows "slot_bytes b j = slot_bytes a j"
  unfolding slot_bytes_def
  by (rule same_outside_slice [OF assms(1)]) (use assms in \<open>auto simp: REGION_START_def SLOT_LEN_def le_Suc_eq\<close>)

lemma same_outside_directory:
  assumes "same_outside k t a b" and "k \<le> 1" and "unat (sb_tail sb) \<le> t" and "semantics_ok sb"
  shows "read_directory crc dec (mem_read b) sb limits = read_directory crc dec (mem_read a) sb limits"
proof (rule read_directory_cong)
  assume "sb_seq sb \<noteq> 0"
  from semantics_block [OF assms(4) this]
  have b: "REGION_START \<le> unat (sb_dir_off sb)" "unat (sb_dir_off sb) + unat (sb_dir_stored sb) \<le> t" using assms(3) by auto
  have "slice b (unat (sb_dir_off sb)) (unat (sb_dir_off sb) + unat (sb_dir_stored sb)) =
      slice a (unat (sb_dir_off sb)) (unat (sb_dir_off sb) + unat (sb_dir_stored sb))"
    by (rule same_outside_slice [OF assms(1) b(2)]) (use b(1) assms(2) in \<open>auto simp: REGION_START_def le_Suc_eq\<close>)
  then show "mem_read b (unat (sb_dir_off sb)) (unat (sb_dir_stored sb)) = mem_read a (unat (sb_dir_off sb)) (unat (sb_dir_stored sb))"
    using assms(1) b(2) by (simp add: mem_read_ok same_outside_def)
qed

text \<open>With the other slot unreadable or as it was, the live state is selected again.\<close>

lemma open_old:
  assumes old: "open_image env img limits = Inr (live, slot, dir, free)"
    and same: "same_outside (1 - slot) (unat (sb_tail live)) img img'"
    and other: "slot_bytes img' (1 - slot) = slot_bytes img (1 - slot) \<or>
      superblock_decode (p_blake3 env) (slot_bytes img' (1 - slot)) = Inr None"
  shows "open_image env img' limits = Inr (live, slot, dir, free)"
proof -
  note l = open_image_live [OF old]
  have k: "1 - slot \<le> 1" by simp
  have keep: "slot_bytes img' slot = slot_bytes img slot"
    by (rule same_outside_slot [OF same l(4) k l(1)]) (use l(1) in presburger)
  have dir: "read_directory (p_crc env) (p_decompress env) (mem_read img') live limits = Inr (dir, free)"
    using same_outside_directory [OF same k order_refl l(3)] old by (simp add: open_image_Inr)
  have len: "REGION_START \<le> length img'" "unat (sb_tail live) \<le> length img'" using same l(4) by (auto simp: same_outside_def)
  have sel: "\<exists>sa sb. superblock_decode (p_blake3 env) (slot_bytes img' 0) = Inr sa \<and>
      superblock_decode (p_blake3 env) (slot_bytes img' 1) = Inr sb \<and> select_superblock sa sb = Inr (live, slot)"
    using other
  proof
    assume "slot_bytes img' (1 - slot) = slot_bytes img (1 - slot)"
    then have "slot_bytes img' 0 = slot_bytes img 0 \<and> slot_bytes img' 1 = slot_bytes img 1"
      using keep l(1) by (cases "slot = 0") (auto simp: le_Suc_eq)
    then show ?thesis using old by (simp add: open_image_Inr)
  next
    assume n: "superblock_decode (p_blake3 env) (slot_bytes img' (1 - slot)) = Inr None"
    show ?thesis
      using n l(1,2) keep by (cases "slot = 0") (auto simp: select_superblock_def le_Suc_eq)
  qed
  show ?thesis unfolding open_image_Inr using len sel dir by blast
qed

text \<open>With a newer superblock whole in the other slot, and its directory readable, that state is selected.\<close>

lemma open_new:
  assumes old: "open_image env img limits' = Inr (live, slot, dir, free)"
    and same: "same_outside (1 - slot) (unat (sb_tail live)) img img'"
    and enc: "slot_bytes img' (1 - slot) = superblock_encode (p_blake3 env) sb" and h: "\<And>x. 4 \<le> length (p_blake3 env x)"
    and ok: "semantics_ok sb" and newer: "sb_seq live < sb_seq sb" and len: "unat (sb_tail sb) \<le> length img'"
    and dir': "read_directory (p_crc env) (p_decompress env) (mem_read img') sb limits = Inr (dir', free')"
  shows "open_image env img' limits = Inr (sb, 1 - slot, dir', free')"
proof -
  note l = open_image_live [OF old]
  have k: "1 - slot \<le> 1" by simp
  have keep: "slot_bytes img' slot = slot_bytes img slot"
    by (rule same_outside_slot [OF same l(4) k l(1)]) (use l(1) in presburger)
  have d: "superblock_decode (p_blake3 env) (slot_bytes img' (1 - slot)) = Inr (Some sb)"
    unfolding enc by (rule superblock_decode_encode [OF h ok])
  have r: "REGION_START \<le> length img'" using same l(4) by (auto simp: same_outside_def)
  have "\<exists>sa sb'. superblock_decode (p_blake3 env) (slot_bytes img' 0) = Inr sa \<and>
      superblock_decode (p_blake3 env) (slot_bytes img' 1) = Inr sb' \<and> select_superblock sa sb' = Inr (sb, 1 - slot)"
    using d l(1,2) keep newer by (cases "slot = 0") (auto simp: select_superblock_def le_Suc_eq)
  then show ?thesis unfolding open_image_Inr using r len dir' by blast
qed

lemma newer_selected:
  assumes opened: "open_image env img limits = Inr (live, slot, d, fr)" and k: "k \<le> 1"
    and new: "superblock_decode (p_blake3 env) (slot_bytes img (1 - k)) = Inr (Some sb)"
    and old: "superblock_decode (p_blake3 env) (slot_bytes img k) = Inr (Some prev)" and lt: "sb_seq prev < sb_seq sb"
  shows "live = sb"
proof -
  obtain sa sb' where s: "superblock_decode (p_blake3 env) (slot_bytes img 0) = Inr sa"
      "superblock_decode (p_blake3 env) (slot_bytes img 1) = Inr sb'" "select_superblock sa sb' = Inr (live, slot)"
    using opened by (auto simp: open_image_Inr)
  show ?thesis
  proof (cases "k = 0")
    case True
    then have "sa = Some prev" "sb' = Some sb" using s(1,2) new old by simp_all
    then show ?thesis using s(3) lt by (auto simp: select_superblock_def split: if_splits)
  next
    case False
    then have "sb' = Some prev" "sa = Some sb" using s(1,2) new old k by (simp_all add: le_Suc_eq)
    then show ?thesis using s(3) lt by (auto simp: select_superblock_def split: if_splits)
  qed
qed

section \<open>The state a commit publishes\<close>

text \<open>What the code relies on: a digest has four bytes at least, zstd undoes itself and never yields an empty frame.\<close>

definition prims_ok :: "prims \<Rightarrow> bool" where
  "prims_ok env \<longleftrightarrow> (\<forall>x. 4 \<le> length (p_blake3 env x)) \<and> zstd_roundtrip (p_compress env) (p_decompress env) \<and>
     (\<forall>raw d level c. p_compress env raw d level = Inr c \<longrightarrow> c \<noteq> [])"

definition published_superblock :: "prims \<Rightarrow> container \<Rightarrow> nat \<times> free_list \<times> bytes \<times> byte \<times> bytes \<times> nat \<Rightarrow> superblock" where
  "published_superblock env c = (\<lambda>(next_seq, next_free, payload, dir_codec, stored, dir_off).
     \<lparr> sb_seq = word_of_nat next_seq, sb_dir_off = word_of_nat dir_off, sb_dir_stored = word_of_nat (length stored),
       sb_dir_raw = word_of_nat (length payload), sb_n_entries = word_of_nat (length (c_dir c)), sb_dir_xsum = p_crc env stored,
       sb_tail = word_of_nat (dir_off + length stored), sb_dir_codec = dir_codec \<rparr>)"

definition next_superblock :: "prims \<Rightarrow> container \<Rightarrow> superblock outcome" where
  "next_superblock env c = bind_res (prepare_commit env c) (\<lambda>q. Inr (published_superblock env c q))"

text \<open>The read policies under which a published state can be opened: they admit the stored and the decoded length
  of its directory block, its members and its free extents. A commit does not ask whether its own handle's does.\<close>

definition policy_admits :: "read_limits \<Rightarrow> superblock \<Rightarrow> free_list \<Rightarrow> bool" where
  "policy_admits limits sb free \<longleftrightarrow>
     admit limits ''container member directory'' (unat (sb_dir_stored sb)) (unat (sb_dir_raw sb)) = Inr () \<and>
     unat (sb_n_entries sb) \<le> max_directory_entries limits \<and> length free \<le> max_directory_entries limits"

lemma prepare_commit_elim:
  assumes "prepare_commit env c = Inr (s, free, payload, codec, stored, off)"
  shows "next_sequence c = Inr s" "length (c_dir c) \<le> MAX_MEMBERS" "free = next_free_list c s" "length free \<le> MAX_FREE_EXTENTS"
    "encode_directory (c_dir c) free = Inr payload" "codec_encode (p_compress env) payload None 3 = Inr (codec, stored)"
    "length stored \<le> MAX_DIR_STORED" "align_up (c_tail c) = Inr off"
proof -
  obtain s' where s: "next_sequence c = Inr s'" using assms by (auto simp: prepare_commit_def bind_res_Inr_iff)
  obtain payload' where p: "encode_directory (c_dir c) (next_free_list c s') = Inr payload'"
    using assms s by (auto simp: prepare_commit_def bind_res_Inr_iff Let_def split: if_splits)
  obtain codec' stored' where q: "codec_encode (p_compress env) payload' None 3 = Inr (codec', stored')"
    using assms s p by (auto simp: prepare_commit_def bind_res_Inr_iff Let_def split: if_splits)
  obtain off' where o': "align_up (c_tail c) = Inr off'"
    using assms s p q by (auto simp: prepare_commit_def bind_res_Inr_iff Let_def split: if_splits)
  show "next_sequence c = Inr s" "length (c_dir c) \<le> MAX_MEMBERS" "free = next_free_list c s" "length free \<le> MAX_FREE_EXTENTS"
    "encode_directory (c_dir c) free = Inr payload" "codec_encode (p_compress env) payload None 3 = Inr (codec, stored)"
    "length stored \<le> MAX_DIR_STORED" "align_up (c_tail c) = Inr off"
    using assms s p q o' by (auto simp: prepare_commit_def Let_def split: if_splits)
qed

lemma holders_sorted_apart:
  "sorted xs \<Longrightarrow> list_all (\<lambda>(_, n). 0 < n) xs \<Longrightarrow> \<forall>p. holders xs p \<le> 1 \<Longrightarrow> sorted_wrt apart xs"
proof (induction xs)
  case (Cons x xs)
  obtain a n where x: "x = (a, n)" by (cases x)
  have "apart x y" if y: "y \<in> set xs" for y
  proof (rule ccontr)
    assume not: "\<not> apart x y"
    obtain b m where b: "y = (b, m)" by (cases y)
    have "a \<le> b" using Cons.prems(1) y by (auto simp: x b less_eq_prod_def)
    then have "b < a + n" using not by (auto simp: apart_def x b)
    have "y \<in> set (filter (\<lambda>(a, n). a \<le> b \<and> b < a + n) xs)"
      using y Cons.prems(2) by (auto simp: b list_all_iff)
    then have "0 < holders xs b" by (auto simp: holders_def simp del: set_filter)
    then have "2 \<le> holders (x # xs) b" using \<open>a \<le> b\<close> \<open>b < a + n\<close> by (simp add: holders_Cons x)
    then show False using Cons.prems(3) by (metis not_less_eq_eq numeral_2_eq_2 One_nat_def)
  qed
  moreover have "\<forall>p. holders xs p \<le> 1"
    using Cons.prems(3) by (auto simp: holders_Cons) (metis add_leE le0 zero_neq_one add_Suc_right not_less_eq_eq)
  ultimately show ?case using Cons by simp
qed simp

lemma layout_ranges_apart: "layout img tail xs \<Longrightarrow> ranges_apart xs"
  unfolding ranges_apart_def
  by (rule holders_sorted_apart) (auto simp: layout_def list_all_iff range_ok_def holders_sort)

lemma encoded_block:
  assumes "prims_ok env" and "codec_encode (p_compress env) payload None 3 = Inr (codec, stored)" and "payload \<noteq> []"
  shows "stored \<noteq> []" "codec \<le> 1" "codec = 0 \<Longrightarrow> length stored = length payload"
proof -
  obtain x where x: "p_compress env payload None 3 = Inr x"
      "(codec, stored) = (if length x \<ge> length payload then (CODEC_STORED, payload) else (CODEC_ZSTD, x))"
    using assms(2) by (auto simp: codec_encode_def bind_res_Inr_iff split: if_splits)
  moreover have "x \<noteq> []" using assms(1) x(1) unfolding prims_ok_def by blast
  ultimately show "stored \<noteq> []" "codec \<le> 1" "codec = 0 \<Longrightarrow> length stored = length payload"
    using assms(3) by (auto simp: block_consts split: if_splits)
qed

lemma staged_entries:
  assumes ok: "stage_ok c" and off: "c_tail c \<le> off"
  shows "list_all (\<lambda>(name, m). name_ok name \<and> member_ok off m) (c_dir c)"
    "next_sequence c = Inr s \<Longrightarrow> list_all (free_ok s off) (next_free_list c s)"
    "s \<le> u64_max \<Longrightarrow> free_ranges (next_free_list c s) = free_ranges (c_free c) @ live_block (c_sb c)"
proof -
  have r: "range_ok (c_image c) (c_tail c) x" if "x \<in> set (owned c)" for x
    using ok that by (simp add: stage_ok_def layout_def list_all_iff)
  have tail: "c_tail c \<le> u64_max" using ok by (simp add: stage_ok_def)
  have "member_ok off m" if m: "(name, m) \<in> set (c_dir c)" for name m
  proof -
    have "extent_ok x \<and> region_ok off x" if "x \<in> set (mextents m)" for x
    proof -
      have "x \<in> set (owned c)" using m that by (auto simp: owned_def dir_extents_def)
      then show ?thesis using r off tail by (fastforce simp: range_ok_def extent_ok_def region_ok_def)
    qed
    moreover have "member_fit m" using ok m by (auto simp: stage_ok_def dir_wf_def list_all_iff)
    ultimately show ?thesis by (simp add: member_ok_def member_fit_def list_all_iff)
  qed
  then show "list_all (\<lambda>(name, m). name_ok name \<and> member_ok off m) (c_dir c)"
    using ok by (auto simp: stage_ok_def dir_wf_def list_all_iff)
  show fr: "free_ranges (next_free_list c s) = free_ranges (c_free c) @ live_block (c_sb c)"
    by (simp add: next_free_list_def live_block_def free_ranges_def word_gt_0)
  assume s: "next_sequence c = Inr s"
  have "free_ok s off (a, n, t)" if t: "(a, n, t) \<in> set (next_free_list c s)" for a n t
  proof -
    have "(a, n) \<in> set (free_ranges (next_free_list c s))" using t by (force simp: free_ranges_def)
    then have "(a, n) \<in> set (owned c)" by (auto simp: fr owned_def)
    moreover have "t \<le> s"
      using t ok s by (auto simp: next_free_list_def stage_ok_def list_all_iff next_sequence_Inr split: if_splits)
    ultimately show ?thesis using r off by (fastforce simp: free_ok_def range_ok_def region_ok_def)
  qed
  then show "list_all (free_ok s off) (next_free_list c s)" by (auto simp: list_all_iff)
qed

lemma directory_bytes_nonempty: "directory_bytes dir free \<noteq> []"
proof -
  have "put_num (length dir) \<noteq> []" by (subst put_varint.simps) simp
  then show ?thesis by (simp add: directory_bytes_def)
qed

lemma published_superblock_ok:
  assumes ok: "stage_ok c" and env: "prims_ok env" and p: "prepare_commit env c = Inr (s, free, payload, codec, stored, off)"
    and fits: "off + length stored \<le> u64_max"
  defines "sb \<equiv> published_superblock env c (s, free, payload, codec, stored, off)"
  shows "semantics_ok sb" "unat (sb_seq sb) = s" "unat (sb_dir_off sb) = off" "unat (sb_dir_stored sb) = length stored"
    "unat (sb_dir_raw sb) = length payload" "unat (sb_n_entries sb) = length (c_dir c)" "unat (sb_tail sb) = off + length stored"
    "payload = directory_bytes (c_dir c) free" "length payload \<le> MAX_DIR_RAW" "stored \<noteq> []" "c_sb c \<noteq> sb" "sb_seq (c_sb c) < sb_seq sb"
proof -
  note e = prepare_commit_elim [OF p]
  have s: "s = Suc (unat (sb_seq (c_sb c)))" "s \<le> u64_max" using e by (auto simp: next_sequence_Inr)
  have off: "c_tail c \<le> off" "off mod ALIGN = 0" using e align_up_Inr by auto
  note ent = staged_entries(1) [OF ok off(1)] and fr = staged_entries(2) [OF ok off(1), of s]
  have f: "free = next_free_list c s" using e by simp
  have "length (c_dir c) \<le> MAX_MEMBERS" "length free \<le> MAX_FREE_EXTENTS" using e by simp_all
  then have small: "length (c_dir c) \<le> u64_max" "length free \<le> u64_max"
    by (simp_all add: MAX_MEMBERS_def MAX_FREE_EXTENTS_def u64_max_def)
  have "encoded_directory_len (c_dir c) free = summed (length (directory_bytes (c_dir c) free))"
    by (rule encoded_directory_len_summed [OF ent _ s(2) _ small]) (use fr e f fits in auto)
  then show pay: "payload = directory_bytes (c_dir c) free" and raw: "length payload \<le> MAX_DIR_RAW"
    using e by (auto simp: encode_directory_def summed_def split: if_splits)
  have ne: "payload \<noteq> []" using directory_bytes_nonempty pay by simp
  have enc: "codec_encode (p_compress env) payload None 3 = Inr (codec, stored)" using e by simp
  note b = encoded_block [OF env enc ne]
  show "stored \<noteq> []" by (rule b(1))
  have st: "length stored \<le> u32_max" "length payload \<le> u32_max" "length (c_dir c) \<le> u32_max"
    using e raw by (simp_all add: MAX_DIR_STORED_def MAX_DIR_RAW_def MAX_MEMBERS_def u32_max_def)
  have u: "unat (word_of_nat n :: u64) = n" if "n \<le> u64_max" for n using that by (simp add: unat_of_nat u64_max_def)
  show f1: "unat (sb_seq sb) = s" "unat (sb_dir_off sb) = off" "unat (sb_dir_stored sb) = length stored"
    "unat (sb_dir_raw sb) = length payload" "unat (sb_n_entries sb) = length (c_dir c)" "unat (sb_tail sb) = off + length stored"
    using s(2) fits st unat_u32_of_nat by (simp_all add: sb_def published_superblock_def u del: of_nat_add)
  show lt: "sb_seq (c_sb c) < sb_seq sb" using f1(1) s(1) by (simp add: word_less_nat_alt)
  then show "c_sb c \<noteq> sb" by auto
  have nz: "sb_seq sb \<noteq> 0" "sb_dir_stored sb \<noteq> 0" "sb_dir_raw sb \<noteq> 0"
    using f1 s(1) b(1) ne by (auto simp flip: unat_eq_0)
  have "sb_dir_codec sb = codec" by (simp add: sb_def published_superblock_def)
  moreover have "codec = 0 \<Longrightarrow> sb_dir_stored sb = sb_dir_raw sb" using b(3) f1(3,4) by (metis word_unat_eq_iff)
  moreover have "REGION_START \<le> off" using ok off(1) by (simp add: stage_ok_def)
  ultimately show "semantics_ok sb"
    using nz f1 b(2) e raw off(2) by (simp add: semantics_ok_def)
qed

lemma published_ranges:
  assumes "stage_ok c" and "prepare_commit env c = Inr (s, free, payload, codec, stored, off)"
  shows "mset (dir_ranges off n (c_dir c) free) = mset ((off, n) # owned c)"
proof -
  have "free_ranges free = free_ranges (c_free c) @ live_block (c_sb c)"
    using prepare_commit_elim [OF assms(2)] staged_entries(3) [OF assms(1) order_refl, of s]
    by (auto simp: next_sequence_Inr)
  then show ?thesis by (simp add: dir_ranges_def owned_def dir_extents_def free_ranges_def)
qed

lemma published_layout:
  assumes ok: "stage_ok c" and p: "prepare_commit env c = Inr (s, free, payload, codec, stored, off)" and "stored \<noteq> []"
    and g: "grows (c_tail c) (c_image c) img" "off + length stored \<le> length img"
  shows "layout img (off + length stored) (dir_ranges off (length stored) (c_dir c) free)"
proof (rule layout_perm [OF published_ranges [OF ok p, symmetric]])
  have "align_up (c_tail c) = Inr off" using prepare_commit_elim [OF p] by simp
  note a = align_up_Inr [OF this]
  show "layout img (off + length stored) ((off, length stored) # owned c)"
    by (rule layout_add [OF _ a(1) _ a(2) _ g]) (use ok assms(3) a(1) in \<open>auto simp: stage_ok_def\<close>)
qed

lemma published_fits:
  assumes ok: "stage_ok c" and env: "prims_ok env" and p: "prepare_commit env c = Inr (s, free, payload, codec, stored, off)"
    and fits: "off + length stored \<le> u64_max" and pol: "length free \<le> max_directory_entries limits"
  shows "dir_fits (published_superblock env c (s, free, payload, codec, stored, off)) limits (c_dir c) free"
proof -
  note f = published_superblock_ok [OF ok env p fits] and e = prepare_commit_elim [OF p]
  have off: "c_tail c \<le> off" using e(8) align_up_Inr by blast
  have "layout (overlay (c_image c) off stored) (off + length stored) (dir_ranges off (length stored) (c_dir c) free)"
    by (rule published_layout [OF ok p f(10) grows_overlay [OF off]]) (use f(10) in \<open>simp add: length_overlay\<close>)
  then show ?thesis
    unfolding dir_fits_def f(2-6)
    using layout_ranges_apart staged_entries(1) [OF ok off] staged_entries(2) [OF ok off, of s] e pol ok
    by (simp add: stage_ok_def dir_wf_def)
qed

lemma published_only_parse:
  assumes ok: "stage_ok c" and env: "prims_ok env" and p: "prepare_commit env c = Inr (s, free, payload, codec, stored, off)"
    and fits: "off + length stored \<le> u64_max"
    and parse: "parse_directory (published_superblock env c (s, free, payload, codec, stored, off)) limits payload = Inr (d, f)"
  shows "f = free" and "length f \<le> max_directory_entries limits"
proof -
  let ?sb = "published_superblock env c (s, free, payload, codec, stored, off)"
  let ?l = "limits\<lparr>max_directory_entries := length free + max_directory_entries limits\<rparr>"
  note sb = published_superblock_ok [OF ok env p fits]
  have b: "unat (sb_dir_off ?sb) + unat (sb_dir_stored ?sb) \<le> u64_max" using sb(3,4) fits by simp
  have df: "dir_fits ?sb limits d f" and bytes: "payload = directory_bytes d f" using parse parse_directory_iff [OF b] by auto
  show "length f \<le> max_directory_entries limits" using df by (simp add: dir_fits_def)
  have "dir_fits ?sb ?l d f" using df by (simp add: dir_fits_def)
  then have "parse_directory ?sb ?l payload = Inr (d, f)" using parse_directory_iff [OF b] bytes by blast
  moreover have "parse_directory ?sb ?l payload = Inr (c_dir c, free)"
    using parse_directory_iff [OF b] published_fits [OF ok env p fits, of ?l] sb(8) by simp
  ultimately show "f = free" by simp
qed

lemma read_directory_parse:
  assumes "read_directory crc dec f sb limits = Inr x" and "sb_seq sb \<noteq> 0"
    and "f (unat (sb_dir_off sb)) (unat (sb_dir_stored sb)) = Inr stored"
    and "codec_decode dec (sb_dir_codec sb) stored (sb_dir_raw sb) None = Inr payload"
  shows "parse_directory sb limits payload = Inr x"
  using assms by (auto simp: read_directory_def bind_res_Inr_iff split: if_splits)

text \<open>The published block reads back under exactly the policies that admit it.\<close>

lemma published_directory:
  assumes ok: "stage_ok c" and env: "prims_ok env" and p: "prepare_commit env c = Inr (s, free, payload, codec, stored, off)"
    and fits: "off + length stored \<le> u64_max"
    and g: "off + length stored \<le> length img" "slice img off (off + length stored) = stored"
  defines "sb \<equiv> published_superblock env c (s, free, payload, codec, stored, off)"
  shows "policy_admits limits sb free \<Longrightarrow>
      read_directory (p_crc env) (p_decompress env) (mem_read img) sb limits = Inr (c_dir c, free)"
    and "read_directory (p_crc env) (p_decompress env) (mem_read img) sb limits = Inr x \<Longrightarrow> policy_admits limits sb free"
proof -
  note f = published_superblock_ok [OF ok env p fits, folded sb_def] and e = prepare_commit_elim [OF p]
  have s: "s \<noteq> 0" "s \<le> u64_max" using e by (auto simp: next_sequence_Inr)
  have off: "c_tail c \<le> off" "off mod ALIGN = 0" using e align_up_Inr by auto
  have nz: "sb_seq sb \<noteq> 0" "sb_dir_stored sb \<noteq> 0" "sb_dir_raw sb \<noteq> 0"
    using f(2,4,5,8,10) s(1) directory_bytes_nonempty by (auto simp flip: unat_eq_0)
  have dec: "codec_decode (p_decompress env) codec stored (sb_dir_raw sb) None = Inr payload"
    using codec_decode_encode [of "p_compress env" "p_decompress env" payload None 3 codec stored] env e f(9)
    by (simp add: prims_ok_def sb_def published_superblock_def MAX_DIR_RAW_def u32_max_def)
  have read: "mem_read img off (length stored) = Inr stored" using g by (simp add: mem_read_ok)
  have cs: "sb_dir_codec sb = codec" "sb_dir_xsum sb = p_crc env stored" by (simp_all add: sb_def published_superblock_def)
  have so: "semantics_ok sb" by (rule f(1))
  show "read_directory (p_crc env) (p_decompress env) (mem_read img) sb limits = Inr (c_dir c, free)"
    if "policy_admits limits sb free"
  proof -
    have pol': "admit limits ''container member directory'' (length stored) (length payload) = Inr ()"
      "length (c_dir c) \<le> max_directory_entries limits" "length free \<le> max_directory_entries limits"
      using that unfolding policy_admits_def f(4-6) by blast+
    have "dir_fits sb limits (c_dir c) free" unfolding sb_def by (rule published_fits [OF ok env p fits pol'(3)])
    then have parse: "parse_directory sb limits payload = Inr (c_dir c, free)"
      using parse_directory_iff [of sb limits payload "c_dir c" free] f(3,4,8) fits by simp
    show ?thesis
      using nz so pol' parse dec read e f(9) fits
      unfolding read_directory_def semantics_ok_def f(2-7) cs
      by (simp add: bind_res_Inr_iff checked_add_def)
  qed
  show "policy_admits limits sb free" if r: "read_directory (p_crc env) (p_decompress env) (mem_read img) sb limits = Inr x"
  proof -
    obtain d fr where x: "x = (d, fr)" by (cases x)
    have "parse_directory sb limits payload = Inr (d, fr)"
      by (rule read_directory_parse [OF r [unfolded x] nz(1), of stored]) (simp_all only: f(3,4) read cs dec)
    then have "length free \<le> max_directory_entries limits"
      using published_only_parse [OF ok env p fits, folded sb_def] by blast
    then show ?thesis using r nz by (auto simp: policy_admits_def read_directory_def bind_res_Inr_iff split: if_splits)
  qed
qed

section \<open>The run of a commit\<close>

lemma write_run:
  assumes "vfs_write_all_at data off d = (r, d')"
  obtains n where "image d' = overlay (image d) off (take n data)" "durable d' = durable d" "is_ok r \<Longrightarrow> take n data = data"
proof -
  obtain f d1 where nf: "next_fault d = (f, d1)" by (cases "next_fault d")
  show thesis
  proof (cases f)
    case Works
    show thesis by (rule that [of "length data"]) (use assms nf Works in \<open>auto simp: vfs_write_all_at_def\<close>)
  next
    case (Fails n)
    show thesis by (rule that [of n]) (use assms nf Fails in \<open>auto simp: vfs_write_all_at_def\<close>)
  qed
qed

lemma sync_run:
  assumes "vfs_sync_file d = (r, d')"
  shows "image d' = image d" "durable d' = (if is_ok r then image d else durable d)"
proof -
  obtain f d1 where nf: "next_fault d = (f, d1)" by (cases "next_fault d")
  show "image d' = image d" "durable d' = (if is_ok r then image d else durable d)"
    using assms nf by (cases f; auto simp: vfs_sync_file_def)+
qed

lemma flip_cases:
  assumes "flip env sb c = (r, c')"
  obtains (failed) e n d where "r = Inl e"
      "image d = overlay (c_image c) ((1 - c_slot c) * SLOT_LEN) (take n (superblock_encode (p_blake3 env) sb))"
      "durable d = durable (c_disk c)"
      "c' = reconcile_after_publication_failure env sb (1 - c_slot c) (c\<lparr> c_failed_selected := None, c_disk := d \<rparr>)"
  | (flipped) d where "r = Inr (sb_seq sb)"
      "image d = overlay (c_image c) ((1 - c_slot c) * SLOT_LEN) (superblock_encode (p_blake3 env) sb)"
      "durable d = image d"
      "c' = c\<lparr> c_failed_selected := None, c_disk := d, c_sb := sb, c_tail := unat (sb_tail sb), c_slot := 1 - c_slot c,
         c_staged := False, c_acknowledged := True \<rparr>"
proof -
  let ?enc = "superblock_encode (p_blake3 env) sb" and ?o = "(1 - c_slot c) * SLOT_LEN" and ?c = "c\<lparr> c_failed_selected := None \<rparr>"
  obtain r1 d1 where w: "vfs_write_all_at ?enc ?o (c_disk c) = (r1, d1)" by (cases "vfs_write_all_at ?enc ?o (c_disk c)")
  obtain n where n: "image d1 = overlay (c_image c) ?o (take n ?enc)" "durable d1 = durable (c_disk c)"
      "is_ok r1 \<Longrightarrow> take n ?enc = ?enc"
    using write_run [OF w] by blast
  have a1: "at_disk (vfs_write_all_at ?enc ?o) ?c = (r1, ?c\<lparr> c_disk := d1 \<rparr>)" by (simp add: at_disk_def w [simplified])
  show thesis
  proof (cases r1)
    case (Inl e)
    have "c' = reconcile_after_publication_failure env sb (1 - c_slot c) (?c\<lparr> c_disk := d1 \<rparr>)" "r = Inl e"
      using assms Inl by (simp_all add: flip_def Let_def bind_op_def a1 del: One_nat_def)
    then show thesis using failed n by blast
  next
    case (Inr u)
    obtain r2 d2 where s: "vfs_sync_file d1 = (r2, d2)" by (cases "vfs_sync_file d1")
    have a2: "at_disk vfs_sync_file (?c\<lparr> c_disk := d1 \<rparr>) = (r2, ?c\<lparr> c_disk := d2 \<rparr>)" by (simp add: at_disk_def s)
    note sy = sync_run [OF s]
    show thesis
    proof (cases r2)
      case (Inl e)
      have "c' = reconcile_after_publication_failure env sb (1 - c_slot c) (?c\<lparr> c_disk := d2 \<rparr>)" "r = Inl e"
        using assms Inl Inr by (simp_all add: flip_def Let_def bind_op_def a1 a2 del: One_nat_def)
      moreover have "image d2 = overlay (c_image c) ?o (take n ?enc)" "durable d2 = durable (c_disk c)"
        using sy n Inl by simp_all
      ultimately show thesis using failed by blast
    next
      case (Inr u2)
      have "r = Inr (sb_seq sb)" "c' = c\<lparr> c_failed_selected := None, c_disk := d2, c_sb := sb, c_tail := unat (sb_tail sb),
          c_slot := 1 - c_slot c, c_staged := False, c_acknowledged := True \<rparr>"
        using assms Inr \<open>r1 = Inr u\<close> by (simp_all add: flip_def Let_def bind_op_def a1 a2 del: One_nat_def)
      moreover have "image d2 = overlay (c_image c) ?o ?enc" "durable d2 = image d2"
        using sy n Inr \<open>r1 = Inr u\<close> by simp_all
      ultimately show thesis using flipped by blast
    qed
  qed
qed

text \<open>What is left of a commit that stopped before the flip.\<close>

definition early :: "container \<Rightarrow> container \<Rightarrow> bool" where
  "early c c1 \<longleftrightarrow> grows (c_tail c) (c_image c) (c_image c1) \<and> durable (c_disk c1) = durable (c_disk c) \<and>
     c_sb c1 = c_sb c \<and> c_slot c1 = c_slot c \<and> c_limits c1 = c_limits c \<and> c_failed_selected c1 = c_failed_selected c"

lemma commit_staged_cases:
  assumes run: "commit_staged env c = (r, c')"
  obtains (early) e where "r = Inl e" "early c c'"
  | (flipped) s free payload codec stored off d rf cf where
      "prepare_commit env c = Inr (s, free, payload, codec, stored, off)" "off + length stored \<le> u64_max"
      "image d = overlay (c_image c) off stored" "durable d = image d"
      "flip env (published_superblock env c (s, free, payload, codec, stored, off)) (c\<lparr>c_disk := d\<rparr>) = (rf, cf)"
      "(r, c') = (case rf of Inl e \<Rightarrow> (Inl e, cf) | Inr x \<Rightarrow> (Inr x, cf\<lparr>c_free := free\<rparr>))"
proof (cases "prepare_commit env c")
  case (Inl e)
  then show thesis using run early [of e] by (auto simp: commit_staged_def early_def)
next
  case (Inr q)
  obtain s free payload codec stored off where q: "q = (s, free, payload, codec, stored, off)" by (cases q)
  note p = Inr [unfolded q] and e = prepare_commit_elim [OF Inr [unfolded q]]
  obtain r1 d1 where w: "vfs_write_all_at stored off (c_disk c) = (r1, d1)" by (cases "vfs_write_all_at stored off (c_disk c)")
  obtain n where n: "image d1 = overlay (c_image c) off (take n stored)" "durable d1 = durable (c_disk c)"
      "is_ok r1 \<Longrightarrow> take n stored = stored"
    using write_run [OF w] by blast
  have a1: "at_disk (vfs_write_all_at stored off) c = (r1, c\<lparr>c_disk := d1\<rparr>)" by (simp add: at_disk_def w)
  have off: "c_tail c \<le> off" using e(8) align_up_Inr by blast
  have e1: "early c (c\<lparr>c_disk := d1\<rparr>)" using n grows_overlay [OF off] by (simp add: early_def)
  show thesis
  proof (cases "is_ok r1 \<and> off + length stored \<le> u64_max \<and> length payload \<le> u32_max")
    case False
    then have "\<exists>e. r = Inl e" "c' = c\<lparr>c_disk := d1\<rparr>"
      using run by (cases r1; auto simp: commit_staged_def p bind_op_def ask_def a1 checked_add_def u32_field_def split: if_splits)+
    then show thesis using early e1 by blast
  next
    case True
    then obtain u where r1: "r1 = Inr u" by (auto simp: is_ok_iff)
    obtain r2 d2 where sy: "vfs_sync_file d1 = (r2, d2)" by (cases "vfs_sync_file d1")
    note sr = sync_run [OF sy]
    have a2: "at_disk vfs_sync_file (c\<lparr>c_disk := d1\<rparr>) = (r2, c\<lparr>c_disk := d2\<rparr>)" by (simp add: at_disk_def sy)
    have st: "length stored \<le> u32_max" "length (c_dir c) \<le> u32_max"
      using e(2,7) by (simp_all add: MAX_DIR_STORED_def MAX_MEMBERS_def u32_max_def)
    let ?sb = "published_superblock env c (s, free, payload, codec, stored, off)"
    have run': "commit_staged env c = bind_op (at_disk vfs_sync_file) (\<lambda>_. bind_op (flip env ?sb) (\<lambda>sequence.
        bind_op (change (\<lambda>c. c\<lparr> c_free := free \<rparr>)) (\<lambda>_. ask (\<lambda>_. Inr sequence)))) (c\<lparr>c_disk := d1\<rparr>)"
      using True st r1 by (simp add: commit_staged_def p bind_op_def ask_def a1 checked_add_def u32_field_def published_superblock_def)
    show thesis
    proof (cases r2)
      case (Inl x)
      then have "r = Inl x" "c' = c\<lparr>c_disk := d2\<rparr>" using run unfolding run' by (simp_all add: bind_op_def a2)
      moreover have "early c (c\<lparr>c_disk := d2\<rparr>)" using e1 sr Inl by (simp add: early_def)
      ultimately show thesis using early by blast
    next
      case (Inr y)
      obtain rf cf where fl: "flip env ?sb (c\<lparr>c_disk := d2\<rparr>) = (rf, cf)" by (cases "flip env ?sb (c\<lparr>c_disk := d2\<rparr>)")
      have "(r, c') = (case rf of Inl e \<Rightarrow> (Inl e, cf) | Inr x \<Rightarrow> (Inr x, cf\<lparr>c_free := free\<rparr>))"
        using run Inr unfolding run' by (cases rf) (auto simp: bind_op_def a2 fl change_def ask_def)
      moreover have "image d2 = overlay (c_image c) off stored" "durable d2 = image d2"
        using sr n Inr True by simp_all
      ultimately show thesis using flipped [OF p _ _ _ fl] True by blast
    qed
  qed
qed

section \<open>After a crash\<close>

text \<open>What a crash may leave of a file: at least what the last barrier covered, and every byte of it that was not
  overwritten since; the others are arbitrary.\<close>

definition crash_image :: "disk \<Rightarrow> bytes \<Rightarrow> bool" where
  "crash_image d img \<longleftrightarrow> length (durable d) \<le> length img \<and>
     (\<forall>i < length (durable d). i < length (image d) \<and> image d ! i = durable d ! i \<longrightarrow> img ! i = durable d ! i)"

text \<open>The published state of an acknowledged handle is on the durable file.\<close>

definition settled :: "container \<Rightarrow> bool" where
  "settled c \<longleftrightarrow> unat (sb_tail (c_sb c)) \<le> length (durable (c_disk c)) \<and>
     take (unat (sb_tail (c_sb c))) (durable (c_disk c)) = take (unat (sb_tail (c_sb c))) (c_image c)"

definition based_on :: "prims \<Rightarrow> container \<Rightarrow> member_dir \<Rightarrow> free_list \<Rightarrow> bool" where
  "based_on env c dir free \<longleftrightarrow> open_image env (c_image c) (c_limits c) = Inr (c_sb c, c_slot c, dir, free) \<and>
     unat (sb_tail (c_sb c)) \<le> c_tail c"

definition dir_contents :: "bytes \<Rightarrow> member_dir \<Rightarrow> bytes \<Rightarrow> bytes option" where
  "dir_contents img dir name = map_option (\<lambda>m. ext_bytes img (mextents m)) (map_of dir name)"

text \<open>A torn slot write fails its checksum: the slot holds what it held, the whole new superblock, or nothing readable.\<close>

definition torn_slot_detected :: "prims \<Rightarrow> container \<Rightarrow> bytes \<Rightarrow> bool" where
  "torn_slot_detected env c img \<longleftrightarrow>
     (let s = slot_bytes img (1 - c_slot c) in
      s = slot_bytes (c_image c) (1 - c_slot c) \<or> superblock_decode (p_blake3 env) s = Inr None \<or>
      (\<exists>sb. next_superblock env c = Inr sb \<and> s = superblock_encode (p_blake3 env) sb))"

lemma dir_contents_same:
  assumes "same_outside k t a b" and "k \<le> 1" and "\<And>name m. map_of dir name = Some m \<Longrightarrow>
    list_all (\<lambda>(off, len). REGION_START \<le> off \<and> off + len \<le> t) (mextents m)"
  shows "dir_contents b dir = dir_contents a dir"
proof
  fix name
  have e: "ext_bytes b es = ext_bytes a es" if "list_all (\<lambda>(off, len). REGION_START \<le> off \<and> off + len \<le> t) es" for es
    using that
  proof (induction es)
    case (Cons x es)
    then show ?case
      using same_outside_slice [OF assms(1), of "fst x + snd x" "fst x"] assms(2)
      by (cases x) (auto simp: REGION_START_def SLOT_LEN_def le_Suc_eq)
  qed simp
  show "dir_contents b dir name = dir_contents a dir name"
    using e assms(3) by (cases "map_of dir name") (simp_all add: dir_contents_def)
qed

lemma same_prefix: "t \<le> length a \<Longrightarrow> t \<le> length b \<Longrightarrow> take t a = take t b \<Longrightarrow> same_outside k t a b"
  unfolding same_outside_def by (metis nth_take)

lemma published_ranges_within:
  assumes "based_on env c pd pf" and "map_of pd name = Some m"
  shows "list_all (\<lambda>(off, len). REGION_START \<le> off \<and> off + len \<le> unat (sb_tail (c_sb c))) (mextents m)"
proof -
  have o': "open_image env (c_image c) (c_limits c) = Inr (c_sb c, c_slot c, pd, pf)" using assms(1) by (simp add: based_on_def)
  note l = open_image_live [OF o']
  have r: "read_directory (p_crc env) (p_decompress env) (mem_read (c_image c)) (c_sb c) (c_limits c) = Inr (pd, pf)"
    using o' by (simp add: open_image_Inr)
  have v: "validate_semantics (c_sb c) = Inr ()" using l(3) by simp
  have "list_all (region_ok (unat (sb_dir_off (c_sb c)))) (mextents m)"
    using read_directory_owns [OF v r] map_of_SomeD [OF assms(2)] unfolding list_all_iff by fastforce
  moreover have "unat (sb_dir_off (c_sb c)) \<le> unat (sb_tail (c_sb c))"
    using l(3) by (auto simp: semantics_ok_def is_empty_birth_superblock_def split: if_splits)
  ultimately show ?thesis by (auto simp: list_all_iff region_ok_def)
qed

lemma crash_before_flip:
  assumes old: "based_on env c pd pf" and set: "settled c" and e: "early c c1" and cr: "crash_image (c_disk c1) img"
  shows "open_image env img (c_limits c) = Inr (c_sb c, c_slot c, pd, pf) \<and> dir_contents img pd = dir_contents (c_image c) pd"
proof -
  let ?t = "unat (sb_tail (c_sb c))"
  have o': "open_image env (c_image c) (c_limits c) = Inr (c_sb c, c_slot c, pd, pf)" using old by (simp add: based_on_def)
  note l = open_image_live [OF o']
  have t: "?t \<le> c_tail c" "?t \<le> length (c_image c)" using old by (auto simp: based_on_def open_image_Inr)
  have d: "durable (c_disk c1) = durable (c_disk c)" and g: "grows (c_tail c) (c_image c) (c_image c1)" using e by (simp_all add: early_def)
  have len: "?t \<le> length img" "?t \<le> length (c_image c1)" using set cr d g t by (auto simp: settled_def crash_image_def grows_def)
  have "take ?t (c_image c1) = take ?t (c_image c)"
    using g t by (auto simp: grows_def intro: take_eq_mono [of "min (c_tail c) (length (c_image c))"])
  then have b1: "c_image c1 ! i = c_image c ! i" if "i < ?t" for i using that by (metis nth_take)
  have b2: "durable (c_disk c) ! i = c_image c ! i" if "i < ?t" for i using that set unfolding settled_def by (metis nth_take)
  have "img ! i = c_image c ! i" if "i < ?t" for i
    using cr b1 [OF that] b2 [OF that] that set len(2) d by (auto simp: crash_image_def settled_def)
  then have tk: "take ?t (c_image c) = take ?t img" using t(2) len(1) by (intro nth_equalityI) auto
  have same: "same_outside k ?t (c_image c) img" for k by (rule same_prefix [OF t(2) len(1) tk])
  have "slot_bytes img (1 - c_slot c) = slot_bytes (c_image c) (1 - c_slot c)"
    by (rule same_outside_slot [OF same [of "c_slot c"] l(4) l(1)]) (use l(1) in presburger)+
  moreover have "dir_contents img pd = dir_contents (c_image c) pd"
    by (rule dir_contents_same [OF same [of 0] _ published_ranges_within [OF old]]) simp_all
  ultimately show ?thesis using open_old [OF o' same] by blast
qed

lemma overlay_slot:
  assumes "REGION_START \<le> length a" and "k \<le> 1" and "length x \<le> SLOT_LEN"
  shows "same_outside k (length a) a (overlay a (k * SLOT_LEN) x)" "length (overlay a (k * SLOT_LEN) x) = length a"
    "length x = SLOT_LEN \<Longrightarrow> slot_bytes (overlay a (k * SLOT_LEN) x) k = x"
proof -
  have b: "k * SLOT_LEN + length x \<le> length a" using assms by (auto simp: REGION_START_def SLOT_LEN_def le_Suc_eq)
  show l: "length (overlay a (k * SLOT_LEN) x) = length a" using b by (simp add: overlay_inside)
  have e: "overlay a (k * SLOT_LEN) x = take (k * SLOT_LEN) a @ x @ drop (k * SLOT_LEN + length x) a"
    using b by (cases "x = []") (simp_all add: overlay_at)
  have "overlay a (k * SLOT_LEN) x ! i = a ! i" if "i < length a" "\<not> (k * SLOT_LEN \<le> i \<and> i < k * SLOT_LEN + SLOT_LEN)" for i
    unfolding e using that b assms(3) by (auto simp: nth_append min_def)
  then show "same_outside k (length a) a (overlay a (k * SLOT_LEN) x)" by (simp add: same_outside_def l)
  show "length x = SLOT_LEN \<Longrightarrow> slot_bytes (overlay a (k * SLOT_LEN) x) k = x"
    using slice_overlay [of a "k * SLOT_LEN" x] by (simp add: slot_bytes_def)
qed

lemma same_outside_trans:
  assumes "same_outside k t a b" and "same_outside k s b c" and "t \<le> s"
  shows "same_outside k t a c"
  using assms unfolding same_outside_def by (metis order_less_le_trans order_trans)

text \<open>The facts of a commit whose directory is durable and whose slot write was started.\<close>

lemma flip_state:
  assumes ok: "stage_ok c" and env: "prims_ok env" and old: "based_on env c pd pf"
    and p: "prepare_commit env c = Inr (s, free, payload, codec, stored, off)" and fits: "off + length stored \<le> u64_max"
    and J: "J = overlay (c_image c) off stored" and img: "same_outside (1 - c_slot c) (length J) J img"
  defines "sb \<equiv> published_superblock env c (s, free, payload, codec, stored, off)"
  shows "same_outside (1 - c_slot c) (unat (sb_tail (c_sb c))) (c_image c) img"
    and "dir_contents img pd = dir_contents (c_image c) pd" and "dir_contents img (c_dir c) = contents c"
    and "slot_bytes img (1 - c_slot c) = superblock_encode (p_blake3 env) sb \<Longrightarrow>
      if policy_admits limits sb free then open_image env img limits = Inr (sb, 1 - c_slot c, c_dir c, free)
      else \<not> is_ok (open_image env img limits)"
proof -
  let ?t = "unat (sb_tail (c_sb c))" and ?k = "1 - c_slot c"
  have o': "open_image env (c_image c) (c_limits c) = Inr (c_sb c, c_slot c, pd, pf)" using old by (simp add: based_on_def)
  note l = open_image_live [OF o']
  note f = published_superblock_ok [OF ok env p fits, folded sb_def] and e = prepare_commit_elim [OF p]
  have k: "?k \<le> 1" by simp
  have off: "c_tail c \<le> off" using e(8) align_up_Inr by blast
  have t: "?t \<le> c_tail c" "?t \<le> length (c_image c)" using old by (auto simp: based_on_def open_image_Inr)
  have g: "grows (c_tail c) (c_image c) J" using grows_overlay [OF off] by (simp add: J)
  have lenJ: "off + length stored \<le> length J" using f(10) by (simp add: J length_overlay)
  have tJ: "?t \<le> length J" using t g by (simp add: grows_def)
  have "take ?t (c_image c) = take ?t J"
    using g t by (auto simp: grows_def intro: take_eq_mono [of "min (c_tail c) (length (c_image c))", symmetric])
  then have same1: "same_outside ?k ?t (c_image c) J" using t(2) tJ by (rule_tac same_prefix)
  show same: "same_outside ?k ?t (c_image c) img" by (rule same_outside_trans [OF same1 img tJ])
  show "dir_contents img pd = dir_contents (c_image c) pd"
    by (rule dir_contents_same [OF same k published_ranges_within [OF old]])
  have "dir_contents img (c_dir c) = dir_contents J (c_dir c)"
  proof (rule dir_contents_same [OF img k])
    fix name m assume "map_of (c_dir c) name = Some m"
    from member_ranges [OF ok this] show "list_all (\<lambda>(off, len). REGION_START \<le> off \<and> off + len \<le> length J) (mextents m)"
      using g by (auto simp: list_all_iff range_ok_def grows_def)
  qed
  also have "\<dots> = contents c"
    using contents_grows [OF ok, of "c\<lparr>c_disk := (c_disk c)\<lparr>image := J\<rparr>\<rparr>"] g
    by (simp add: contents_def dir_contents_def fun_eq_iff)
  finally show "dir_contents img (c_dir c) = contents c" .
  assume enc: "slot_bytes img ?k = superblock_encode (p_blake3 env) sb"
  have slice: "slice J off (off + length stored) = stored" by (simp add: J slice_overlay)
  note pd = published_directory [OF ok env p fits lenJ slice, folded sb_def]
  have same_dir: "read_directory (p_crc env) (p_decompress env) (mem_read img) sb limits =
      read_directory (p_crc env) (p_decompress env) (mem_read J) sb limits"
    by (rule same_outside_directory [OF img k _ f(1)]) (use lenJ f(7) in simp)
  have h: "4 \<le> length (p_blake3 env x)" for x using env by (simp add: prims_ok_def)
  have len: "unat (sb_tail sb) \<le> length img" using lenJ f(7) img by (simp add: same_outside_def)
  have new: "superblock_decode (p_blake3 env) (slot_bytes img ?k) = Inr (Some sb)"
    unfolding enc by (rule superblock_decode_encode [OF h f(1)])
  have keep: "slot_bytes img (c_slot c) = slot_bytes (c_image c) (c_slot c)"
    by (rule same_outside_slot [OF same l(4) k l(1)]) (use l(1) in presburger)
  show "if policy_admits limits sb free then open_image env img limits = Inr (sb, ?k, c_dir c, free)
      else \<not> is_ok (open_image env img limits)"
  proof (cases "policy_admits limits sb free")
    case True
    then show ?thesis using open_new [OF o' same enc h f(1) f(12) len] pd(1) same_dir by simp
  next
    case False
    have "open_image env img limits \<noteq> Inr (live, slot, d, fr)" for live slot d fr
    proof
      assume opened: "open_image env img limits = Inr (live, slot, d, fr)"
      have "live = sb" by (rule newer_selected [OF opened l(1) new _ f(12)]) (simp only: keep l(2))
      then have "read_directory (p_crc env) (p_decompress env) (mem_read J) sb limits = Inr (d, fr)"
        using opened same_dir by (simp add: open_image_Inr)
      then show False using pd(2) False by blast
    qed
    then show ?thesis using False by (auto simp: is_ok_iff)
  qed
qed

lemma reconcile_disk [simp]: "c_disk (reconcile_after_publication_failure env sb k c) = c_disk c"
  by (simp add: reconcile_after_publication_failure_def Let_def adopt_def split: prod.splits sum.splits bool.splits)

lemma discard_disk [simp]: "c_disk (snd (discard_staged env c)) = c_disk c"
  "c_failed_selected (snd (discard_staged env c)) = c_failed_selected c"
  by (cases "read_directory (p_crc env) (p_decompress env) (mem_read (c_image c)) (c_sb c) (c_limits c)";
      auto simp: discard_staged_def change_def)+

lemma commit_failed_disk [simp]: "c_disk (commit_failed env c) = c_disk c"
  by (simp add: commit_failed_def)

lemma commit_run:
  assumes "ensure_writable c = Inr ()" and "c_staged c" and "container_commit env c = (r, c')"
  obtains r1 c1 where "commit_staged env (c\<lparr> c_failed_selected := None \<rparr>) = (r1, c1)"
    "(r, c') = (case r1 of Inl e \<Rightarrow> (Inl e, commit_failed env c1) | Inr s \<Rightarrow> (Inr s, c1))"
proof -
  obtain r1 c1 where s: "commit_staged env (c\<lparr> c_failed_selected := None \<rparr>) = (r1, c1)"
    by (cases "commit_staged env (c\<lparr> c_failed_selected := None \<rparr>)")
  have "(r, c') = (case r1 of Inl e \<Rightarrow> (Inl e, commit_failed env c1) | Inr s \<Rightarrow> (Inr s, c1))"
    using assms s by (cases r1) (auto simp: container_commit_def)
  with s show thesis by (rule that)
qed

text \<open>Clearing the outcome of the previous publication changes nothing that the lemmas speak of.\<close>

lemma unfailed [simp]:
  "stage_ok (c\<lparr> c_failed_selected := x \<rparr>) = stage_ok c" "contents (c\<lparr> c_failed_selected := x \<rparr>) = contents c"
  "prepare_commit env (c\<lparr> c_failed_selected := x \<rparr>) = prepare_commit env c"
  "based_on env (c\<lparr> c_failed_selected := x \<rparr>) = based_on env c"
  "settled (c\<lparr> c_failed_selected := x \<rparr>) = settled c"
  "published_superblock env (c\<lparr> c_failed_selected := x \<rparr>) = published_superblock env c"
  "next_superblock env (c\<lparr> c_failed_selected := x \<rparr>) = next_superblock env c"
proof -
  have u: "c_dir (c\<lparr> c_failed_selected := x \<rparr>) = c_dir c" "c_tail (c\<lparr> c_failed_selected := x \<rparr>) = c_tail c"
    "next_sequence (c\<lparr> c_failed_selected := x \<rparr>) = next_sequence c" "next_free_list (c\<lparr> c_failed_selected := x \<rparr>) = next_free_list c" for x
    by (simp_all add: next_sequence_def next_free_list_def fun_eq_iff)
  show p: "prepare_commit env (c\<lparr> c_failed_selected := x \<rparr>) = prepare_commit env c" for x
    unfolding prepare_commit_def u ..
  show q: "published_superblock env (c\<lparr> c_failed_selected := x \<rparr>) = published_superblock env c" for x
    by (simp add: published_superblock_def fun_eq_iff)
  show "stage_ok (c\<lparr> c_failed_selected := x \<rparr>) = stage_ok c" by (simp add: stage_ok_def owned_def)
  show "contents (c\<lparr> c_failed_selected := x \<rparr>) = contents c" by (simp add: contents_def fun_eq_iff)
  show "based_on env (c\<lparr> c_failed_selected := x \<rparr>) = based_on env c" by (simp add: based_on_def fun_eq_iff)
  show "settled (c\<lparr> c_failed_selected := x \<rparr>) = settled c" by (simp add: settled_def)
  show "next_superblock env (c\<lparr> c_failed_selected := x \<rparr>) = next_superblock env c" by (simp add: next_superblock_def p q)
qed

lemma crash_full: "crash_image d img \<Longrightarrow> durable d = image d \<Longrightarrow> length (image d) \<le> length img \<and> take (length (image d)) img = image d"
  by (auto simp: crash_image_def intro!: nth_equalityI)

lemma encode_length: "prims_ok env \<Longrightarrow> length (superblock_encode (p_blake3 env) sb) = SLOT_LEN"
  by (rule length_superblock_encode) (simp add: prims_ok_def)

text \<open>C1. A commit is atomic across a crash. From a handle whose staged state satisfies the layout invariant and whose
  published state is durable, run a commit under any plan of faults (a failed write leaves a prefix, a failed barrier
  nothing) and crash wherever it stopped, losing any of the bytes the last barrier did not cover: if a torn
  superblock slot fails its checksum, the file opens to the state published before with every published member's
  bytes, or the staged state is what it selects: every staged member's bytes are there, and the file opens to exactly
  the staged directory and free list under every read policy that admits them, and to nothing under any other. It is
  the staged state whenever the commit had returned. (A commit does not ask whether the policy of its own handle is
  one of those; C17 shows that it may not be.)\<close>

theorem commit_crash_atomic:
  assumes "prims_ok env" and "stage_ok c" and "based_on env c pd pf" and "settled c"
    and "ensure_writable c = Inr ()" and "c_staged c" and "container_commit env c = (r, c')"
    and "crash_image (c_disk c') img" and "torn_slot_detected env c img"
  shows "\<not> is_ok r \<and> open_image env img (c_limits c) = Inr (c_sb c, c_slot c, pd, pf) \<and>
      dir_contents img pd = dir_contents (c_image c) pd \<or>
    (\<exists>sb free. next_superblock env c = Inr sb \<and> free = next_free_list c (unat (sb_seq sb)) \<and>
      dir_contents img (c_dir c) = contents c \<and>
      (\<forall>limits. if policy_admits limits sb free then open_image env img limits = Inr (sb, 1 - c_slot c, c_dir c, free)
         else \<not> is_ok (open_image env img limits)))"
proof -
  let ?c = "c\<lparr> c_failed_selected := None \<rparr>" and ?k = "1 - c_slot c"
  obtain r1 c1 where run: "commit_staged env ?c = (r1, c1)"
    and res: "(r, c') = (case r1 of Inl e \<Rightarrow> (Inl e, commit_failed env c1) | Inr s \<Rightarrow> (Inr s, c1))"
    using commit_run [OF assms(5-7)] by blast
  have d: "c_disk c' = c_disk c1" and ok: "is_ok r = is_ok r1" using res by (cases r1; simp)+
  show ?thesis
    using run
  proof (cases rule: commit_staged_cases)
    case (early e)
    have "open_image env img (c_limits ?c) = Inr (c_sb ?c, c_slot ?c, pd, pf) \<and> dir_contents img pd = dir_contents (c_image ?c) pd"
      by (rule crash_before_flip [OF _ _ early(2)]) (use assms d in simp_all)
    then show ?thesis using early(1) ok by simp
  next
    case (flipped s free payload codec stored off d1 rf cf)
    let ?sb = "published_superblock env c (s, free, payload, codec, stored, off)" and ?J = "overlay (c_image c) off stored"
    have p: "prepare_commit env c = Inr (s, free, payload, codec, stored, off)" using flipped(1) by simp
    have nsb: "next_superblock env c = Inr ?sb" using p by (simp add: next_superblock_def)
    have enc: "length (superblock_encode (p_blake3 env) ?sb) = SLOT_LEN" by (rule encode_length [OF assms(1)])
    have o': "open_image env (c_image c) (c_limits c) = Inr (c_sb c, c_slot c, pd, pf)" using assms(3) by (simp add: based_on_def)
    note l = open_image_live [OF o']
    have off: "c_tail c \<le> off" using prepare_commit_elim(8) [OF p] align_up_Inr by blast
    have J: "REGION_START \<le> length ?J" using o' by (auto simp: open_image_Inr length_overlay)
    have k: "?k \<le> 1" by simp
    have dc: "c_disk c' = c_disk cf" "is_ok r = is_ok rf" using flipped(6) d ok by (cases rf; simp)+
    obtain n where n: "c_image cf = overlay ?J (?k * SLOT_LEN) (take n (superblock_encode (p_blake3 env) ?sb))"
        "durable (c_disk cf) = (if is_ok rf then c_image cf else ?J)"
        "is_ok rf \<Longrightarrow> take n (superblock_encode (p_blake3 env) ?sb) = superblock_encode (p_blake3 env) ?sb"
      using flipped(5)
    proof (cases rule: flip_cases)
      case (failed e n d)
      then show thesis using that [of n] flipped(3,4) by simp
    next
      case (flipped d)
      then show thesis using that [of SLOT_LEN] \<open>image d1 = _\<close> enc by simp
    qed
    have tk: "length (take n (superblock_encode (p_blake3 env) ?sb)) \<le> SLOT_LEN" using enc by simp
    note os = overlay_slot [OF J k tk, folded n(1)]
    have cr: "crash_image (c_disk cf) img" using assms(8) dc by simp
    have img: "same_outside ?k (length ?J) ?J img"
      using cr os(1,2) n(2) by (auto simp: same_outside_def crash_image_def split: if_splits)
    note fs = flip_state [OF assms(2,1,3) p flipped(2) refl img]
    show ?thesis
    proof (cases "slot_bytes img ?k = superblock_encode (p_blake3 env) ?sb")
      case True
      then have "if policy_admits limits ?sb free then open_image env img limits = Inr (?sb, ?k, c_dir c, free)
          else \<not> is_ok (open_image env img limits)" for limits by (rule fs(4))
      moreover have "free = next_free_list c (unat (sb_seq ?sb))"
        using prepare_commit_elim(3) [OF p] published_superblock_ok(2) [OF assms(2,1) p flipped(2)] by simp
      ultimately show ?thesis using nsb fs(3) by blast
    next
      case False
      have "\<not> is_ok rf"
      proof
        assume okf: "is_ok rf"
        then have "take (length (c_image cf)) img = c_image cf" using crash_full [OF cr] n(2) by simp
        then have "slot_bytes img ?k = slot_bytes (c_image cf) ?k"
          using same_outside_slice [OF same_prefix [of "length ?J" "c_image cf" img 2], of "?k * SLOT_LEN + SLOT_LEN" "?k * SLOT_LEN"]
            crash_full [OF cr] n(2) okf J os(2) k
          by (auto simp: slot_bytes_def REGION_START_def SLOT_LEN_def le_Suc_eq)
        moreover have "slot_bytes (c_image cf) ?k = superblock_encode (p_blake3 env) ?sb" using os(3) n(3) [OF okf] enc by simp
        ultimately show False using False by simp
      qed
      moreover have "slot_bytes img ?k = slot_bytes (c_image c) ?k \<or> superblock_decode (p_blake3 env) (slot_bytes img ?k) = Inr None"
        using assms(9) False nsb by (auto simp: torn_slot_detected_def Let_def)
      ultimately show ?thesis using open_old [OF o' fs(1)] fs(2) dc(2) by blast
    qed
  qed
qed

section \<open>After a commit that returned\<close>

lemma layout_length: "length a = length b \<Longrightarrow> layout a t xs \<Longrightarrow> layout b t xs"
  by (auto simp: layout_def list_all_iff range_ok_def)

lemma live_block_stored: "sb_dir_stored sb \<noteq> 0 \<Longrightarrow> live_block sb = [(unat (sb_dir_off sb), unat (sb_dir_stored sb))]"
  by (simp add: live_block_def)

lemma commit_success:
  assumes ok: "stage_ok c"
    and w: "ensure_writable c = Inr ()" and st: "c_staged c" and run: "container_commit env c = (Inr seq, c')"
  obtains s free payload codec stored off where "prepare_commit env c = Inr (s, free, payload, codec, stored, off)"
    "off + length stored \<le> u64_max" "c_sb c' = published_superblock env c (s, free, payload, codec, stored, off)"
    "seq = sb_seq (c_sb c')" "c_dir c' = c_dir c" "c_free c' = free" "c_slot c' = 1 - c_slot c" "c_limits c' = c_limits c"
    "c_tail c' = unat (sb_tail (c_sb c'))" "\<not> c_staged c'" "c_acknowledged c'" "durable (c_disk c') = c_image c'"
    "c_image c' = overlay (overlay (c_image c) off stored) ((1 - c_slot c) * SLOT_LEN) (superblock_encode (p_blake3 env) (c_sb c'))"
    "c_poisoned c' = c_poisoned c" "c_open_member c' = c_open_member c" "c_at_path c' = c_at_path c" "c_file c' = c_file c"
proof -
  let ?c = "c\<lparr> c_failed_selected := None \<rparr>"
  obtain r1 c1 where run1: "commit_staged env ?c = (r1, c1)"
    and res: "(Inr seq, c') = (case r1 of Inl e \<Rightarrow> (Inl e, commit_failed env c1) | Inr s \<Rightarrow> (Inr s, c1))"
    using commit_run [OF w st run] by blast
  have r1: "r1 = Inr seq" "c1 = c'" using res by (cases r1; simp)+
  show thesis
    using run1
  proof (cases rule: commit_staged_cases)
    case (early e)
    then show thesis using r1 by simp
  next
    case (flipped s free payload codec stored off d1 rf cf)
    have rf: "rf = Inr seq" "c' = cf\<lparr>c_free := free\<rparr>" using flipped(6) r1 by (cases rf; simp)+
    show thesis
      using flipped(5)
    proof (cases rule: flip_cases)
      case (failed e n d)
      then show thesis using rf by simp
    next
      case (flipped d)
      show thesis
        by (rule that [of s free payload codec stored off])
          (use flipped rf \<open>image d1 = _\<close> \<open>prepare_commit env ?c = _\<close> \<open>off + length stored \<le> u64_max\<close> in simp_all)
    qed
  qed
qed

lemma commit_success_state:
  assumes env: "prims_ok env" and ok: "stage_ok c" and old: "based_on env c pd pf"
    and w: "ensure_writable c = Inr ()" and st: "c_staged c" and run: "container_commit env c = (Inr seq, c')"
  shows "stage_ok c'" "if policy_admits limits (c_sb c') (c_free c')
      then open_image env (c_image c') limits = Inr (c_sb c', c_slot c', c_dir c, c_free c')
      else \<not> is_ok (open_image env (c_image c') limits)" "settled c'" "contents c' = contents c" "c_dir c' = c_dir c"
    "unat seq = Suc (unat (sb_seq (c_sb c)))" "durable (c_disk c') = c_image c'" "c_limits c' = c_limits c" "c_slot c' = 1 - c_slot c"
    "next_superblock env c = Inr (c_sb c')" "c_tail c' = unat (sb_tail (c_sb c'))" "REGION_START \<le> length (c_image c')"
proof -
  let ?k = "1 - c_slot c"
  obtain s free payload codec stored off where p: "prepare_commit env c = Inr (s, free, payload, codec, stored, off)"
    and fits: "off + length stored \<le> u64_max" and sb: "c_sb c' = published_superblock env c (s, free, payload, codec, stored, off)"
    and c': "seq = sb_seq (c_sb c')" "c_dir c' = c_dir c" "c_free c' = free" "c_slot c' = ?k" "c_limits c' = c_limits c"
      "c_tail c' = unat (sb_tail (c_sb c'))" "durable (c_disk c') = c_image c'"
    and img: "c_image c' = overlay (overlay (c_image c) off stored) (?k * SLOT_LEN) (superblock_encode (p_blake3 env) (c_sb c'))"
    using commit_success [OF ok w st run] by metis
  let ?J = "overlay (c_image c) off stored" and ?enc = "superblock_encode (p_blake3 env) (c_sb c')"
  note f = published_superblock_ok [OF ok env p fits, folded sb] and e = prepare_commit_elim [OF p]
  have enc: "length ?enc = SLOT_LEN" by (rule encode_length [OF env])
  have off: "c_tail c \<le> off" using e(8) align_up_Inr by blast
  have k: "?k \<le> 1" by simp
  have J: "REGION_START \<le> length ?J" using old by (auto simp: based_on_def open_image_Inr length_overlay)
  have enc_le: "length ?enc \<le> SLOT_LEN" using enc by simp
  note os = overlay_slot [OF J k enc_le, folded img]
  note fs = flip_state [OF ok env old p fits refl os(1), folded sb]
  have len: "off + length stored \<le> length ?J" using f(10) by (simp add: length_overlay)
  have s: "s = Suc (unat (sb_seq (c_sb c)))" using e(1) by (simp add: next_sequence_Inr)
  show "c_dir c' = c_dir c" "durable (c_disk c') = c_image c'" "c_limits c' = c_limits c" "c_slot c' = ?k"
    "c_tail c' = unat (sb_tail (c_sb c'))" by (rule c')+
  show "unat seq = Suc (unat (sb_seq (c_sb c)))" using c'(1) f(2) s by simp
  show "next_superblock env c = Inr (c_sb c')" by (simp add: next_superblock_def p sb)
  show "if policy_admits limits (c_sb c') (c_free c')
      then open_image env (c_image c') limits = Inr (c_sb c', c_slot c', c_dir c, c_free c')
      else \<not> is_ok (open_image env (c_image c') limits)"
    unfolding c'(3,4) by (rule fs(4)) (rule os(3) [OF enc])
  show "settled c'" using c'(7) f(7) len os(2) by (simp add: settled_def)
  show "REGION_START \<le> length (c_image c')" using J os(2) by simp
  show "contents c' = contents c" using fs(3) c'(2) by (simp add: contents_def dir_contents_def fun_eq_iff)
  have "layout ?J (off + length stored) (dir_ranges off (length stored) (c_dir c) free)"
    by (rule published_layout [OF ok p f(10) grows_overlay [OF off] len])
  then have "layout (c_image c') (off + length stored) (dir_ranges off (length stored) (c_dir c) free)"
    by (rule layout_length [rotated]) (use os(2) in simp)
  moreover have "dir_ranges off (length stored) (c_dir c) free = owned c'"
  proof -
    have "sb_dir_stored (c_sb c') \<noteq> 0" using f(4,10) by (auto simp flip: unat_eq_0)
    then show ?thesis by (simp add: owned_def dir_ranges_def dir_extents_def free_ranges_def live_block_stored c' f(3,4))
  qed
  moreover have "list_all (\<lambda>(_, _, t). t \<le> Suc s) free"
    using ok e(3) s by (auto simp: stage_ok_def next_free_list_def list_all_iff)
  moreover have "length (c_image c') \<le> u64_max" using os(2) ok fits by (auto simp: length_overlay stage_ok_def)
  moreover have "REGION_START \<le> off + length stored" using ok off by (simp add: stage_ok_def)
  ultimately show "stage_ok c'"
    using ok f(2,7) fits c' by (simp add: stage_ok_def)
qed

text \<open>C3. From a handle that satisfies the layout invariant and rests on the state its file holds, a staged commit that
  returned is published and durable: the live image has passed the barrier, the sequence advanced by
  one, and the handle satisfies the layout invariant for the next round and holds the same member bytes. Opening the
  file again, under any read policy that admits the published directory and free list, yields a handle that satisfies
  the invariants, with exactly the committed directory and free list and the same bytes under every name; under any
  other policy it is refused. (The policy of the committing handle may be one of the others: C17.)\<close>

theorem commit_reopens:
  assumes "prims_ok env" and "stage_ok c" and "based_on env c pd pf"
    and "ensure_writable c = Inr ()" and "c_staged c" and "container_commit env c = (Inr seq, c')"
  shows "durable (c_disk c') = c_image c' \<and> unat seq = Suc (unat (sb_seq (c_sb c))) \<and> stage_ok c' \<and> settled c' \<and>
    contents c' = contents c \<and>
    (if policy_admits limits (c_sb c') (c_free c') then
       \<exists>c2. container_open env file (c_disk c') limits = Inr c2 \<and> stage_ok c2 \<and> based_on env c2 (c_dir c) (c_free c') \<and>
         c_dir c2 = c_dir c \<and> c_free c2 = c_free c' \<and> contents c2 = contents c
     else \<not> is_ok (container_open env file (c_disk c') limits))"
proof -
  note s = commit_success_state [OF assms]
  have "if policy_admits limits (c_sb c') (c_free c') then
       \<exists>c2. container_open env file (c_disk c') limits = Inr c2 \<and> stage_ok c2 \<and> based_on env c2 (c_dir c) (c_free c') \<and>
         c_dir c2 = c_dir c \<and> c_free c2 = c_free c' \<and> contents c2 = contents c
     else \<not> is_ok (container_open env file (c_disk c') limits)"
  proof (cases "policy_admits limits (c_sb c') (c_free c')")
    case True
    then have o': "open_image env (c_image c') limits = Inr (c_sb c', c_slot c', c_dir c, c_free c')" using s(2) by simp
    let ?c = "\<lparr> c_disk = c_disk c', c_at_path = Own, c_file = file, c_dir = c_dir c, c_free = c_free c', c_sb = c_sb c',
       c_tail = unat (sb_tail (c_sb c')), c_slot = c_slot c', c_staged = False, c_open_member = None, c_next_member_token = 0,
       c_poisoned = False, c_failed_selected = None, c_acknowledged = False, c_limits = limits \<rparr>"
    have "container_open env file (c_disk c') limits = Inr ?c" by (simp add: container_open_def o')
    moreover have "stage_ok ?c" using s(1,5,11) by (simp add: stage_ok_def owned_def)
    moreover have "based_on env ?c (c_dir c) (c_free c')" using o' by (simp add: based_on_def)
    moreover have "contents ?c = contents c" using s(4,5) by (simp add: contents_def fun_eq_iff)
    ultimately show ?thesis using True by auto
  next
    case False
    then have "\<not> is_ok (open_image env (c_image c') limits)" using s(2) by simp
    then show ?thesis using False by (auto simp: container_open_def is_ok_iff bind_res_Inr_iff)
  qed
  then show ?thesis using s(1,3,4,6,7) by blast
qed

lemma reconcile_outcome:
  assumes "c' = reconcile_after_publication_failure env sb k c"
  shows "c_poisoned c' \<or> c_failed_selected c' = Some True \<and> c_sb c' = sb \<and> c_slot c' = k \<and> \<not> c_staged c' \<and>
    open_image env (c_image c') (c_limits c') = Inr (c_sb c', c_slot c', c_dir c', c_free c')"
proof -
  let ?c = "c\<lparr> c_poisoned := True, c_failed_selected := None \<rparr>"
  show ?thesis
  proof (cases "reopen_path env ?c")
    case (Pair o' same)
    show ?thesis
    proof (cases "is_ok o' \<and> same")
      case True
      then obtain live slot dir free where o'': "o' = Inr (live, slot, dir, free)" "same = True" by (auto simp: is_ok_iff)
      then have own: "open_image env (c_image c) (c_limits c) = Inr (live, slot, dir, free)"
        using Pair by (simp add: reopen_path_def split: at_path.splits)
      have "c' = (adopt (live, slot, dir, free) ?c)\<lparr> c_failed_selected := Some (slot = k \<and> live = sb),
          c_poisoned := \<not> (slot = k \<and> live = sb), c_acknowledged := \<not> (slot = k \<and> live = sb) \<rparr>"
        using assms Pair o'' by (simp add: reconcile_after_publication_failure_def Let_def)
      then show ?thesis using own by (simp add: adopt_def)
    next
      case False
      then have "c' = ?c" using assms Pair by (cases o'; cases same; simp add: reconcile_after_publication_failure_def Let_def split: prod.splits)
      then show ?thesis by simp
    qed
  qed
qed

text \<open>C4. A failed commit never leaves a handle that can be mutated on a stale view: after an error the handle is poisoned,
  or it has reread its own file and found the very state it attempted selected there, and it then holds that state's
  superblock, directory and free list with nothing staged.\<close>

theorem commit_failure_poisons:
  assumes "ensure_writable c = Inr ()" and "c_staged c" and "container_commit env c = (Inl e, c')"
  shows "c_poisoned c' \<and> \<not> is_ok (ensure_writable c') \<or>
    c_failed_selected c' = Some True \<and> next_superblock env c = Inr (c_sb c') \<and> c_slot c' = 1 - c_slot c \<and> \<not> c_staged c' \<and>
    open_image env (c_image c') (c_limits c') = Inr (c_sb c', c_slot c', c_dir c', c_free c')"
proof -
  let ?c = "c\<lparr> c_failed_selected := None \<rparr>"
  obtain r1 c1 where run: "commit_staged env ?c = (r1, c1)"
    and res: "(Inl e, c') = (case r1 of Inl e \<Rightarrow> (Inl e, commit_failed env c1) | Inr s \<Rightarrow> (Inr s, c1))"
    using commit_run [OF assms] by blast
  have c': "c' = commit_failed env c1" "r1 = Inl e" using res by (cases r1; simp)+
  have p: "c_poisoned c' \<or> c_failed_selected c1 \<noteq> None \<and> c' = c1" using c' by (auto simp: commit_failed_def)
  have "c_poisoned c' \<or>
    c_failed_selected c' = Some True \<and> next_superblock env c = Inr (c_sb c') \<and> c_slot c' = 1 - c_slot c \<and> \<not> c_staged c' \<and>
    open_image env (c_image c') (c_limits c') = Inr (c_sb c', c_slot c', c_dir c', c_free c')"
    using run
  proof (cases rule: commit_staged_cases)
    case (early e)
    then show ?thesis using p by (auto simp: early_def)
  next
    case (flipped s free payload codec stored off d1 rf cf)
    let ?sb = "published_superblock env c (s, free, payload, codec, stored, off)"
    have nsb: "next_superblock env c = Inr ?sb" using flipped(1) by (simp add: next_superblock_def)
    have rf: "c1 = cf" "rf = Inl e" using flipped(6) c' by (cases rf; auto)+
    show ?thesis
      using flipped(5)
    proof (cases rule: flip_cases)
      case (failed e' n d)
      from reconcile_outcome [OF failed(4)] show ?thesis using p rf nsb by auto
    next
      case (flipped d)
      then show ?thesis using rf by simp
    qed
  qed
  then show ?thesis by (auto simp: ensure_writable_def)
qed

section \<open>Chaining the invariants\<close>

lemma based_on_keeps:
  assumes "based_on env c pd pf" and "keeps c c'"
  shows "based_on env c' pd pf"
proof -
  let ?t = "unat (sb_tail (c_sb c))"
  have o': "open_image env (c_image c) (c_limits c) = Inr (c_sb c, c_slot c, pd, pf)" using assms(1) by (simp add: based_on_def)
  note l = open_image_live [OF o']
  have t: "?t \<le> c_tail c" "?t \<le> length (c_image c)" using assms(1) by (auto simp: based_on_def open_image_Inr)
  have g: "grows (c_tail c) (c_image c) (c_image c')" using assms(2) by (simp add: keeps_def noise_def)
  have "take ?t (c_image c) = take ?t (c_image c')"
    using g t by (auto simp: grows_def intro: take_eq_mono [of "min (c_tail c) (length (c_image c))", symmetric])
  then have same: "same_outside k ?t (c_image c) (c_image c')" for k
    by (rule same_prefix [rotated 2]) (use t g in \<open>auto simp: grows_def\<close>)
  have "slot_bytes (c_image c') (1 - c_slot c) = slot_bytes (c_image c) (1 - c_slot c)"
    by (rule same_outside_slot [OF same [of "c_slot c"] l(4) l(1)]) (use l(1) in presburger)+
  then show ?thesis
    using open_old [OF o' same] assms(2) t by (simp add: based_on_def keeps_def)
qed

lemma settled_keeps:
  assumes "settled c" and "based_on env c pd pf" and "keeps c c'"
  shows "settled c'"
proof -
  let ?t = "unat (sb_tail (c_sb c))"
  have t: "?t \<le> c_tail c" "?t \<le> length (c_image c)" using assms(2) by (auto simp: based_on_def open_image_Inr)
  have g: "grows (c_tail c) (c_image c) (c_image c')" using assms(3) by (simp add: keeps_def noise_def)
  have "take ?t (c_image c') = take ?t (c_image c)"
    using g t by (auto simp: grows_def intro: take_eq_mono [of "min (c_tail c) (length (c_image c))"])
  then show ?thesis using assms(1,3) by (simp add: settled_def keeps_def noise_def)
qed

text \<open>Without faults a prepared commit returns.\<close>

lemma flip_works:
  assumes "plan (c_disk c) = []"
  shows "\<exists>c'. flip env sb c = (Inr (sb_seq sb), c')"
  using assms
  by (simp add: flip_def Let_def bind_op_def at_disk_def vfs_write_all_at_def vfs_sync_file_def)

lemma commit_works:
  assumes env: "prims_ok env" and ok: "stage_ok c" and p: "prepare_commit env c = Inr (s, free, payload, codec, stored, off)"
    and fits: "off + length stored \<le> u64_max" and w: "ensure_writable c = Inr ()" and st: "c_staged c" and plan: "plan (c_disk c) = []"
  shows "\<exists>seq c'. container_commit env c = (Inr seq, c')"
proof -
  let ?c = "c\<lparr> c_failed_selected := None \<rparr>" and ?sb = "published_superblock env c (s, free, payload, codec, stored, off)"
  note f = published_superblock_ok [OF ok env p fits] and e = prepare_commit_elim [OF p]
  have u: "length stored \<le> u32_max" "length payload \<le> u32_max" "length (c_dir c) \<le> u32_max"
    using e(2,7) f(9) by (simp_all add: MAX_DIR_STORED_def MAX_DIR_RAW_def MAX_MEMBERS_def u32_max_def)
  let ?d = "(c_disk c)\<lparr>image := overlay (c_image c) off stored, durable := overlay (c_image c) off stored\<rparr>"
  obtain c1 where fl: "flip env ?sb (?c\<lparr> c_disk := ?d \<rparr>) = (Inr (sb_seq ?sb), c1)"
    using flip_works [of "?c\<lparr> c_disk := ?d \<rparr>"] plan by auto
  have "commit_staged env ?c = (Inr (sb_seq ?sb), c1\<lparr> c_free := free \<rparr>)"
    using p plan fits u fl
    by (simp add: commit_staged_def bind_op_def ask_def change_def at_disk_def vfs_write_all_at_def vfs_sync_file_def
        checked_add_def u32_field_def published_superblock_def)
  then show ?thesis using w st by (simp add: container_commit_def)
qed

section \<open>The four steps of a commit\<close>

text \<open>The outcome the plan of faults holds for the \<open>i\<close>-th operation from here.\<close>

definition fault_at :: "disk \<Rightarrow> nat \<Rightarrow> fault" where
  "fault_at d i = (if i < length (plan d) then plan d ! i else Works)"

lemma next_fault_at: "next_fault d = (fault_at d 0, d\<lparr>plan := drop 1 (plan d)\<rparr>)"
  by (cases "plan d") (simp_all add: next_fault_def fault_at_def)

lemma fault_at_drop [simp]: "fault_at (d\<lparr>plan := drop n p\<rparr>) i = fault_at (d\<lparr>plan := p\<rparr>) (n + i)"
  by (auto simp: fault_at_def)

lemma fault_at_plan [simp]: "fault_at (d\<lparr>image := x\<rparr>) i = fault_at d i" "fault_at (d\<lparr>durable := x\<rparr>) i = fault_at d i"
  "fault_at (d\<lparr>plan := plan d\<rparr>) i = fault_at d i"
  by (simp_all add: fault_at_def)

lemma write_at: "vfs_write_all_at data off d = (case fault_at d 0 of
    Works \<Rightarrow> (Inr (), d\<lparr>image := overlay (image d) off data, plan := drop 1 (plan d)\<rparr>)
  | Fails n \<Rightarrow> (Inl write_fails, d\<lparr>image := overlay (image d) off (take n data), plan := drop 1 (plan d)\<rparr>))"
  unfolding vfs_write_all_at_def next_fault_at by (cases "fault_at d 0") simp_all

lemma sync_at: "vfs_sync_file d = (case fault_at d 0 of
    Works \<Rightarrow> (Inr (), d\<lparr>durable := image d, plan := drop 1 (plan d)\<rparr>)
  | Fails n \<Rightarrow> (Inl sync_fails, d\<lparr>plan := drop 1 (plan d)\<rparr>))"
  unfolding vfs_sync_file_def next_fault_at by (cases "fault_at d 0") simp_all

text \<open>What a commit leaves of the file, for each outcome of its four operations: \<open>stored\<close> at \<open>off\<close>, barrier,
  \<open>slot\<close> at \<open>at\<close>, barrier.\<close>

definition commit_outcome :: "disk \<Rightarrow> bytes \<Rightarrow> nat \<Rightarrow> nat \<Rightarrow> bytes \<Rightarrow> bool \<Rightarrow> disk \<Rightarrow> bool" where
  "commit_outcome d stored off at slot returned d' \<longleftrightarrow> (let J = overlay (image d) off stored in
     case (fault_at d 0, fault_at d 1, fault_at d 2, fault_at d 3) of
       (Fails n, _, _, _) \<Rightarrow> \<not> returned \<and>
         d' = d\<lparr>image := overlay (image d) off (take n stored), plan := drop 1 (plan d)\<rparr>
     | (Works, Fails _, _, _) \<Rightarrow> \<not> returned \<and> d' = d\<lparr>image := J, plan := drop 2 (plan d)\<rparr>
     | (Works, Works, Fails n, _) \<Rightarrow> \<not> returned \<and>
         d' = d\<lparr>image := overlay J at (take n slot), durable := J, plan := drop 3 (plan d)\<rparr>
     | (Works, Works, Works, Fails _) \<Rightarrow> \<not> returned \<and>
         d' = d\<lparr>image := overlay J at slot, durable := J, plan := drop 4 (plan d)\<rparr>
     | (Works, Works, Works, Works) \<Rightarrow> returned \<and>
         d' = d\<lparr>image := overlay J at slot, durable := overlay J at slot, plan := drop 4 (plan d)\<rparr>)"

lemma flip_outcome:
  assumes "flip env sb c = (r, c')"
  shows "case (fault_at (c_disk c) 0, fault_at (c_disk c) 1) of
     (Fails n, _) \<Rightarrow> \<not> is_ok r \<and> c_disk c' = (c_disk c)\<lparr>
       image := overlay (c_image c) ((1 - c_slot c) * SLOT_LEN) (take n (superblock_encode (p_blake3 env) sb)), plan := drop 1 (plan (c_disk c))\<rparr>
   | (Works, Fails _) \<Rightarrow> \<not> is_ok r \<and> c_disk c' = (c_disk c)\<lparr>
       image := overlay (c_image c) ((1 - c_slot c) * SLOT_LEN) (superblock_encode (p_blake3 env) sb), plan := drop 2 (plan (c_disk c))\<rparr>
   | (Works, Works) \<Rightarrow> is_ok r \<and> c_disk c' = (let I = overlay (c_image c) ((1 - c_slot c) * SLOT_LEN) (superblock_encode (p_blake3 env) sb) in
       (c_disk c)\<lparr>image := I, durable := I, plan := drop 2 (plan (c_disk c))\<rparr>)"
  using assms
  by (auto simp: flip_def Let_def bind_op_def at_disk_def write_at sync_at numeral_2_eq_2 split: fault.splits prod.splits)

lemma commit_staged_outcome:
  assumes p: "prepare_commit env c = Inr (s, free, payload, codec, stored, off)" and fits: "off + length stored \<le> u64_max"
    and pay: "length payload \<le> u32_max" and run: "commit_staged env c = (r, c')"
  shows "commit_outcome (c_disk c) stored off ((1 - c_slot c) * SLOT_LEN)
      (superblock_encode (p_blake3 env) (published_superblock env c (s, free, payload, codec, stored, off))) (is_ok r) (c_disk c')"
proof -
  let ?sb = "published_superblock env c (s, free, payload, codec, stored, off)" and ?J = "overlay (c_image c) off stored"
  let ?d = "(c_disk c)\<lparr>image := ?J, durable := ?J, plan := drop 2 (plan (c_disk c))\<rparr>"
  have u: "length stored \<le> u32_max" "length (c_dir c) \<le> u32_max"
    using prepare_commit_elim(2,7) [OF p] by (simp_all add: MAX_DIR_STORED_def MAX_MEMBERS_def u32_max_def)
  have steps: "commit_staged env c = bind_op (at_disk (vfs_write_all_at stored off)) (\<lambda>_. bind_op (at_disk vfs_sync_file) (\<lambda>_.
      bind_op (flip env ?sb) (\<lambda>sequence. bind_op (change (\<lambda>c. c\<lparr> c_free := free \<rparr>)) (\<lambda>_. ask (\<lambda>_. Inr sequence))))) c"
    using p fits u pay by (simp add: commit_staged_def bind_op_def ask_def checked_add_def u32_field_def published_superblock_def
        at_disk_def split: prod.splits sum.splits)
  show ?thesis
  proof (cases "fault_at (c_disk c) 0 = Works \<and> fault_at (c_disk c) 1 = Works")
    case False
    then show ?thesis
      using run unfolding steps
      by (cases "fault_at (c_disk c) 0"; cases "fault_at (c_disk c) 1")
        (auto simp: commit_outcome_def Let_def bind_op_def at_disk_def write_at sync_at numeral_2_eq_2)
  next
    case True
    obtain rf cf where fl: "flip env ?sb (c\<lparr> c_disk := ?d \<rparr>) = (rf, cf)" by fastforce
    have "bind_op (flip env ?sb) (\<lambda>sequence. bind_op (change (\<lambda>c. c\<lparr> c_free := free \<rparr>)) (\<lambda>_. ask (\<lambda>_. Inr sequence)))
        (c\<lparr> c_disk := ?d \<rparr>) = (r, c')"
      using run True unfolding steps by (simp add: bind_op_def at_disk_def write_at sync_at numeral_2_eq_2)
    then have "is_ok r = is_ok rf" "c_disk c' = c_disk cf"
      by (cases rf; auto simp: bind_op_def fl change_def ask_def)+
    then show ?thesis
      using True flip_outcome [OF fl]
      by (auto simp: commit_outcome_def Let_def eval_nat_numeral split: fault.splits)
  qed
qed

lemma slots_kept:
  assumes "REGION_START \<le> length img" and "REGION_START \<le> off" and "k \<le> 1"
  shows "slot_bytes (overlay img off x) k = slot_bytes img k"
proof -
  have "take (k * SLOT_LEN + SLOT_LEN) (overlay img off x) = take (k * SLOT_LEN + SLOT_LEN) img"
    by (rule take_overlay) (use assms in \<open>auto simp: REGION_START_def le_Suc_eq\<close>)
  then show ?thesis by (metis slot_bytes_def slice_def drop_take add.commute)
qed

lemma other_slot_kept:
  assumes "REGION_START \<le> length img" and "j \<le> 1" and "length x \<le> SLOT_LEN"
  shows "slot_bytes (overlay img ((1 - j) * SLOT_LEN) x) j = slot_bytes img j"
proof -
  have k: "1 - j \<le> 1" "j \<noteq> 1 - j" using assms(2) by presburger+
  show ?thesis by (rule same_outside_slot [OF overlay_slot(1) [OF assms(1) k(1) assms(3)] assms(1) k(1) assms(2) k(2)])
qed

section \<open>A concrete commit\<close>

definition sample_staged :: container where
  "sample_staged = snd (container_put_bytes sample_prims [97] [1, 2, 3] sample_container)"

lemma sample_prims_ok: "prims_ok sample_prims"
  by (simp add: prims_ok_def sample_prims_def zstd_roundtrip_def)

lemma sample_birth_slots: "slot_bytes sample_birth 0 = superblock_encode (p_blake3 sample_prims) superblock_empty"
  "slot_bytes sample_birth (Suc 0) = replicate 4096 0"
proof -
  have l: "length (superblock_encode (p_blake3 sample_prims) superblock_empty) = 4096"
    using encode_length [OF sample_prims_ok] by (simp add: SLOT_LEN_def)
  show "slot_bytes sample_birth 0 = superblock_encode (p_blake3 sample_prims) superblock_empty"
    "slot_bytes sample_birth (Suc 0) = replicate 4096 0"
    by (simp_all add: slot_bytes_def sample_birth_def empty_birth_image_def slice_def l SLOT_LEN_def REGION_START_def)
qed

lemma zero_slot_unreadable: "superblock_decode (p_blake3 sample_prims) (replicate 4096 0) = Inr None"
proof -
  have s: "slice (replicate 4096 (0 :: byte)) 52 56 = replicate 4 0" "slice (replicate 4096 (0 :: byte)) 0 52 = replicate 52 0"
    by (simp_all add: slice_def)
  have "fold (+) (replicate n (0 :: byte)) 1 = 1" for n by (induction n) simp_all
  then have "slice (p_blake3 sample_prims (replicate 52 0)) 0 4 = replicate 4 1"
    by (simp add: sample_prims_def slice_def)
  then show ?thesis unfolding superblock_decode_def s by (simp add: SB_LEN_def)
qed

lemma sample_opens: "open_image sample_prims sample_birth default_limits = Inr (superblock_empty, 0, [], [])"
proof -
  have h: "4 \<le> length (p_blake3 sample_prims x)" for x using sample_prims_ok by (simp add: prims_ok_def)
  have "superblock_decode (p_blake3 sample_prims) (slot_bytes sample_birth 0) = Inr (Some superblock_empty)"
    unfolding sample_birth_slots by (rule superblock_decode_encode [OF h superblock_empty_ok])
  moreover have "superblock_decode (p_blake3 sample_prims) (slot_bytes sample_birth (Suc 0)) = Inr None"
    unfolding sample_birth_slots by (rule zero_slot_unreadable)
  ultimately show ?thesis
    by (simp add: open_image_Inr select_superblock_def length_sample_birth read_directory_def superblock_empty_def
        is_empty_birth_superblock_def REGION_START_def SLOT_LEN_def)
qed

lemma sample_staged_eq: "sample_staged = sample_container\<lparr> c_disk := (c_disk sample_container)\<lparr>image := overlay sample_birth 8192 [1, 2, 3]\<rparr>,
     c_dir := [([97], \<lparr> mextents = [(8192, 3)], mlen = 3, mxsum = 3 \<rparr>)], c_tail := 8195, c_staged := True \<rparr>"
  by (simp add: sample_staged_def sample_put)

lemma sample_staged_ready:
  "stage_ok sample_staged" "based_on sample_prims sample_staged [] []" "settled sample_staged"
  "ensure_writable sample_staged = Inr ()" "c_staged sample_staged" "plan (c_disk sample_staged) = []"
proof -
  have m: "maps_to (\<lambda>m. m([97] \<mapsto> [1, 2, 3])) sample_container (Inr ()) sample_staged"
    using put_bytes_maps [OF sample_container_ok _ sample_put] by (simp add: sample_staged_eq)
  have b: "based_on sample_prims sample_container [] []"
    using sample_opens by (simp add: based_on_def sample_container_def empty_handle_def superblock_empty_def REGION_START_def SLOT_LEN_def)
  have s: "settled sample_container" by (simp add: settled_def sample_container_def empty_handle_def superblock_empty_def length_sample_birth
      REGION_START_def SLOT_LEN_def)
  show "stage_ok sample_staged" using m by (simp add: maps_to_def)
  show "based_on sample_prims sample_staged [] []" using based_on_keeps [OF b] m by (simp add: maps_to_def)
  show "settled sample_staged" using settled_keeps [OF s b] m by (simp add: maps_to_def)
  show "ensure_writable sample_staged = Inr ()" "c_staged sample_staged" "plan (c_disk sample_staged) = []"
    by (simp_all add: sample_staged_eq sample_container_def empty_handle_def ensure_writable_def)
qed

lemma sample_directory: "encode_directory (c_dir sample_staged) [] = Inr [1, 1, 97, 1, 0x80, 0x40, 3, 3, 0, 0, 0, 0]"
proof -
  have "le32 3 = [3, 0, 0, 0]" using le32_u32_of_le [of "[3, 0, 0, 0]"] by (simp add: u32_of_le_def)
  then have b: "directory_bytes (c_dir sample_staged) [] = [1, 1, 97, 1, 0x80, 0x40, 3, 3, 0, 0, 0, 0]"
    by (simp add: sample_staged_eq directory_bytes_def member_entry_bytes_def put_varint_byte put_varint_two)
  have "list_all (\<lambda>(name, m). name_ok name \<and> member_ok 8195 m) (c_dir sample_staged)"
    using staged_entries(1) [OF sample_staged_ready(1) order_refl] by (simp add: sample_staged_eq)
  moreover have "length (c_dir sample_staged) \<le> u64_max" by (simp add: sample_staged_eq u64_max_def)
  ultimately have "encoded_directory_len (c_dir sample_staged) [] = summed (length (directory_bytes (c_dir sample_staged) []))"
    by (intro encoded_directory_len_summed [where s = 0 and o' = 8195]) (simp_all add: u64_max_def)
  moreover have "length (directory_bytes (c_dir sample_staged) []) = 12" unfolding b by simp
  ultimately show ?thesis by (simp add: encode_directory_def summed_def b u64_max_def MAX_DIR_RAW_def)
qed

lemma sample_prepared: "prepare_commit sample_prims sample_staged =
  Inr (1, [], [1, 1, 97, 1, 0x80, 0x40, 3, 3, 0, 0, 0, 0], 0, [1, 1, 97, 1, 0x80, 0x40, 3, 3, 0, 0, 0, 0], 12288)"
proof -
  have "next_sequence sample_staged = Inr 1" "next_free_list sample_staged 1 = []" "align_up (c_tail sample_staged) = Inr 12288"
    "length (c_dir sample_staged) = 1" "\<not> list_ex (\<lambda>(_, m). length (mextents m) > MAX_MEMBER_EXTENTS) (c_dir sample_staged)"
    by (simp_all add: sample_staged_eq sample_container_def empty_handle_def next_sequence_def superblock_empty_def checked_add_def
        u64_max_def next_free_list_def align_up_def ALIGN_def MAX_MEMBER_EXTENTS_def)
  then show ?thesis
    unfolding prepare_commit_def Let_def
    by (simp add: sample_directory container_consts codec_encode_def sample_prims_def block_consts)
qed

lemma sample_policy:
  assumes "container_commit sample_prims sample_staged = (Inr seq, c')"
  shows "policy_admits default_limits (c_sb c') (c_free c')" "c_free c' = []" "next_free_list sample_staged n = []"
proof -
  let ?q = "(1, [], [1, 1, 97, 1, 0x80, 0x40, 3, 3, 0, 0, 0, 0], 0, [1, 1, 97, 1, 0x80, 0x40, 3, 3, 0, 0, 0, 0], 12288)"
  have c': "c_sb c' = published_superblock sample_prims sample_staged ?q \<and> c_free c' = []"
    by (rule commit_success [OF sample_staged_ready(1,4,5) assms]) (simp add: sample_prepared)
  have "12288 + length [1, 1, 97, 1, 0x80, 0x40, 3, 3, 0, 0, 0, 0 :: byte] \<le> u64_max" by (simp add: u64_max_def)
  note f = published_superblock_ok(4-6) [OF sample_staged_ready(1) sample_prims_ok sample_prepared this]
  show "policy_admits default_limits (c_sb c') (c_free c')"
    using c' f by (simp add: policy_admits_def) (simp add: sample_staged_eq default_limits_def default_max_stored_frame_bytes_def
      default_max_decoded_frame_bytes_def default_max_directory_entries_def)
  show "c_free c' = []" using c' by simp
  show "next_free_list sample_staged n = []"
    by (simp add: next_free_list_def sample_staged_eq sample_container_def empty_handle_def superblock_empty_def)
qed

text \<open>C16. From a handle as in C3, a staged commit whose preparation passes and whose directory ends below the largest
  offset does four things to the file, in this order, and stops at the first that fails: it writes the directory block behind everything staged, syncs,
  writes the new superblock into the slot the live state was not read from, and syncs. It returns, with the next
  sequence number, exactly when all four worked, and then holds the published state. The table gives the live and the
  durable bytes for every outcome: nothing is durable before the first barrier, the directory and the members are
  before the first byte of the superblock is written. The live slot is never touched, and neither slot is before the
  first barrier has passed.\<close>

theorem commit_runs_in_order:
  assumes "prims_ok env" and "stage_ok c" and "based_on env c pd pf"
    and "prepare_commit env c = Inr (s, free, payload, codec, stored, off)" and "off + length stored \<le> u64_max"
    and "ensure_writable c = Inr ()" and "c_staged c" and "container_commit env c = (r, c')"
  shows "commit_outcome (c_disk c) stored off ((1 - c_slot c) * SLOT_LEN)
      (superblock_encode (p_blake3 env) (published_superblock env c (s, free, payload, codec, stored, off)))
      (is_ok r) (c_disk c') \<and>
    (is_ok r \<longrightarrow> r = Inr (word_of_nat s) \<and> s = Suc (unat (sb_seq (c_sb c))) \<and> c_dir c' = c_dir c \<and> c_free c' = free \<and>
      c_sb c' = published_superblock env c (s, free, payload, codec, stored, off) \<and> c_slot c' = 1 - c_slot c \<and> \<not> c_staged c') \<and>
    slot_bytes (c_image c') (c_slot c) = slot_bytes (c_image c) (c_slot c) \<and>
    (fault_at (c_disk c) 0 \<noteq> Works \<or> fault_at (c_disk c) 1 \<noteq> Works \<longrightarrow>
      slot_bytes (c_image c') (1 - c_slot c) = slot_bytes (c_image c) (1 - c_slot c))"
proof -
  let ?c = "c\<lparr> c_failed_selected := None \<rparr>" and ?at = "(1 - c_slot c) * SLOT_LEN" and ?J = "overlay (c_image c) off stored"
  let ?sb = "published_superblock env c (s, free, payload, codec, stored, off)"
  let ?E = "superblock_encode (p_blake3 env) ?sb"
  note f = published_superblock_ok [OF assms(2,1,4,5)] and e = prepare_commit_elim [OF assms(4)]
  have o': "open_image env (c_image c) (c_limits c) = Inr (c_sb c, c_slot c, pd, pf)" using assms(3) by (simp add: based_on_def)
  have slot: "c_slot c \<le> 1" by (rule open_image_live(1) [OF o'])
  have len: "REGION_START \<le> length (c_image c)" "REGION_START \<le> length ?J" using o' by (auto simp: open_image_Inr length_overlay)
  have off: "REGION_START \<le> off" using assms(2) e(8) align_up_Inr [of "c_tail c" off] by (simp add: stage_ok_def)
  have E: "length (take n ?E) \<le> SLOT_LEN" "length ?E \<le> SLOT_LEN" for n using encode_length [OF assms(1)] by simp_all
  obtain r1 c1 where run: "commit_staged env ?c = (r1, c1)"
    and res: "(r, c') = (case r1 of Inl e \<Rightarrow> (Inl e, commit_failed env c1) | Inr s \<Rightarrow> (Inr s, c1))"
    using commit_run [OF assms(6-8)] by blast
  have same: "c_disk c' = c_disk c1" "is_ok r = is_ok r1" using res by (cases r1; simp)+
  have "length payload \<le> u32_max" using f(9) by (simp add: MAX_DIR_RAW_def u32_max_def)
  from commit_staged_outcome [OF _ assms(5) this run] assms(4)
  have out: "commit_outcome (c_disk c) stored off ?at ?E (is_ok r) (c_disk c')" by (simp add: same)
  have state: "r = Inr (word_of_nat s) \<and> s = Suc (unat (sb_seq (c_sb c))) \<and> c_dir c' = c_dir c \<and> c_free c' = free \<and>
      c_sb c' = ?sb \<and> c_slot c' = 1 - c_slot c \<and> \<not> c_staged c'" if ok: "is_ok r"
  proof -
    obtain seq where r: "r = Inr seq" using ok by (auto simp: is_ok_iff)
    have "seq = sb_seq (c_sb c') \<and> c_dir c' = c_dir c \<and> c_free c' = free \<and> c_sb c' = ?sb \<and> c_slot c' = 1 - c_slot c \<and> \<not> c_staged c'"
      by (rule commit_success [OF assms(2,6,7) assms(8) [unfolded r]]) (simp add: assms(4))
    then show ?thesis using r e(1) by (auto simp: next_sequence_Inr published_superblock_def)
  qed
  note keep = slots_kept [OF len(1) off] and other = other_slot_kept [OF len(2) slot]
  have "slot_bytes (c_image c') (c_slot c) = slot_bytes (c_image c) (c_slot c)"
    using out by (auto simp: commit_outcome_def Let_def other [OF E(1)] other [OF E(2)] keep slot simp del: One_nat_def split: fault.splits)
  moreover have "slot_bytes (c_image c') (1 - c_slot c) = slot_bytes (c_image c) (1 - c_slot c)"
    if "fault_at (c_disk c) 0 \<noteq> Works \<or> fault_at (c_disk c) 1 \<noteq> Works"
    using out that by (auto simp: commit_outcome_def Let_def keep simp del: One_nat_def split: fault.splits)
  ultimately show ?thesis using out state by blast
qed

lemma commit_runs_in_order_witness:
  "\<exists>seq c'. container_commit sample_prims sample_staged = (Inr seq, c') \<and> seq = 1 \<and> c_slot c' = 1 \<and>
     durable (c_disk c') = c_image c' \<and> slot_bytes (c_image c') 0 = slot_bytes (c_image sample_staged) 0"
proof -
  obtain r c' where c: "container_commit sample_prims sample_staged = (r, c')" by fastforce
  have fits: "12288 + length [1, 1, 97, 1, 0x80, 0x40, 3, 3, 0, 0, 0, 0 :: byte] \<le> u64_max" by (simp add: u64_max_def)
  have "fault_at (c_disk sample_staged) i = Works" for i using sample_staged_ready(6) by (simp add: fault_at_def)
  moreover have "c_slot sample_staged = 0" by (simp add: sample_staged_eq sample_container_def empty_handle_def)
  ultimately show ?thesis
    using commit_runs_in_order [OF sample_prims_ok sample_staged_ready(1,2) sample_prepared fits sample_staged_ready(4,5) c] c
    by (auto simp: commit_outcome_def Let_def)
qed

lemma sample_commits: "\<exists>seq c'. container_commit sample_prims sample_staged = (Inr seq, c')"
  by (rule commit_works [OF sample_prims_ok sample_staged_ready(1) sample_prepared _ sample_staged_ready(4-6)])
    (simp add: u64_max_def)

lemma commit_reopens_witness:
  "\<exists>seq c' c2. container_commit sample_prims sample_staged = (Inr seq, c') \<and> unat seq = 1 \<and>
     container_open sample_prims 7 (c_disk c') default_limits = Inr c2 \<and> contents c2 = contents sample_staged"
proof -
  obtain seq c' where c: "container_commit sample_prims sample_staged = (Inr seq, c')" using sample_commits by blast
  from commit_reopens [OF sample_prims_ok sample_staged_ready(1,2,4,5) c, of default_limits 7]
  have "unat seq = Suc (unat (sb_seq (c_sb sample_staged)))"
    "\<exists>c2. container_open sample_prims 7 (c_disk c') default_limits = Inr c2 \<and> contents c2 = contents sample_staged"
    using sample_policy(1) [OF c] by auto
  moreover have "unat (sb_seq (c_sb sample_staged)) = 0"
    by (simp add: sample_staged_eq sample_container_def empty_handle_def superblock_empty_def)
  ultimately show ?thesis using c by auto
qed

lemma commit_crash_atomic_witness:
  "\<exists>seq c' sb free. container_commit sample_prims sample_staged = (Inr seq, c') \<and>
     open_image sample_prims (durable (c_disk c')) default_limits = Inr (sb, 1, c_dir sample_staged, free) \<and>
     dir_contents (durable (c_disk c')) (c_dir sample_staged) = contents sample_staged"
proof -
  obtain seq c' where c: "container_commit sample_prims sample_staged = (Inr seq, c')" using sample_commits by blast
  note s = commit_success_state [OF sample_prims_ok sample_staged_ready(1,2,4,5) c] and pol = sample_policy [OF c]
  have cr: "crash_image (c_disk c') (durable (c_disk c'))" by (simp add: crash_image_def)
  have slot: "c_slot sample_staged = 0" by (simp add: sample_staged_eq sample_container_def empty_handle_def)
  have "open_image sample_prims (c_image c') default_limits = Inr (c_sb c', c_slot c', c_dir sample_staged, c_free c')"
    using s(2) pol(1) by metis
  then have "superblock_decode (p_blake3 sample_prims) (slot_bytes (c_image c') (c_slot c')) = Inr (Some (c_sb c'))"
    by (rule open_image_live(2))
  moreover have "length (slot_bytes (c_image c') 1) = SLOT_LEN"
    using s(12) by (simp add: slot_bytes_def REGION_START_def)
  ultimately have "slot_bytes (c_image c') 1 = superblock_encode (p_blake3 sample_prims) (c_sb c')"
    using superblock_decode_exact [of "slot_bytes (c_image c') 1" "p_blake3 sample_prims" "c_sb c'"] s(9) slot by simp
  then have "torn_slot_detected sample_prims sample_staged (durable (c_disk c'))"
    using s(7,10) slot by (simp add: torn_slot_detected_def Let_def)
  note a = commit_crash_atomic [OF sample_prims_ok sample_staged_ready(1-5) c cr this]
  have "is_ok (Inr seq :: u64 outcome)" by simp
  then obtain sb free where sb: "next_superblock sample_prims sample_staged = Inr sb"
      "free = next_free_list sample_staged (unat (sb_seq sb))"
      "dir_contents (durable (c_disk c')) (c_dir sample_staged) = contents sample_staged"
      "\<And>limits. if policy_admits limits sb free
        then open_image sample_prims (durable (c_disk c')) limits = Inr (sb, 1 - c_slot sample_staged, c_dir sample_staged, free)
        else \<not> is_ok (open_image sample_prims (durable (c_disk c')) limits)"
    using a by blast
  moreover have "next_superblock sample_prims sample_staged = Inr (c_sb c')" by (rule s(10))
  ultimately have "dir_contents (durable (c_disk c')) (c_dir sample_staged) = contents sample_staged"
      "open_image sample_prims (durable (c_disk c')) default_limits = Inr (c_sb c', 1, c_dir sample_staged, [])"
    using sb(1-3) sb(4) [of default_limits] pol slot by auto
  then show ?thesis using c by blast
qed

lemma prepare_commit_disk [simp]: "prepare_commit env (c\<lparr> c_disk := d \<rparr>) = prepare_commit env c"
proof -
  have u: "c_dir (c\<lparr> c_disk := d \<rparr>) = c_dir c" "c_tail (c\<lparr> c_disk := d \<rparr>) = c_tail c"
    "next_sequence (c\<lparr> c_disk := d \<rparr>) = next_sequence c" "next_free_list (c\<lparr> c_disk := d \<rparr>) = next_free_list c"
    by (simp_all add: next_sequence_def next_free_list_def fun_eq_iff)
  show ?thesis unfolding prepare_commit_def u ..
qed

lemma commit_failure_poisons_witness:
  "\<exists>e c'. container_commit sample_prims (sample_staged\<lparr> c_disk := (c_disk sample_staged)\<lparr>plan := [Works, Fails 0]\<rparr>\<rparr>) = (Inl e, c') \<and>
     c_poisoned c' \<and> \<not> is_ok (ensure_writable c')"
proof -
  let ?c = "sample_staged\<lparr> c_disk := (c_disk sample_staged)\<lparr>plan := [Works, Fails 0]\<rparr>\<rparr>"
  let ?f = "?c\<lparr> c_failed_selected := None \<rparr>"
  have w: "ensure_writable ?c = Inr ()" "c_staged ?c"
    using sample_staged_ready(4,5) by (simp_all add: ensure_writable_def split: if_splits)
  have p: "prepare_commit sample_prims ?f = Inr (1, [], [1, 1, 97, 1, 0x80, 0x40, 3, 3, 0, 0, 0, 0], 0, [1, 1, 97, 1, 0x80, 0x40, 3, 3, 0, 0, 0, 0], 12288)"
    using sample_prepared by (simp only: unfailed prepare_commit_disk)
  have d: "length (c_dir sample_staged) \<le> u32_max" by (simp add: sample_staged_eq u32_max_def)
  have "\<exists>e c1. commit_staged sample_prims ?f = (Inl e, c1) \<and> c_failed_selected c1 = None"
    unfolding commit_staged_def bind_op_ask p
    by (simp add: bind_op_def ask_def at_disk_def vfs_write_all_at_def vfs_sync_file_def next_fault_def checked_add_def
        u32_field_def u64_max_def u32_max_def d [unfolded u32_max_def])
  then obtain e c1 where s: "commit_staged sample_prims ?f = (Inl e, c1)" "c_failed_selected c1 = None" by blast
  have run: "container_commit sample_prims ?c = (Inl e, commit_failed sample_prims c1)"
    using w s(1) by (simp add: container_commit_def)
  from commit_failure_poisons [OF w run] show ?thesis using run s(2) by (auto simp: commit_failed_def)
qed

section \<open>The read policy and the free list\<close>

text \<open>C17. The free list is not held to the read policy that reopening applies to it: a commit that published more free
  extents than the handle's own \<open>max_directory_entries\<close> returns success, and the file then cannot be opened under that
  policy. (Commits check the ceiling of a million free extents only, while the default policy admits a hundred thousand
  directory entries, and every commit adds the directory block it supersedes.)\<close>

theorem commit_can_outgrow_own_policy:
  assumes "prims_ok env" and "stage_ok c" and "based_on env c pd pf" and "ensure_writable c = Inr ()" and "c_staged c"
    and "container_commit env c = (Inr seq, c')" and "max_directory_entries (c_limits c) < length (c_free c')"
  shows "durable (c_disk c') = c_image c' \<and> \<not> is_ok (open_image env (c_image c') (c_limits c))"
proof -
  note s = commit_success_state [OF assms(1-6)]
  have "\<not> policy_admits (c_limits c) (c_sb c') (c_free c')" using assms(7) by (simp add: policy_admits_def)
  then show ?thesis using s(2) [where limits = "c_limits c"] s(7) by simp
qed

definition tight_container :: container where
  "tight_container = sample_container\<lparr> c_limits := default_limits\<lparr>max_directory_entries := 1\<rparr> \<rparr>"

definition tight_staged :: container where
  "tight_staged = snd (run_ops sample_prims [Put [97] [1], Put [97] [2], Put [97] [3]] tight_container)"

lemma tight_staged_eq: "tight_staged = tight_container\<lparr>
    c_disk := (c_disk tight_container)\<lparr>image := overlay (overlay (overlay sample_birth 8192 [1]) 12288 [2]) 16384 [3]\<rparr>,
    c_dir := [([97], \<lparr> mextents = [(16384, 1)], mlen = 1, mxsum = 1 \<rparr>)], c_free := [(8192, 1, 1), (12288, 1, 1)],
    c_tail := 16385, c_staged := True \<rparr>"
  by (simp add: tight_staged_def tight_container_def sample_container_def empty_handle_def container_put_bytes_def preflight_member_def
      ensure_writable_def validate_name_def aligned_start_def align_up_def checked_add_def next_sequence_def superblock_empty_def
      preflight_replacement_def preflight_free_def container_consts u64_max_def bind_op_def ask_def change_def at_disk_def
      vfs_write_all_at_def stage_entry_def freed_at_def Let_def sample_prims_def)

lemma tight_ready:
  "stage_ok tight_staged" "based_on sample_prims tight_staged [] []" "ensure_writable tight_staged = Inr ()"
  "c_staged tight_staged" "plan (c_disk tight_staged) = []"
proof -
  have ok: "stage_ok tight_container" using sample_container_ok by (simp add: tight_container_def stage_ok_def owned_def)
  obtain rs where r: "run_ops sample_prims [Put [97] [1], Put [97] [2], Put [97] [3]] tight_container = (rs, tight_staged)"
    unfolding tight_staged_def by (metis prod.collapse)
  have s: "stage_ok tight_staged" "keeps tight_container tight_staged" using run_ops_spec [OF ok _ r] by simp_all
  have "open_image sample_prims sample_birth (default_limits\<lparr>max_directory_entries := 1\<rparr>) = Inr (superblock_empty, 0, [], [])"
    using sample_opens by (simp add: open_image_Inr read_directory_def superblock_empty_def split: if_splits)
  then have b: "based_on sample_prims tight_container [] []"
    by (simp add: based_on_def tight_container_def sample_container_def empty_handle_def superblock_empty_def REGION_START_def SLOT_LEN_def)
  show "stage_ok tight_staged" by (rule s(1))
  show "based_on sample_prims tight_staged [] []" by (rule based_on_keeps [OF b s(2)])
  show "ensure_writable tight_staged = Inr ()" "c_staged tight_staged" "plan (c_disk tight_staged) = []"
    by (simp_all add: tight_staged_eq tight_container_def sample_container_def empty_handle_def ensure_writable_def)
qed

lemma tight_prepared: "\<exists>payload. length payload = 21 \<and>
  prepare_commit sample_prims tight_staged = Inr (1, [(8192, 1, 1), (12288, 1, 1)], payload, 0, payload, 20480)"
proof -
  let ?free = "[(8192, 1, 1), (12288, 1, 1)]" and ?b = "directory_bytes (c_dir tight_staged) [(8192, 1, 1), (12288, 1, 1)]"
  have "put_varint (16384 :: u64) = [0x80, 0x80, 1]" by (subst put_varint.simps) (simp add: put_varint_two)
  then have len: "length ?b = 21"
    by (simp add: tight_staged_eq directory_bytes_def member_entry_bytes_def put_varint_byte put_varint_two)
  have n: "next_sequence tight_staged = Inr 1" "next_free_list tight_staged 1 = ?free" "align_up (c_tail tight_staged) = Inr 20480"
    "length (c_dir tight_staged) = 1" "\<not> list_ex (\<lambda>(_, m). length (mextents m) > MAX_MEMBER_EXTENTS) (c_dir tight_staged)"
    by (simp_all add: tight_staged_eq tight_container_def sample_container_def empty_handle_def next_sequence_def superblock_empty_def
        checked_add_def u64_max_def next_free_list_def align_up_def ALIGN_def MAX_MEMBER_EXTENTS_def)
  have "list_all (\<lambda>(name, m). name_ok name \<and> member_ok 16385 m) (c_dir tight_staged)" "list_all (free_ok 1 16385) ?free"
    using staged_entries(1) [OF tight_ready(1) order_refl] staged_entries(2) [OF tight_ready(1) order_refl, of 1] n(1,2)
    by (simp_all add: tight_staged_eq)
  then have "encoded_directory_len (c_dir tight_staged) ?free = summed (length ?b)"
    using n(4) by (intro encoded_directory_len_summed [where s = 1 and o' = 16385]) (simp_all add: u64_max_def)
  then have "encoded_directory_len (c_dir tight_staged) ?free = Inr 21"
    unfolding len by (simp add: summed_def u64_max_def)
  then have "encode_directory (c_dir tight_staged) ?free = Inr ?b"
    unfolding encode_directory_def by (simp only: bind_res.simps) (simp add: MAX_DIR_RAW_def)
  then have "prepare_commit sample_prims tight_staged = Inr (1, ?free, ?b, 0, ?b, 20480)"
    unfolding prepare_commit_def Let_def using n len
    by (simp add: container_consts codec_encode_def sample_prims_def block_consts)
  then show ?thesis using len by blast
qed

lemma commit_can_outgrow_own_policy_witness:
  "\<exists>seq c'. container_commit sample_prims tight_staged = (Inr seq, c') \<and> c_limits c' = default_limits\<lparr>max_directory_entries := 1\<rparr> \<and>
     \<not> is_ok (open_image sample_prims (durable (c_disk c')) (c_limits c'))"
proof -
  obtain payload where p: "length payload = 21"
      "prepare_commit sample_prims tight_staged = Inr (1, [(8192, 1, 1), (12288, 1, 1)], payload, 0, payload, 20480)"
    using tight_prepared by blast
  have fits: "20480 + length payload \<le> u64_max" using p(1) by (simp add: u64_max_def)
  obtain seq c' where c: "container_commit sample_prims tight_staged = (Inr seq, c')"
    using commit_works [OF sample_prims_ok tight_ready(1) p(2) fits tight_ready(3-5)] by blast
  have f: "c_free c' = [(8192, 1, 1), (12288, 1, 1)] \<and> c_limits c' = c_limits tight_staged"
    by (rule commit_success [OF tight_ready(1,3,4) c]) (simp add: p(2))
  have l: "c_limits tight_staged = default_limits\<lparr>max_directory_entries := 1\<rparr>"
    by (simp add: tight_staged_eq tight_container_def)
  then have "max_directory_entries (c_limits tight_staged) < length (c_free c')" using f by simp
  from commit_can_outgrow_own_policy [OF sample_prims_ok tight_ready(1-4) c this] show ?thesis using c f l by auto
qed

end
