(* ===== verification/Spec2Isabelle.thy ===== *)
theory Spec2Isabelle
  imports Prelude Limits ReadAt Varint Wire Types IdCol Block Codec Segment Dedup Bloom Carve WalRecord Vfs Wal
    BTree ContainerFormat Container ContainerStage ContainerCommit
begin

text \<open>
  A verification development for turndb, an embedded store of agent traces (\<open>src/src/\<close>). A record's
  bodies are carved into pieces, pieces are deduplicated by their BLAKE3 identity and folded into
  compressed blocks of append-only segments; records are acknowledged through a write-ahead log, sealed
  into sorted parts, and all artifacts of a store can live as members of one container file. This
  development models the formats and the algorithms those layers rest on, and the two components that
  decide what survives a crash: the write-ahead log and the container.

  \<^bold>\<open>Theories, from the bottom.\<close>
  \<^item> \<open>Prelude\<close>: results of fallible code (\<open>'a outcome\<close> and \<open>bind_res\<close>, the code's \<open>?\<close>), byte strings and
    slices, little-endian integers, checked 64-bit arithmetic. \<open>Vfs\<close> (\<open>vfs.rs\<close>): one open file with its
    live and its durable bytes, positioned writes, truncation, hole punching and the barrier, each of
    which may fail as a plan of faults says, and \<open>('s, 'a) op\<close> with \<open>bind_op\<close>, methods on \<open>&mut self\<close>.
  \<^item> \<open>Limits\<close> (\<open>read_limits.rs\<close>): the read policy and every admission check.
  \<^item> \<open>ReadAt\<close> (\<open>readat.rs\<close>): positional readers, members scattered over extents, the physical ranges of
    a window.
  \<^item> \<open>Varint\<close> and \<open>IdCol\<close> (\<open>part/idcol.rs\<close>): varints; the front-coded id column with its build, scan,
    random access, two-level search, streaming cursor and validation.
  \<^item> \<open>Wire\<close>: the contract of a field of a byte format, a writer and a cursor-advancing reader, as the
    locales \<open>wire\<close> and \<open>exact_wire\<close>, interpreted on the varint and used for the record payload.
  \<^item> \<open>Types\<close> (\<open>types.rs\<close>): identities, attribute values, content programs, records.
  \<^item> \<open>Block\<close>, \<open>Codec\<close>, \<open>Segment\<close> (\<open>fold/block.rs\<close>, \<open>fold/codec.rs\<close>, \<open>fold/segment.rs\<close>): locations and block
    frames, the choice of codec, segment names and headers, the scan of a segment's tail, the advisory
    directory sidecar.
  \<^item> \<open>Dedup\<close> (\<open>fold/dedup.rs\<close>): the open-addressed window over piece hashes, with its contract as the
    locale \<open>first_wins\<close>. \<open>Bloom\<close> (\<open>part/bloom.rs\<close>): the filter over a part's hashes. \<open>Carve\<close> (\<open>carve.rs\<close>):
    the four carving strategies.
  \<^item> \<open>WalRecord\<close> and \<open>Wal\<close> (\<open>store/wal.rs\<close>): the record payload with its verification of identities; frames,
    the append buffer, batches, the barrier, truncation, opening and replay.
  \<^item> \<open>BTree\<close> (the standard library's ordered map, locale \<open>ordered_map\<close>), \<open>ContainerFormat\<close>, \<open>Container\<close>,
    \<open>ContainerStage\<close>, \<open>ContainerCommit\<close> (\<open>container.rs\<close>): the superblocks and the directory; the handle as
    a record and one definition per operation; what staging promises; what publication promises.

  \<^bold>\<open>State and operations.\<close> A handle of the code is a record (\<open>container\<close>, \<open>wal\<close>, \<open>dedup_table\<close>, \<open>bloom\<close>,
  \<open>id_cursor\<close>) and a method is a function that returns the new record with its result; a method that does
  I/O is an \<open>op\<close>, so that its error paths keep the state they reached, the file included. Definitions
  keep the names of the functions they translate, with a prefix where two modules share one. An error is
  a value (\<open>Inl\<close> with \<open>Bail\<close> and its message, a refused admission, a failed read). Persisted and hashed
  integers are words of their width; lengths, offsets and counts in memory are natural numbers, checked
  against a width where the code checks them; \<open>usize\<close> is 64 bits wide.

  \<^bold>\<open>Parameters.\<close> BLAKE3, CRC-32 and zstd are arguments of the definitions that use them. What is
  assumed of them is stated where it is needed: a digest has at least four bytes, zstd undoes itself and
  never yields an empty frame (\<open>prims_ok\<close>), a superblock slot torn by a crash fails its checksum
  (\<open>torn_slot_detected\<close>).

  \<^bold>\<open>What the theorems show.\<close>
  \<^item> Container. Staging is a map from names to bytes under any faults (C2). A commit performs its two
    writes and two barriers in order and its effect on the file is known for every point of failure
    (C16); cut anywhere it leaves the published state or the staged one (C1), returned it reopens to the
    staged one (C3), failed it never leaves a handle on a stale view (C4). Both speak of every read
    policy: a state opens under exactly the policies that admit it, and a commit may publish one that its
    own handle's policy refuses (C17, a defect). Slots and directories decode to what their encoders
    wrote and to nothing else (C13, C14), and a directory that is read gives no byte two owners (C15).
  \<^item> Write-ahead log. Replay after any crash yields a prefix of the accepted mutations that contains all
    acknowledged ones, batches whole (C5), all of them after a barrier (C6), and recovery re-establishes
    the writer's invariant (C7). A payload has one spelling and is verified when it is decoded (C11, C12).
  \<^item> Segments. A crash loses only the torn frame (C8), the scan drops no valid frame (C9), a validated
    sidecar agrees with it (C10), names, headers and sidecars are exact (C36 to C38), frames verify and
    no prefix of one does (C28, C29).
  \<^item> Data structures and algorithms. Carving (C18, C31, C32), the dedup window as a map (C19, C33), codec
    choice (C20), the id column (C21 to C27), records (C30), the Bloom filter (C34, C35), scattered
    reads (C39, C40).

  \<^bold>\<open>Loops.\<close> Every loop that the code bounds is structural recursion or recursion under a measure with its
  termination proof. The two that could run forever, the probe loops of the dedup table and the chunker,
  return \<open>None\<close> when they do; C19, C33, C18 and C32 include that they end. There is no fuel.

  \<^bold>\<open>Not modelled.\<close> The fold writer and reader over several segments (\<open>fold/mod.rs\<close>), parts
  (\<open>part/mod.rs\<close>, \<open>builder.rs\<close>, \<open>merge.rs\<close>, \<open>attrs.rs\<close>), the store with its locking, compaction and
  erasure protocols (\<open>store/\<close> but for the log), scanning and the query layer; directory operations,
  renames and system calls (\<open>sys.rs\<close>, most of \<open>vfs.rs\<close>); the container's reclaim, which renames files.
  Formatting, accounting of heap bytes and refused allocations are left out.
\<close>

end
